(* ===== verification/Prelude.thy ===== *)
theory Prelude
  imports Main "HOL-Library.Word" "HOL-Library.Multiset" "HOL-Library.Monad_Syntax"
begin

text \<open>
  What the components share.

  A C function that can run into undefined behaviour (an access outside an allocation, a read
  of an indeterminate value, a use of a freed object, a null dereference) is a function into
  \<open>'a option\<close>: \<open>None\<close> is the undefined behaviour, and a theorem that the result is \<open>Some\<close>
  is a memory-safety theorem.  Error codes the C code returns (1, NULL, \<open>-EINVAL\<close>) are values.

  The theory holds the LP64 integer types, malloc'd arrays of pointers, and the generic lemmas
  on lists, multisets and division by two that more than one component uses.
\<close>

section \<open>Integer types of the platform\<close>

type_synonym u8 = "8 word"
type_synonym u16 = "16 word"
type_synonym u32 = "32 word"
type_synonym u64 = "64 word"

text \<open>A \<open>size_t\<close> is kept as a \<open>nat\<close>; every addition or product that can wrap is
  written with its \<open>mod size_modulus\<close>.\<close>

definition size_modulus :: nat where
  "size_modulus = 2 ^ 64"

named_theorems arr_simps "allocated arrays of pointers"
named_theorems result_simps "evaluation of the option monad"

lemmas [result_simps] = bind_eq_Some_conv bind_eq_None_conv

section \<open>Arrays of pointers\<close>

text \<open>
  A block of \<open>n\<close> pointers obtained from \<open>malloc\<close> is a list of length \<open>n\<close>; \<open>None\<close> marks a
  slot that was never written.  No object has more than \<open>SIZE_MAX\<close> bytes, so an index of
  \<open>2 ^ 61\<close> or more addresses nothing.
\<close>

type_synonym 'e ptr_array = "'e option list"

definition max_slots :: nat where
  "max_slots = 2 ^ 61"

definition arr_get :: "'e ptr_array \<Rightarrow> nat \<Rightarrow> 'e option" where
  "arr_get xs i = (if i < length xs \<and> i < max_slots then xs ! i else None)"

definition arr_set :: "'e ptr_array \<Rightarrow> nat \<Rightarrow> 'e \<Rightarrow> 'e ptr_array option" where
  "arr_set xs i x = (if i < length xs \<and> i < max_slots then Some (xs[i := Some x]) else None)"

text \<open>\<open>realloc\<close> to \<open>n\<close> slots keeps the common prefix; new slots are indeterminate.\<close>

definition arr_resize :: "nat \<Rightarrow> 'e ptr_array \<Rightarrow> 'e ptr_array" where
  "arr_resize n xs = take n xs @ replicate (n - length xs) None"

lemma arr_get_Some_iff [arr_simps]:
  "arr_get xs i = Some x \<longleftrightarrow> i < length xs \<and> i < max_slots \<and> xs ! i = Some x"
  by (auto simp: arr_get_def)

lemma arr_set_Some_iff [arr_simps]:
  "arr_set xs i x = Some ys \<longleftrightarrow> i < length xs \<and> i < max_slots \<and> ys = xs[i := Some x]"
  by (auto simp: arr_set_def)

lemma length_arr_resize [simp]: "length (arr_resize n xs) = n"
  by (simp add: arr_resize_def)

lemma nth_arr_resize: "i < n \<Longrightarrow> i < length xs \<Longrightarrow> arr_resize n xs ! i = xs ! i"
  by (simp add: arr_resize_def nth_append)

section \<open>Parts of an array as multisets\<close>

text \<open>\<open>inner n xs\<close> are the slots \<open>1 \<dots> n - 1\<close>.\<close>

definition inner :: "nat \<Rightarrow> 'a list \<Rightarrow> 'a list" where
  "inner n xs = take (n - 1) (drop 1 xs)"

lemma length_inner: "n \<le> length xs \<Longrightarrow> length (inner n xs) = n - 1"
  by (simp add: inner_def)

lemma nth_inner: "n \<le> length xs \<Longrightarrow> Suc i < n \<Longrightarrow> inner n xs ! i = xs ! Suc i"
  by (simp add: inner_def)

lemma set_inner: "n \<le> length xs \<Longrightarrow> set (inner n xs) = {xs ! i | i. 1 \<le> i \<and> i < n}"
proof -
  assume n: "n \<le> length xs"
  have "set (inner n xs) = {inner n xs ! i | i. i < n - 1}"
    using n by (auto simp: set_conv_nth length_inner)
  also have "\<dots> = {xs ! i | i. 1 \<le> i \<and> i < n}"
  proof (intro equalityI subsetI)
    fix x assume "x \<in> {inner n xs ! i | i. i < n - 1}"
    then obtain i where "i < n - 1" "x = inner n xs ! i" by auto
    then show "x \<in> {xs ! i | i. 1 \<le> i \<and> i < n}"
      using n by (intro CollectI exI [of _ "Suc i"]) (simp add: nth_inner)
  next
    fix x assume "x \<in> {xs ! i | i. 1 \<le> i \<and> i < n}"
    then obtain i where "1 \<le> i" "i < n" "x = xs ! i" by auto
    then show "x \<in> {inner n xs ! i | i. i < n - 1}"
      using n by (intro CollectI exI [of _ "i - 1"]) (simp add: nth_inner)
  qed
  finally show ?thesis .
qed

lemma inner_mset_cong:
  assumes "mset xs = mset ys" and "1 \<le> n" and "n \<le> length xs"
    and "\<And>i. i < length xs \<Longrightarrow> i < 1 \<or> n \<le> i \<Longrightarrow> xs ! i = ys ! i"
  shows "mset (inner n xs) = mset (inner n ys)"
proof -
  have len: "length ys = length xs" using assms(1) by (metis size_mset)
  have split: "mset zs = mset (take 1 zs) + mset (inner n zs) + mset (drop n zs)"
    if "length zs = length xs" for zs :: "'a list"
  proof -
    have "zs = take 1 zs @ take (n - 1) (drop 1 zs) @ drop (n - 1) (drop 1 zs)"
      by (simp only: append_take_drop_id)
    then have "mset zs = mset (take 1 zs @ take (n - 1) (drop 1 zs) @ drop (n - 1) (drop 1 zs))"
      by metis
    then show ?thesis using assms(2) by (simp add: inner_def)
  qed
  have "take 1 xs = take 1 ys" "drop n xs = drop n ys"
    using assms(3,4) len by (auto intro!: nth_equalityI)
  with split [of xs] split [of ys] len assms(1) show ?thesis by simp
qed

lemma inner_Suc: "1 \<le> n \<Longrightarrow> n < length xs \<Longrightarrow> inner (Suc n) xs = inner n xs @ [xs ! n]"
  by (cases n) (simp_all add: inner_def take_Suc_conv_app_nth)

lemma inner_update_beyond: "n \<le> i \<Longrightarrow> inner n (xs[i := x]) = inner n xs"
  by (cases i) (simp_all add: inner_def drop_update_swap)

lemma inner_update: "1 \<le> i \<Longrightarrow> inner n (xs[i := x]) = (inner n xs)[i - 1 := x]"
  by (simp add: inner_def drop_update_swap take_update_swap)

lemma inner_one [simp]: "inner (Suc 0) xs = []"
  by (simp add: inner_def)

lemma mset_inner_update:
  assumes "1 \<le> i" and "i < n" and "n \<le> length xs"
  shows "mset (inner n (xs[i := x])) = mset (inner n xs) - {#xs ! i#} + {#x#}"
proof -
  have "mset ((inner n xs)[i - 1 := x]) = add_mset x (mset (inner n xs) - {#inner n xs ! (i - 1)#})"
    by (rule mset_update) (use assms in \<open>simp add: length_inner\<close>)
  then show ?thesis using assms by (simp add: inner_update nth_inner)
qed

text \<open>Overwriting slot \<open>k\<close> by the last one and forgetting the last one removes one element.\<close>

lemma mset_inner_drop_last:
  assumes "1 \<le> k" and "k < n" and "n \<le> length xs"
  shows "mset (inner n xs) = add_mset (xs ! k) (mset (inner (n - 1) (xs[k := xs ! (n - 1)])))"
proof -
  have n: "Suc (n - 1) = n" "1 \<le> n - 1 \<or> n = 1" "n - 1 < length xs" using assms by auto
  have split: "mset (inner n xs) = add_mset (xs ! (n - 1)) (mset (inner (n - 1) xs))"
    using inner_Suc [of "n - 1" xs] n assms by auto
  show ?thesis
  proof (cases "k = n - 1")
    case True
    then show ?thesis using split by (simp add: inner_update_beyond)
  next
    case False
    then have k: "k < n - 1" using assms by simp
    then have "xs ! k \<in># mset (inner (n - 1) xs)"
      using assms by (auto simp: set_inner)
    moreover have "mset (inner (n - 1) (xs[k := xs ! (n - 1)])) =
        add_mset (xs ! (n - 1)) (mset (inner (n - 1) xs) - {#xs ! k#})"
      using mset_inner_update [OF assms(1) k, of xs "xs ! (n - 1)"] assms(3) by auto
    ultimately show ?thesis using split by (metis add_mset_commute insert_DiffM)
  qed
qed

section \<open>Heaps of objects\<close>

text \<open>What can be found after an allocation at a free address, and after a free.\<close>

lemma ex_object_alloc:
  assumes "h a = None"
  shows "(\<exists>x t. (h(a \<mapsto> T)) x = Some t \<and> P t) \<longleftrightarrow> P T \<or> (\<exists>x t. h x = Some t \<and> P t)"
proof
  assume "\<exists>x t. (h(a \<mapsto> T)) x = Some t \<and> P t"
  then show "P T \<or> (\<exists>x t. h x = Some t \<and> P t)" by (auto split: if_splits)
next
  have "x \<noteq> a" if "h x = Some t" for x t using assms that by auto
  then show "P T \<or> (\<exists>x t. h x = Some t \<and> P t) \<Longrightarrow> \<exists>x t. (h(a \<mapsto> T)) x = Some t \<and> P t"
    by (metis fun_upd_apply)
qed

lemma ex_object_free:
  "(\<exists>x t. (h(a := None)) x = Some t \<and> P t) \<longleftrightarrow> (\<exists>x t. x \<noteq> a \<and> h x = Some t \<and> P t)"
  by auto

section \<open>Halving\<close>

lemma half_less: "0 < i \<Longrightarrow> i div 2 < (i::nat)"
  by simp

lemma half_pos: "2 \<le> i \<Longrightarrow> 1 \<le> (i::nat) div 2"
  by simp

lemma half_eq_iff: "1 \<le> i \<Longrightarrow> (j::nat) div 2 = i \<longleftrightarrow> j = 2 * i \<or> j = 2 * i + 1"
  by presburger

end
