(* ===== verification/HeapOrder.thy ===== *)
theory HeapOrder
  imports Prelude
begin

text \<open>
  Heap order on numbered keys, the abstract side of \<open>cpu/pqueue.c\<close>.  Keys sit at the positions
  \<open>1 \<dots> n - 1\<close>, the children of \<open>i\<close> at \<open>2 i\<close> and \<open>2 i + 1\<close>, and \<open>cmp a b\<close> says that \<open>b\<close>
  ranks above \<open>a\<close>.  The locale \<open>rank_order\<close> holds what is needed of \<open>cmp\<close> (a strict weak order);
  its lemmas say how one sift step moves the single place where the order may be broken.
\<close>

definition heap_on :: "('k \<Rightarrow> 'k \<Rightarrow> bool) \<Rightarrow> (nat \<Rightarrow> 'k) \<Rightarrow> nat \<Rightarrow> bool" where
  "heap_on cmp f n \<longleftrightarrow> (\<forall>i\<in>{2..<n}. \<not> cmp (f (i div 2)) (f i))"

text \<open>In order except that the key at \<open>k\<close> may rank above its ancestors.\<close>

definition up_ok :: "('k \<Rightarrow> 'k \<Rightarrow> bool) \<Rightarrow> (nat \<Rightarrow> 'k) \<Rightarrow> nat \<Rightarrow> nat \<Rightarrow> bool" where
  "up_ok cmp f n k \<longleftrightarrow>
     (\<forall>i\<in>{2..<n}. i \<noteq> k \<longrightarrow> \<not> cmp (f (i div 2)) (f i)) \<and>
     (2 \<le> k \<longrightarrow> (\<forall>i\<in>{2..<n}. i div 2 = k \<longrightarrow> \<not> cmp (f (k div 2)) (f i)))"

text \<open>In order except that the key at \<open>k\<close> may rank below its descendants.\<close>

definition down_ok :: "('k \<Rightarrow> 'k \<Rightarrow> bool) \<Rightarrow> (nat \<Rightarrow> 'k) \<Rightarrow> nat \<Rightarrow> nat \<Rightarrow> bool" where
  "down_ok cmp f n k \<longleftrightarrow>
     (\<forall>i\<in>{2..<n}. i div 2 \<noteq> k \<longrightarrow> \<not> cmp (f (i div 2)) (f i)) \<and>
     (2 \<le> k \<longrightarrow> (\<forall>i\<in>{2..<n}. i div 2 = k \<longrightarrow> \<not> cmp (f (k div 2)) (f i)))"

lemma heap_onD: "heap_on cmp f n \<Longrightarrow> 2 \<le> i \<Longrightarrow> i < n \<Longrightarrow> \<not> cmp (f (i div 2)) (f i)"
  by (simp add: heap_on_def)

lemma heap_on_small [simp]: "n \<le> 2 \<Longrightarrow> heap_on cmp f n"
  by (auto simp: heap_on_def)

lemma heap_on_mono: "heap_on cmp f n \<Longrightarrow> n' \<le> n \<Longrightarrow> heap_on cmp f n'"
  by (auto simp: heap_on_def)

lemma heap_on_cong:
  "heap_on cmp f n \<Longrightarrow> (\<And>i. 1 \<le> i \<Longrightarrow> i < n \<Longrightarrow> g i = f i) \<Longrightarrow> heap_on cmp g n"
  by (auto simp: heap_on_def)

lemma up_ok_cong:
  "up_ok cmp f n k \<Longrightarrow> k < n \<Longrightarrow> (\<And>i. 1 \<le> i \<Longrightarrow> i < n \<Longrightarrow> g i = f i) \<Longrightarrow> up_ok cmp g n k"
  by (auto simp: up_ok_def)

lemma down_ok_cong:
  "down_ok cmp f n k \<Longrightarrow> k < n \<Longrightarrow> (\<And>i. 1 \<le> i \<Longrightarrow> i < n \<Longrightarrow> g i = f i) \<Longrightarrow> down_ok cmp g n k"
  by (auto simp: down_ok_def)

locale rank_order =
  fixes cmp :: "'k \<Rightarrow> 'k \<Rightarrow> bool"
  assumes cmp_asym: "cmp a b \<Longrightarrow> \<not> cmp b a"
    and cmp_ntrans: "\<not> cmp a b \<Longrightarrow> \<not> cmp b c \<Longrightarrow> \<not> cmp a c"
begin

lemma cmp_irrefl [simp]: "\<not> cmp a a"
  using cmp_asym by blast

lemma up_step:
  assumes ok: "up_ok cmp f n k" and k: "2 \<le> k" "k < n" and c: "cmp (f (k div 2)) (f k)"
  shows "up_ok cmp (f(k := f (k div 2), k div 2 := f k)) n (k div 2)"
proof -
  let ?p = "k div 2" and ?g = "f(k := f (k div 2), k div 2 := f k)"
  have p: "?p \<noteq> k" "?p < k" "1 \<le> ?p" "?p div 2 \<noteq> ?p" "?p div 2 \<noteq> k" using k by auto
  have first: "\<not> cmp (f (i div 2)) (f i)" if "2 \<le> i" "i < n" "i \<noteq> k" for i
    using ok that by (simp add: up_ok_def)
  have second: "\<not> cmp (f ?p) (f i)" if "2 \<le> i" "i < n" "i div 2 = k" for i
    using ok that k by (simp add: up_ok_def)
  have kp: "\<not> cmp (f k) (f ?p)" using c by (rule cmp_asym)
  have sibling: "\<not> cmp (f k) (f i)" if "2 \<le> i" "i < n" "i \<noteq> k" "i div 2 = ?p" for i
    using cmp_ntrans [OF kp] first [OF that(1-3)] that(4) by simp
  have a: "\<not> cmp (?g (i div 2)) (?g i)" if i: "2 \<le> i" "i < n" "i \<noteq> ?p" for i
  proof (cases "i = k")
    case True then show ?thesis using kp p by auto
  next
    case False
    have "i div 2 < i" using i by simp
    then show ?thesis using False i first [of i] second [of i] sibling [of i] by auto
  qed
  have b: "\<not> cmp (?g (?p div 2)) (?g i)" if i: "2 \<le> ?p" "2 \<le> i" "i < n" "i div 2 = ?p" for i
  proof -
    have "\<not> cmp (f (?p div 2)) (f ?p)" using first [of ?p] i p k by simp
    then have "i \<noteq> k \<Longrightarrow> \<not> cmp (f (?p div 2)) (f i)"
      using first [of i] i cmp_ntrans [of "f (?p div 2)" "f ?p" "f i"] by simp
    then show ?thesis using p i \<open>\<not> cmp (f (?p div 2)) (f ?p)\<close> by auto
  qed
  from a b show ?thesis unfolding up_ok_def by auto
qed

lemma up_done:
  assumes "up_ok cmp f n k" and "2 \<le> k \<Longrightarrow> \<not> cmp (f (k div 2)) (f k)"
  shows "heap_on cmp f n"
  using assms unfolding up_ok_def heap_on_def by auto

lemma down_step:
  assumes ok: "down_ok cmp f n k" and k: "1 \<le> k" and c: "2 \<le> c" "c < n" "c div 2 = k"
    and kc: "cmp (f k) (f c)"
    and best: "\<And>j. 2 \<le> j \<Longrightarrow> j < n \<Longrightarrow> j div 2 = k \<Longrightarrow> \<not> cmp (f c) (f j)"
  shows "down_ok cmp (f(k := f c, c := f k)) n c"
proof -
  let ?g = "f(k := f c, c := f k)"
  have ck: "c \<noteq> k" "k < c" using c k by auto
  have first: "\<not> cmp (f (i div 2)) (f i)" if "2 \<le> i" "i < n" "i div 2 \<noteq> k" for i
    using ok that by (simp add: down_ok_def)
  have second: "\<not> cmp (f (k div 2)) (f i)" if "2 \<le> k" "2 \<le> i" "i < n" "i div 2 = k" for i
    using ok that by (simp add: down_ok_def)
  have ckk: "\<not> cmp (f c) (f k)" using kc by (rule cmp_asym)
  have a: "\<not> cmp (?g (i div 2)) (?g i)" if i: "2 \<le> i" "i < n" "i div 2 \<noteq> c" for i
  proof (cases "i div 2 = k")
    case True
    have "i \<noteq> k" using True i by auto
    then show ?thesis using True ck ckk best [of i] i by auto
  next
    case False
    show ?thesis
    proof (cases "i = k")
      case True
      then have "\<not> cmp (f (k div 2)) (f c)" using second [of c] i c by simp
      moreover have "k div 2 \<noteq> k" "k div 2 \<noteq> c" using k ck by auto
      ultimately show ?thesis using True ck by simp
    next
      case nk: False
      have "i \<noteq> c" using False c by auto
      then show ?thesis using nk False i first [of i] by auto
    qed
  qed
  have b: "\<not> cmp (?g (c div 2)) (?g i)" if i: "2 \<le> i" "i < n" "i div 2 = c" for i
  proof -
    have "i \<noteq> c" "i \<noteq> k" using i ck by auto
    then show ?thesis using first [of i] i c ck by auto
  qed
  from a b show ?thesis unfolding down_ok_def by auto
qed

lemma down_done:
  assumes "down_ok cmp f n k" and "\<And>j. 2 \<le> j \<Longrightarrow> j < n \<Longrightarrow> j div 2 = k \<Longrightarrow> \<not> cmp (f k) (f j)"
  shows "heap_on cmp f n"
  using assms unfolding down_ok_def heap_on_def by auto

text \<open>Changing one key of a heap breaks it in one direction only.\<close>

lemma change_up:
  assumes h: "heap_on cmp f n" and k: "1 \<le> k" "k < n" and v: "cmp (f k) v"
  shows "up_ok cmp (f(k := v)) n k"
proof -
  have vk: "\<not> cmp v (f k)" using v by (rule cmp_asym)
  have "\<not> cmp ((f(k := v)) (i div 2)) ((f(k := v)) i)" if "2 \<le> i" "i < n" "i \<noteq> k" for i
    using heap_onD [OF h that(1,2)] that cmp_ntrans [OF vk, of "f i"] by auto
  moreover have "\<not> cmp (f (k div 2)) (f i)"
    if "2 \<le> k" "2 \<le> i" "i < n" "i div 2 = k" for i
    using heap_onD [OF h, of k] heap_onD [OF h, of i] that k
      cmp_ntrans [of "f (k div 2)" "f k" "f i"] by simp
  ultimately show ?thesis using k unfolding up_ok_def by auto
qed

lemma change_down:
  assumes h: "heap_on cmp f n" and k: "1 \<le> k" "k < n" and v: "\<not> cmp (f k) v"
  shows "down_ok cmp (f(k := v)) n k"
proof -
  have "\<not> cmp ((f(k := v)) (i div 2)) ((f(k := v)) i)" if i: "2 \<le> i" "i < n" "i div 2 \<noteq> k" for i
    using heap_onD [OF h i(1,2)] i cmp_ntrans [OF _ v, of "f (i div 2)"] by auto
  moreover have "\<not> cmp (f (k div 2)) (f i)" if "2 \<le> k" "2 \<le> i" "i < n" "i div 2 = k" for i
    using heap_onD [OF h, of k] heap_onD [OF h, of i] that k
      cmp_ntrans [of "f (k div 2)" "f k" "f i"] by simp
  ultimately show ?thesis using k unfolding down_ok_def by auto
qed

lemma append_up:
  assumes h: "heap_on cmp f n" and "1 \<le> n"
  shows "up_ok cmp (f(n := v)) (Suc n) n"
proof -
  have "\<not> cmp ((f(n := v)) (i div 2)) ((f(n := v)) i)"
    if "i \<in> {2..<Suc n}" "i \<noteq> n" for i
    using heap_onD [OF h, of i] that by auto
  moreover have "i div 2 \<noteq> n" if "i \<in> {2..<Suc n}" for i using that by auto
  ultimately show ?thesis unfolding up_ok_def by blast
qed

text \<open>The key at the root is ranked above by no other.\<close>

lemma root_best:
  assumes h: "heap_on cmp f n" and "1 \<le> i" and "i < n"
  shows "\<not> cmp (f 1) (f i)"
  using assms(2,3)
proof (induction i rule: less_induct)
  case (less i)
  show ?case
  proof (cases "i = 1")
    case True then show ?thesis using cmp_asym by blast
  next
    case False
    then have i: "2 \<le> i" "1 \<le> i div 2" "i div 2 < i" using less.prems by auto
    have "\<not> cmp (f 1) (f (i div 2))" using less.IH [of "i div 2"] i less.prems by simp
    moreover have "\<not> cmp (f (i div 2)) (f i)" using h i less.prems by (simp add: heap_onD)
    ultimately show ?thesis by (rule cmp_ntrans)
  qed
qed

end

end
