(* ===== verification/PQueue.thy ===== *)
theory PQueue
  imports HeapOrder
begin

text \<open>
  The binary-heap priority queue of \<open>cpu/pqueue.h\<close> and \<open>cpu/pqueue.c\<close>.

  The handle \<open>pqueue_t\<close> is a record with the fields of the C struct, the five callbacks
  included.  The elements are pointers of type \<open>'e\<close> into a client memory of type \<open>'m\<close>; the
  callbacks read and write that memory and are partial, since the client's object may be gone.
  Slot 0 of the array \<open>q_d\<close> is never used.

  First come the operations, translated one by one, then the heap order of a numbered family of
  keys, then the locale \<open>pq_order\<close> (what the queue needs of \<open>cmppri\<close>, \<open>getpri\<close> and \<open>setpos\<close> to
  keep heap order and contents) and its extension \<open>pq_client\<close> (what it needs besides to keep
  the stored positions right), each with the lemmas proved in it.
\<close>

section \<open>The handle\<close>

type_synonym pqueue_pri_t = u64

record ('m, 'e) pqueue_t =
  q_size :: nat
  q_avail :: nat
  q_step :: nat
  q_cmppri :: "pqueue_pri_t \<Rightarrow> pqueue_pri_t \<Rightarrow> bool"
  q_getpri :: "'m \<Rightarrow> 'e \<Rightarrow> pqueue_pri_t option"
  q_setpri :: "'m \<Rightarrow> 'e \<Rightarrow> pqueue_pri_t \<Rightarrow> 'm option"
  q_getpos :: "'m \<Rightarrow> 'e \<Rightarrow> nat option"
  q_setpos :: "'m \<Rightarrow> 'e \<Rightarrow> nat \<Rightarrow> 'm option"
  q_d :: "'e ptr_array"

text \<open>The index macros, on \<open>size_t\<close>.\<close>

definition left :: "nat \<Rightarrow> nat" where
  "left i = (2 * i) mod size_modulus"

definition right :: "nat \<Rightarrow> nat" where
  "right i = (left i + 1) mod size_modulus"

definition parent :: "nat \<Rightarrow> nat" where
  "parent i = i div 2"

section \<open>Operations\<close>

text \<open>
  The allocator is an argument: \<open>alloc n\<close> tells whether \<open>malloc\<close> or \<open>realloc\<close> of \<open>n\<close> bytes
  succeeds.  A block of \<open>n\<close> bytes holds \<open>n div 8\<close> pointers.  The result \<open>None\<close> is NULL.
\<close>

definition sizeof_pqueue :: nat where
  "sizeof_pqueue = 72"

definition pqueue_init :: "(nat \<Rightarrow> bool) \<Rightarrow> nat \<Rightarrow>
    (pqueue_pri_t \<Rightarrow> pqueue_pri_t \<Rightarrow> bool) \<Rightarrow> ('m \<Rightarrow> 'e \<Rightarrow> pqueue_pri_t option) \<Rightarrow>
    ('m \<Rightarrow> 'e \<Rightarrow> pqueue_pri_t \<Rightarrow> 'm option) \<Rightarrow> ('m \<Rightarrow> 'e \<Rightarrow> nat option) \<Rightarrow>
    ('m \<Rightarrow> 'e \<Rightarrow> nat \<Rightarrow> 'm option) \<Rightarrow> ('m, 'e) pqueue_t option" where
  "pqueue_init alloc n cmppri getpri setpri getpos setpos =
     (if \<not> alloc sizeof_pqueue then None
      else
        let n1 = (n + 1) mod size_modulus; bytes = (n1 * 8) mod size_modulus
        in if \<not> alloc bytes then None
           else Some \<lparr>q_size = 1, q_avail = n1, q_step = n1,
                  q_cmppri = cmppri, q_getpri = getpri, q_setpri = setpri,
                  q_getpos = getpos, q_setpos = setpos,
                  q_d = replicate (bytes div 8) None\<rparr>)"

definition pqueue_size :: "('m, 'e) pqueue_t \<Rightarrow> nat" where
  "pqueue_size q = (q_size q + size_modulus - 1) mod size_modulus"

text \<open>Freeing a null handle dereferences it; otherwise the handle is gone.\<close>

definition pqueue_free :: "('m, 'e) pqueue_t option \<Rightarrow> ('m, 'e) pqueue_t option option" where
  "pqueue_free h = (case h of None \<Rightarrow> None | Some q \<Rightarrow> Some None)"

text \<open>The \<open>for\<close> loop of \<open>bubble_up\<close>: it returns the array, the memory and the final \<open>i\<close>.\<close>

function bubble_up_loop :: "('m, 'e) pqueue_t \<Rightarrow> 'm \<Rightarrow> pqueue_pri_t \<Rightarrow> nat \<Rightarrow>
    (('m, 'e) pqueue_t \<times> 'm \<times> nat) option" where
  "bubble_up_loop q m moving_pri i =
     (if i > 1 then do {
        pe \<leftarrow> arr_get (q_d q) (parent i);
        pp \<leftarrow> q_getpri q m pe;
        if q_cmppri q pp moving_pri then do {
          d' \<leftarrow> arr_set (q_d q) i pe;
          m' \<leftarrow> q_setpos q m pe i;
          bubble_up_loop (q\<lparr>q_d := d'\<rparr>) m' moving_pri (parent i)
        } else Some (q, m, i)
      } else Some (q, m, i))"
  by pat_completeness auto
termination
  by (relation "measure (\<lambda>(q, m, p, i). i)") (auto simp: parent_def)

definition bubble_up :: "('m, 'e) pqueue_t \<Rightarrow> 'm \<Rightarrow> nat \<Rightarrow> (('m, 'e) pqueue_t \<times> 'm) option" where
  "bubble_up q m i = do {
     moving_node \<leftarrow> arr_get (q_d q) i;
     moving_pri \<leftarrow> q_getpri q m moving_node;
     (q1, m1, i1) \<leftarrow> bubble_up_loop q m moving_pri i;
     d' \<leftarrow> arr_set (q_d q1) i1 moving_node;
     m2 \<leftarrow> q_setpos q1 m1 moving_node i1;
     Some (q1\<lparr>q_d := d'\<rparr>, m2)
   }"

definition maxchild :: "('m, 'e) pqueue_t \<Rightarrow> 'm \<Rightarrow> nat \<Rightarrow> nat option" where
  "maxchild q m i =
     (let child_node = left i; next_node = (child_node + 1) mod size_modulus in
      if child_node \<ge> q_size q then Some 0
      else if next_node < q_size q then do {
        a \<leftarrow> arr_get (q_d q) child_node;
        pa \<leftarrow> q_getpri q m a;
        b \<leftarrow> arr_get (q_d q) next_node;
        pb \<leftarrow> q_getpri q m b;
        Some (if q_cmppri q pa pb then next_node else child_node)
      } else Some child_node)"

lemma maxchild_Some_range:
  assumes "maxchild q m i = Some c" and "c \<noteq> 0" and "i < max_slots"
  shows "i < c \<and> c < q_size q \<and> (c = 2 * i \<or> c = 2 * i + 1)"
proof -
  have i: "2 * i + 1 < size_modulus" using assms(3) by (simp add: max_slots_def size_modulus_def)
  then have l: "left i = 2 * i" "(2 * i + 1) mod size_modulus = 2 * i + 1"
    by (simp_all add: left_def)
  show ?thesis using assms(1,2) unfolding maxchild_def l Let_def
    by (auto simp: result_simps l split: if_splits)
qed

function percolate_down_loop :: "('m, 'e) pqueue_t \<Rightarrow> 'm \<Rightarrow> pqueue_pri_t \<Rightarrow> nat \<Rightarrow>
    (('m, 'e) pqueue_t \<times> 'm \<times> nat) option" where
  "percolate_down_loop q m moving_pri i = do {
     child_node \<leftarrow> maxchild q m i;
     if child_node \<noteq> 0 then do {
       ce \<leftarrow> arr_get (q_d q) child_node;
       cp \<leftarrow> q_getpri q m ce;
       if q_cmppri q moving_pri cp then do {
         d' \<leftarrow> arr_set (q_d q) i ce;
         m' \<leftarrow> q_setpos q m ce i;
         percolate_down_loop (q\<lparr>q_d := d'\<rparr>) m' moving_pri child_node
       } else Some (q, m, i)
     } else Some (q, m, i)
   }"
  by pat_completeness auto
termination
  by (relation "measure (\<lambda>(q, m, p, i). q_size q - i)")
    (auto simp: arr_simps dest!: maxchild_Some_range)

definition percolate_down :: "('m, 'e) pqueue_t \<Rightarrow> 'm \<Rightarrow> nat \<Rightarrow>
    (('m, 'e) pqueue_t \<times> 'm) option" where
  "percolate_down q m i = do {
     moving_node \<leftarrow> arr_get (q_d q) i;
     moving_pri \<leftarrow> q_getpri q m moving_node;
     (q1, m1, i1) \<leftarrow> percolate_down_loop q m moving_pri i;
     d' \<leftarrow> arr_set (q_d q1) i1 moving_node;
     m2 \<leftarrow> q_setpos q1 m1 moving_node i1;
     Some (q1\<lparr>q_d := d'\<rparr>, m2)
   }"

declare bubble_up_loop.simps [simp del] percolate_down_loop.simps [simp del]

text \<open>
  The operations that test their handle for NULL take it as an option.  An insert, a pop and a
  peek return the C result, the handle and the memory; 0 and 1 are the C return codes.
\<close>

definition pqueue_grow :: "(nat \<Rightarrow> bool) \<Rightarrow> ('m, 'e) pqueue_t \<Rightarrow> ('m, 'e) pqueue_t option" where
  "pqueue_grow realloc q =
     (if q_size q \<ge> q_avail q then
        let newsize = (q_size q + q_step q) mod size_modulus;
            bytes = (8 * newsize) mod size_modulus
        in if \<not> realloc bytes then None
           else Some (q\<lparr>q_d := arr_resize (bytes div 8) (q_d q), q_avail := newsize\<rparr>)
      else Some q)"

definition pqueue_insert :: "(nat \<Rightarrow> bool) \<Rightarrow> ('m, 'e) pqueue_t option \<Rightarrow> 'm \<Rightarrow> 'e \<Rightarrow>
    (nat \<times> ('m, 'e) pqueue_t option \<times> 'm) option" where
  "pqueue_insert realloc h m e =
     (case h of
        None \<Rightarrow> Some (1, None, m)
      | Some q \<Rightarrow>
          (case pqueue_grow realloc q of
             None \<Rightarrow> Some (1, Some q, m)
           | Some q1 \<Rightarrow> do {
               let i = q_size q1;
               d' \<leftarrow> arr_set (q_d q1) i e;
               (q2, m2) \<leftarrow> bubble_up (q1\<lparr>q_size := (i + 1) mod size_modulus, q_d := d'\<rparr>) m i;
               Some (0, Some q2, m2)
             }))"

definition pqueue_change_priority :: "('m, 'e) pqueue_t \<Rightarrow> 'm \<Rightarrow> pqueue_pri_t \<Rightarrow> 'e \<Rightarrow>
    (('m, 'e) pqueue_t \<times> 'm) option" where
  "pqueue_change_priority q m new_pri e = do {
     old_pri \<leftarrow> q_getpri q m e;
     m1 \<leftarrow> q_setpri q m e new_pri;
     posn \<leftarrow> q_getpos q m1 e;
     if q_cmppri q old_pri new_pri then bubble_up q m1 posn else percolate_down q m1 posn
   }"

definition pqueue_remove :: "('m, 'e) pqueue_t \<Rightarrow> 'm \<Rightarrow> 'e \<Rightarrow>
    (nat \<times> ('m, 'e) pqueue_t \<times> 'm) option" where
  "pqueue_remove q m e = do {
     posn \<leftarrow> q_getpos q m e;
     let n' = (q_size q + size_modulus - 1) mod size_modulus;
     l \<leftarrow> arr_get (q_d q) n';
     d' \<leftarrow> arr_set (q_d q) posn l;
     let q1 = q\<lparr>q_size := n', q_d := d'\<rparr>;
     pe \<leftarrow> q_getpri q m e;
     pl \<leftarrow> q_getpri q m l;
     (q2, m2) \<leftarrow> (if q_cmppri q pe pl then bubble_up q1 m posn else percolate_down q1 m posn);
     Some (0, q2, m2)
   }"

definition pqueue_pop :: "('m, 'e) pqueue_t option \<Rightarrow> 'm \<Rightarrow>
    ('e option \<times> ('m, 'e) pqueue_t option \<times> 'm) option" where
  "pqueue_pop h m =
     (case h of
        None \<Rightarrow> Some (None, None, m)
      | Some q \<Rightarrow>
          if q_size q = 1 then Some (None, Some q, m)
          else do {
            head \<leftarrow> arr_get (q_d q) 1;
            let n' = (q_size q + size_modulus - 1) mod size_modulus;
            l \<leftarrow> arr_get (q_d q) n';
            d' \<leftarrow> arr_set (q_d q) 1 l;
            (q2, m2) \<leftarrow> percolate_down (q\<lparr>q_size := n', q_d := d'\<rparr>) m 1;
            Some (Some head, Some q2, m2)
          })"

definition pqueue_peek :: "('m, 'e) pqueue_t option \<Rightarrow> 'e option option" where
  "pqueue_peek h =
     (case h of
        None \<Rightarrow> Some None
      | Some q \<Rightarrow> if q_size q = 1 then Some None else map_option Some (arr_get (q_d q) 1))"

section \<open>Debug operations\<close>

text \<open>
  \<open>pqueue_dump\<close>: what the loop prints, one row per slot.  The counter is an \<open>int\<close>, so the
  shift of the macros is an \<open>int\<close> shift, undefined from \<open>2 ^ 30\<close> on.
\<close>

definition int_max1 :: nat where
  "int_max1 = 2 ^ 31"

function pqueue_dump_from :: "('m, 'e) pqueue_t \<Rightarrow> 'm \<Rightarrow> nat \<Rightarrow>
    (nat \<times> nat \<times> nat \<times> nat \<times> nat \<times> 'e) list option" where
  "pqueue_dump_from q m i =
     (if i < q_size q then
        if 2 * i + 1 \<ge> int_max1 then None
        else do {
          c \<leftarrow> maxchild q m i;
          e \<leftarrow> arr_get (q_d q) i;
          rows \<leftarrow> pqueue_dump_from q m (i + 1);
          Some ((i, 2 * i, 2 * i + 1, parent i, c mod 2 ^ 32, e) # rows)
        }
      else Some [])"
  by pat_completeness auto
termination
  by (relation "measure (\<lambda>(q, m, i). q_size q - i)") auto

definition pqueue_dump :: "('m, 'e) pqueue_t \<Rightarrow> 'm \<Rightarrow>
    (nat \<times> nat \<times> nat \<times> nat \<times> nat \<times> 'e) list option" where
  "pqueue_dump q m = pqueue_dump_from q m 1"

text \<open>The file's own do-nothing callbacks.\<close>

definition nop_set_pos :: "'m \<Rightarrow> 'e \<Rightarrow> nat \<Rightarrow> 'm option" where
  "nop_set_pos m e val = Some m"

definition nop_set_pri :: "'m \<Rightarrow> 'e \<Rightarrow> pqueue_pri_t \<Rightarrow> 'm option" where
  "nop_set_pri m e pri = Some m"

text \<open>
  The \<open>while\<close> loop of \<open>pqueue_print\<close>: it pops until the pop returns NULL and collects what it
  passes to \<open>print\<close>.  \<open>None\<close> also stands for a loop that never ends.
\<close>

partial_function (option) pop_all :: "('m, 'e) pqueue_t option \<Rightarrow> 'm \<Rightarrow> 'e list option" where
  "pop_all h m = do {
     (e, h', m') \<leftarrow> pqueue_pop h m;
     case e of None \<Rightarrow> Some []
     | Some x \<Rightarrow> do { xs \<leftarrow> pop_all h' m'; Some (x # xs) }
   }"

definition pqueue_print :: "(nat \<Rightarrow> bool) \<Rightarrow> ('m, 'e) pqueue_t \<Rightarrow> 'm \<Rightarrow> 'e list option" where
  "pqueue_print alloc q m =
     (case pqueue_init alloc (q_size q) (q_cmppri q) (q_getpri q) nop_set_pri
             (q_getpos q) nop_set_pos of
        None \<Rightarrow> None
      | Some dup0 \<Rightarrow>
          let dup = dup0\<lparr>q_size := q_size q, q_avail := q_avail q, q_step := q_step q\<rparr> in
          if q_size q \<le> length (q_d dup) \<and> q_size q \<le> length (q_d q) then
            pop_all (Some (dup\<lparr>q_d := take (q_size q) (q_d q) @ drop (q_size q) (q_d dup)\<rparr>)) m
          else None)"

text \<open>
  \<open>subtree_is_valid\<close>: \<open>pos\<close> is an \<open>int\<close>, shifted as an \<open>int\<close>; \<open>None\<close> is an overflowing
  shift, a bad access or a recursion that does not end.
\<close>

partial_function (option) subtree_is_valid ::
    "('m, 'e) pqueue_t \<Rightarrow> 'm \<Rightarrow> nat \<Rightarrow> bool option" where
  "subtree_is_valid q m pos =
     (if 2 * pos + 1 \<ge> int_max1 then None
      else do {
        l \<leftarrow> (if 2 * pos < q_size q then do {
                 e \<leftarrow> arr_get (q_d q) pos; pe \<leftarrow> q_getpri q m e;
                 c \<leftarrow> arr_get (q_d q) (2 * pos); pc \<leftarrow> q_getpri q m c;
                 if q_cmppri q pe pc then Some False else subtree_is_valid q m (2 * pos)
               } else Some True);
        if \<not> l then Some False
        else if 2 * pos + 1 < q_size q then do {
          e \<leftarrow> arr_get (q_d q) pos; pe \<leftarrow> q_getpri q m e;
          c \<leftarrow> arr_get (q_d q) (2 * pos + 1); pc \<leftarrow> q_getpri q m c;
          if q_cmppri q pe pc then Some False else subtree_is_valid q m (2 * pos + 1)
        } else Some True
      })"

definition pqueue_is_valid :: "('m, 'e) pqueue_t \<Rightarrow> 'm \<Rightarrow> bool option" where
  "pqueue_is_valid q m = subtree_is_valid q m 1"


section \<open>Well-formed queues\<close>

definition pkey :: "('m \<Rightarrow> 'e \<Rightarrow> pqueue_pri_t option) \<Rightarrow> 'm \<Rightarrow> 'e ptr_array \<Rightarrow> nat \<Rightarrow> pqueue_pri_t" where
  "pkey getpri m V j = the (getpri m (the (V ! j)))"

definition arr_live :: "('m \<Rightarrow> 'e \<Rightarrow> bool) \<Rightarrow> nat \<Rightarrow> 'e ptr_array \<Rightarrow> 'm \<Rightarrow> bool" where
  "arr_live live n V m \<longleftrightarrow>
     1 \<le> n \<and> n \<le> length V \<and> length V \<le> max_slots \<and>
     (\<forall>i\<in>{1..<n}. case V ! i of None \<Rightarrow> False | Some e \<Rightarrow> live m e)"

text \<open>The elements a queue holds, in array order.\<close>

definition elems :: "('m, 'e) pqueue_t \<Rightarrow> 'e list" where
  "elems q = map the (inner (q_size q) (q_d q))"

definition slots_ok :: "('m \<Rightarrow> 'e \<Rightarrow> bool) \<Rightarrow> ('m, 'e) pqueue_t \<Rightarrow> 'm \<Rightarrow> bool" where
  "slots_ok live q m \<longleftrightarrow> arr_live live (q_size q) (q_d q) m"

text \<open>What the capacity fields promise; \<open>pqueue_print\<close>'s copy breaks it.\<close>

definition capacity_ok :: "('m, 'e) pqueue_t \<Rightarrow> bool" where
  "capacity_ok q \<longleftrightarrow> 1 \<le> q_size q \<and> q_size q \<le> q_avail q \<and> q_avail q = length (q_d q) \<and> 1 \<le> q_step q"

definition heap_ordered :: "('m, 'e) pqueue_t \<Rightarrow> 'm \<Rightarrow> bool" where
  "heap_ordered q m \<longleftrightarrow> heap_on (q_cmppri q) (pkey (q_getpri q) m (q_d q)) (q_size q)"

definition positions_ok :: "('m, 'e) pqueue_t \<Rightarrow> 'm \<Rightarrow> bool" where
  "positions_ok q m \<longleftrightarrow>
     distinct (elems q) \<and> (\<forall>i\<in>{1..<q_size q}. q_getpos q m (the (q_d q ! i)) = Some i)"

definition pq_inv :: "('m \<Rightarrow> 'e \<Rightarrow> bool) \<Rightarrow> ('m, 'e) pqueue_t \<Rightarrow> 'm \<Rightarrow> bool" where
  "pq_inv live q m \<longleftrightarrow> slots_ok live q m \<and> capacity_ok q \<and> heap_ordered q m"

definition client_inv :: "nat \<Rightarrow> ('m \<Rightarrow> 'e \<Rightarrow> bool) \<Rightarrow> ('m, 'e) pqueue_t \<Rightarrow> 'm \<Rightarrow> bool" where
  "client_inv lim live q m \<longleftrightarrow> pq_inv live q m \<and> positions_ok q m \<and> q_size q \<le> lim"

lemma mset_elems: "mset (elems q) = image_mset the (mset (inner (q_size q) (q_d q)))"
  by (simp add: elems_def)

lemma arr_liveD:
  assumes "arr_live live n V m" and "1 \<le> i" and "i < n"
  obtains e where "V ! i = Some e" and "live m e" and "arr_get V i = Some e"
    and "i < length V" and "i < max_slots"
  using assms that unfolding arr_live_def
  by (fastforce simp: arr_get_def split: option.splits)

lemma arr_live_length: "arr_live live n V m \<Longrightarrow> 1 \<le> n \<and> n \<le> length V \<and> length V \<le> max_slots"
  by (simp add: arr_live_def)

lemma arr_live_update:
  assumes "arr_live live n V m" and "live m e" and "\<And>x. live m x \<Longrightarrow> live m' x"
  shows "arr_live live n (V[i := Some e]) m'"
proof -
  have "case (V[i := Some e]) ! j of None \<Rightarrow> False | Some x \<Rightarrow> live m' x" if "j \<in> {1..<n}" for j
    using assms that unfolding arr_live_def
    by (cases "j = i") (auto simp: nth_list_update split: option.splits)
  then show ?thesis using assms(1) by (simp add: arr_live_def)
qed

lemma left_right_small:
  "i < max_slots \<Longrightarrow> left i = 2 * i \<and> right i = 2 * i + 1 \<and> (2 * i + 1) mod size_modulus = 2 * i + 1"
  by (simp add: left_def right_def max_slots_def size_modulus_def)

lemma size_small: "n \<le> max_slots \<Longrightarrow> n < size_modulus \<and> (n + 1) mod size_modulus = n + 1"
  by (simp add: max_slots_def size_modulus_def)

lemma size_pred: "1 \<le> n \<Longrightarrow> n \<le> max_slots \<Longrightarrow> (n + size_modulus - 1) mod size_modulus = n - 1"
proof -
  assume n: "1 \<le> n" "n \<le> max_slots"
  then have "n + size_modulus - 1 = (n - 1) + size_modulus" by simp
  moreover have "n - 1 < size_modulus" using n by (simp add: max_slots_def size_modulus_def)
  ultimately show ?thesis by (metis mod_add_self2 mod_less)
qed

section \<open>Moving the hole\<close>

text \<open>
  Both loops copy the element at \<open>j\<close> into the hole at \<open>i\<close>; the hole, where the moving element
  belongs for now, is then at \<open>j\<close>.  Filling the hole in before and after, this is a swap.
\<close>

lemma hole_move:
  assumes "i < length d" and "j < length d" and "i \<noteq> j" and "d ! j = Some e"
  shows "mset ((d[i := Some e])[j := Some mv]) = mset (d[i := Some mv])"
    and "pkey g m ((d[i := Some e])[j := Some mv]) =
         (pkey g m (d[i := Some mv]))(i := pkey g m (d[i := Some mv]) j, j := pkey g m (d[i := Some mv]) i)"
proof -
  let ?V = "d[i := Some mv]"
  have eq: "(d[i := Some e])[j := Some mv] = ?V[j := ?V ! i, i := ?V ! j]"
    using assms by (simp add: list_update_swap)
  show "mset ((d[i := Some e])[j := Some mv]) = mset ?V"
    unfolding eq by (rule mset_swap) (use assms in simp_all)
  show "pkey g m ((d[i := Some e])[j := Some mv]) =
         (pkey g m ?V)(i := pkey g m ?V j, j := pkey g m ?V i)"
    using assms by (auto simp: pkey_def fun_eq_iff nth_list_update)
qed

section \<open>Heap order and contents\<close>

text \<open>
  \<open>obs\<close> is whatever else the client keeps in an element: storing a position must not touch it.
\<close>

locale pq_order = rank_order cmppri
  for cmppri :: "pqueue_pri_t \<Rightarrow> pqueue_pri_t \<Rightarrow> bool" +
  fixes getpri :: "'m \<Rightarrow> 'e \<Rightarrow> pqueue_pri_t option"
    and setpos :: "'m \<Rightarrow> 'e \<Rightarrow> nat \<Rightarrow> 'm option"
    and live :: "'m \<Rightarrow> 'e \<Rightarrow> bool"
    and obs :: "'m \<Rightarrow> 'e \<Rightarrow> 'o"
  assumes getpri_live: "live m e \<Longrightarrow> \<exists>p. getpri m e = Some p"
    and setpos_live: "live m e \<Longrightarrow> \<exists>m'. setpos m e i = Some m'"
    and getpri_setpos: "setpos m e i = Some m' \<Longrightarrow> getpri m' x = getpri m x"
    and live_setpos: "setpos m e i = Some m' \<Longrightarrow> live m' x = live m x"
    and obs_setpos: "setpos m e i = Some m' \<Longrightarrow> obs m' x = obs m x"
begin

definition uses :: "('m, 'e) pqueue_t \<Rightarrow> bool" where
  "uses q \<longleftrightarrow> q_cmppri q = cmppri \<and> q_getpri q = getpri \<and> q_setpos q = setpos"

definition frame :: "'m \<Rightarrow> 'm \<Rightarrow> bool" where
  "frame m m' \<longleftrightarrow> (\<forall>x. getpri m' x = getpri m x \<and> live m' x = live m x \<and> obs m' x = obs m x)"

text \<open>What a sift of the array \<open>V\<close> with \<open>n - 1\<close> elements leaves.\<close>

definition sifted :: "nat \<Rightarrow> 'e ptr_array \<Rightarrow> 'm \<Rightarrow> 'e ptr_array \<Rightarrow> 'm \<Rightarrow> bool" where
  "sifted n V m V' m' \<longleftrightarrow> frame m m' \<and> length V' = length V \<and> mset V' = mset V \<and>
     (\<forall>j. j < 1 \<or> n \<le> j \<longrightarrow> V' ! j = V ! j) \<and> arr_live live n V' m' \<and>
     heap_on cmppri (pkey getpri m' V') n"

lemma uses_update [simp]: "uses (q\<lparr>q_d := d'\<rparr>) = uses q" "uses (q\<lparr>q_size := n\<rparr>) = uses q"
  "uses (q\<lparr>q_avail := n\<rparr>) = uses q"
  by (simp_all add: uses_def)

lemma frame_refl [simp]: "frame m m"
  by (simp add: frame_def)

lemma frame_trans: "frame m m1 \<Longrightarrow> frame m1 m2 \<Longrightarrow> frame m m2"
  by (simp add: frame_def)

lemma frame_setpos: "setpos m e i = Some m' \<Longrightarrow> frame m m'"
  using getpri_setpos live_setpos obs_setpos by (auto simp: frame_def)

lemma frame_live: "frame m m' \<Longrightarrow> live m x \<Longrightarrow> live m' x"
  by (simp add: frame_def)

lemma frame_pkey: "frame m m' \<Longrightarrow> pkey getpri m' V = pkey getpri m V"
  by (simp add: frame_def pkey_def fun_eq_iff)

lemma sifted_mset: "sifted n V m V' m' \<Longrightarrow> 1 \<le> n \<Longrightarrow> n \<le> length V \<Longrightarrow> mset (inner n V') = mset (inner n V)"
  by (rule inner_mset_cong) (auto simp: sifted_def)

lemma sifted_from:
  assumes "frame m m1" and "mset V1 = mset V" and "\<forall>j. j < 1 \<or> n \<le> j \<longrightarrow> V1 ! j = V ! j"
    and "sifted n V1 m1 V' m'"
  shows "sifted n V m V' m'"
proof -
  have "length V1 = length V" using assms(2) by (metis size_mset)
  then show ?thesis using assms frame_trans unfolding sifted_def by auto
qed

lemma hole_live:
  assumes "arr_live live n (d[i := Some mv]) m" and "live m pe" and "live m mv" and "frame m m1"
  shows "arr_live live n ((d[i := Some pe])[j := Some mv]) m1"
proof -
  have "arr_live live n (d[i := Some mv, i := Some pe]) m"
    using assms(1,2) by (rule arr_live_update) simp
  then have "arr_live live n (d[i := Some pe]) m" by simp
  then show ?thesis
    by (rule arr_live_update) (use assms(3) frame_live [OF assms(4)] in simp_all)
qed

lemma getpri_slot:
  assumes "arr_live live n V m" and "1 \<le> j" and "j < n"
  obtains e where "arr_get V j = Some e" and "V ! j = Some e" and "live m e"
    and "getpri m e = Some (pkey getpri m V j)"
  using arr_liveD [OF assms] getpri_live that by (metis option.sel pkey_def)

text \<open>
  The loop of \<open>bubble_up\<close>, seen through the array with the moving element put into the hole:
  the loop ends, and where it ends the filled array is a heap with the same elements.
\<close>

lemma bubble_up_loop_spec:
  assumes "uses q" and "q_size q = n" and "1 \<le> i" and "i < n"
    and "arr_live live n ((q_d q)[i := Some mv]) m" and "getpri m mv = Some mp" and "live m mv"
    and "up_ok cmppri (pkey getpri m ((q_d q)[i := Some mv])) n i"
  shows "\<exists>d' m' i'. bubble_up_loop q m mp i = Some (q\<lparr>q_d := d'\<rparr>, m', i') \<and> 1 \<le> i' \<and> i' < n \<and>
    length d' = length (q_d q) \<and> sifted n ((q_d q)[i := Some mv]) m (d'[i' := Some mv]) m'"
  using assms
proof (induction i arbitrary: q m rule: less_induct)
  case (less i)
  let ?d = "q_d q" and ?p = "i div 2"
  let ?V = "?d[i := Some mv]"
  note live = less.prems(5)
  have len: "i < length ?d" "i < max_slots" "n \<le> length ?d"
    using arr_live_length [OF live] less.prems(4) by auto
  have q: "q_cmppri q = cmppri" "q_getpri q = getpri" "q_setpos q = setpos"
    using less.prems(1) by (simp_all add: uses_def)
  have keyi: "pkey getpri m ?V i = mp" using len less.prems(6) by (simp add: pkey_def)
  have stop: "bubble_up_loop q m mp i = Some (q, m, i) \<Longrightarrow>
      heap_on cmppri (pkey getpri m ?V) n \<Longrightarrow> ?case"
    using less.prems by (intro exI [of _ ?d] exI [of _ m] exI [of _ i]) (simp add: sifted_def)
  show ?case
  proof (cases "2 \<le> i")
    case False
    then have "bubble_up_loop q m mp i = Some (q, m, i)" by (subst bubble_up_loop.simps) simp
    moreover have "heap_on cmppri (pkey getpri m ?V) n"
      using False less.prems(8) by (intro up_done) auto
    ultimately show ?thesis by (rule stop)
  next
    case True
    then have p: "1 \<le> ?p" "?p < i" "?p \<noteq> i" "?p < n" using less.prems(4) by auto
    obtain pe where pe: "arr_get ?V ?p = Some pe" "?V ! ?p = Some pe" "live m pe"
      "getpri m pe = Some (pkey getpri m ?V ?p)"
      using getpri_slot [OF live p(1,4)] by blast
    have dp: "arr_get ?d (parent i) = Some pe" "?d ! ?p = Some pe"
      using pe p by (auto simp: arr_get_def parent_def split: if_splits)
    show ?thesis
    proof (cases "cmppri (pkey getpri m ?V ?p) mp")
      case False
      then have "bubble_up_loop q m mp i = Some (q, m, i)"
        using True dp pe q by (subst bubble_up_loop.simps) simp
      moreover have "heap_on cmppri (pkey getpri m ?V) n"
        using False less.prems(8) keyi by (intro up_done) auto
      ultimately show ?thesis by (rule stop)
    next
      case c: True
      obtain m1 where m1: "setpos m pe i = Some m1" using setpos_live pe(3) by blast
      have fr: "frame m m1" using m1 by (rule frame_setpos)
      let ?q1 = "q\<lparr>q_d := ?d[i := Some pe]\<rparr>"
      let ?V1 = "(q_d ?q1)[?p := Some mv]"
      have move: "mset ?V1 = mset ?V" "pkey getpri m1 ?V1 =
          (pkey getpri m ?V)(i := pkey getpri m ?V ?p, ?p := pkey getpri m ?V i)"
        using hole_move [OF len(1) _ p(3) [symmetric] dp(2)] p len frame_pkey [OF fr] by simp_all
      have up1: "up_ok cmppri (pkey getpri m1 ?V1) n ?p"
        unfolding move(2) by (rule up_step) (use less.prems(4,8) True c keyi in simp_all)
      have live1: "arr_live live n ?V1 m1"
        using hole_live [OF live pe(3) less.prems(7) fr] by simp
      have eq: "bubble_up_loop q m mp i = bubble_up_loop ?q1 m1 mp ?p"
        using True dp pe q c m1 len
        by (subst bubble_up_loop.simps) (simp add: arr_set_def parent_def)
      have outer: "\<forall>j. j < 1 \<or> n \<le> j \<longrightarrow> ?V1 ! j = ?V ! j"
        using p less.prems(3,4) by (auto simp: nth_list_update)
      have "\<exists>d' m' i'. bubble_up_loop ?q1 m1 mp ?p = Some (?q1\<lparr>q_d := d'\<rparr>, m', i') \<and> 1 \<le> i' \<and>
          i' < n \<and> length d' = length (q_d ?q1) \<and> sifted n ?V1 m1 (d'[i' := Some mv]) m'"
        by (rule less.IH) (use less.prems live1 up1 p fr in \<open>simp_all add: frame_def\<close>)
      then show ?thesis unfolding eq using sifted_from [OF fr move(1) outer] by (simp, blast)
    qed
  qed
qed

text \<open>Filling the hole for good.\<close>

lemma fill_hole:
  assumes "sifted n V m (d'[i' := Some mv]) m1" and "live m mv" and "1 \<le> i'" and "i' < n"
    and "length d' = length V"
  shows "\<exists>m2. arr_set d' i' mv = Some (d'[i' := Some mv]) \<and> setpos m1 mv i' = Some m2 \<and>
    sifted n V m (d'[i' := Some mv]) m2"
proof -
  have s: "frame m m1" "arr_live live n (d'[i' := Some mv]) m1" using assms(1) by (simp_all add: sifted_def)
  have len: "i' < length d'" "i' < max_slots" using arr_live_length [OF s(2)] assms(4,5) by auto
  obtain m2 where m2: "setpos m1 mv i' = Some m2" using setpos_live frame_live [OF s(1) assms(2)] by blast
  have fr: "frame m1 m2" using m2 by (rule frame_setpos)
  have "arr_live live n (d'[i' := Some mv]) m2"
    using arr_live_update [OF s(2), of mv m2 i'] frame_live [OF fr] frame_live [OF s(1) assms(2)]
    by simp
  then have "sifted n V m (d'[i' := Some mv]) m2"
    using assms(1) frame_trans [OF s(1) fr] frame_pkey [OF fr] by (simp add: sifted_def)
  then show ?thesis using len m2 by (simp add: arr_set_def)
qed

lemma bubble_up_run:
  assumes "uses q" and "arr_live live (q_size q) (q_d q) m" and "1 \<le> i" and "i < q_size q"
    and "up_ok cmppri (pkey getpri m (q_d q)) (q_size q) i"
  shows "\<exists>mv mp d' m1 i' m2. q_d q ! i = Some mv \<and>
    bubble_up_loop q m mp i = Some (q\<lparr>q_d := d'\<rparr>, m1, i') \<and> setpos m1 mv i' = Some m2 \<and>
    bubble_up q m i = Some (q\<lparr>q_d := d'[i' := Some mv]\<rparr>, m2) \<and>
    sifted (q_size q) (q_d q) m (d'[i' := Some mv]) m2"
proof -
  obtain mv where mv: "arr_get (q_d q) i = Some mv" "q_d q ! i = Some mv" "live m mv"
    "getpri m mv = Some (pkey getpri m (q_d q) i)"
    using getpri_slot [OF assms(2-4)] by blast
  have V: "(q_d q)[i := Some mv] = q_d q" using mv(2) by (metis list_update_id)
  obtain d' m1 i' where l: "bubble_up_loop q m (pkey getpri m (q_d q) i) i = Some (q\<lparr>q_d := d'\<rparr>, m1, i')"
    "1 \<le> i'" "i' < q_size q" "length d' = length (q_d q)"
    "sifted (q_size q) (q_d q) m (d'[i' := Some mv]) m1"
    using bubble_up_loop_spec [OF assms(1) refl assms(3,4), of mv m] mv assms(2,5) by (auto simp: V)
  obtain m2 where m2: "arr_set d' i' mv = Some (d'[i' := Some mv])" "setpos m1 mv i' = Some m2"
    "sifted (q_size q) (q_d q) m (d'[i' := Some mv]) m2"
    using fill_hole [OF l(5) mv(3) l(2-4)] by blast
  have "bubble_up q m i = Some (q\<lparr>q_d := d'[i' := Some mv]\<rparr>, m2)"
    using mv l(1) m2 assms(1) by (simp add: bubble_up_def uses_def)
  then show ?thesis using mv(2) l(1) m2 by blast
qed

lemma bubble_up_spec:
  assumes "uses q" and "arr_live live (q_size q) (q_d q) m" and "1 \<le> i" and "i < q_size q"
    and "up_ok cmppri (pkey getpri m (q_d q)) (q_size q) i"
  shows "\<exists>d' m'. bubble_up q m i = Some (q\<lparr>q_d := d'\<rparr>, m') \<and> sifted (q_size q) (q_d q) m d' m'"
  using bubble_up_run [OF assms] by blast

text \<open>\<open>maxchild\<close> finds the child no other child ranks above, or 0 where there is none.\<close>

lemma maxchild_spec:
  assumes "uses q" and "q_size q = n" and "1 \<le> i" and "i < max_slots"
    and "arr_live live n ((q_d q)[i := Some mv]) m"
  shows "\<exists>c. maxchild q m i = Some c \<and>
    (if c = 0 then n \<le> 2 * i
     else 2 \<le> c \<and> c < n \<and> c div 2 = i \<and> c \<noteq> i \<and>
       (\<forall>j. 2 \<le> j \<and> j < n \<and> j div 2 = i \<longrightarrow>
          \<not> cmppri (pkey getpri m ((q_d q)[i := Some mv]) c) (pkey getpri m ((q_d q)[i := Some mv]) j)))"
proof -
  let ?V = "(q_d q)[i := Some mv]"
  have q: "q_cmppri q = cmppri" "q_getpri q = getpri" using assms(1) by (simp_all add: uses_def)
  have lr: "left i = 2 * i" "(2 * i + 1) mod size_modulus = 2 * i + 1"
    using left_right_small [OF assms(4)] by simp_all
  have slot: "\<exists>e. arr_get (q_d q) j = Some e \<and> getpri m e = Some (pkey getpri m ?V j)"
    if j: "2 \<le> j" "j < n" "j \<noteq> i" for j
  proof -
    obtain e where "arr_get ?V j = Some e" "getpri m e = Some (pkey getpri m ?V j)"
      using getpri_slot [OF assms(5) _ j(2)] j(1) by (metis Suc_1 Suc_leD One_nat_def)
    then show ?thesis using j(3) by (auto simp: arr_get_def split: if_splits)
  qed
  have children: "j div 2 = i \<longleftrightarrow> j = 2 * i \<or> j = 2 * i + 1" for j using assms(3) by (rule half_eq_iff)
  show ?thesis
  proof (cases "2 * i < n")
    case False
    then show ?thesis using assms(2) lr by (simp add: maxchild_def)
  next
    case l: True
    obtain a where a: "arr_get (q_d q) (2 * i) = Some a" "getpri m a = Some (pkey getpri m ?V (2 * i))"
      using slot [of "2 * i"] l assms(3) by auto
    show ?thesis
    proof (cases "2 * i + 1 < n")
      case False
      then have "maxchild q m i = Some (2 * i)" using l assms(2) lr by (simp add: maxchild_def)
      moreover have "\<not> cmppri (pkey getpri m ?V (2 * i)) (pkey getpri m ?V j)"
        if "j < n" "j div 2 = i" for j
        using that False children [of j] cmp_irrefl by auto
      ultimately show ?thesis using l assms(3) by (intro exI [of _ "2 * i"]) auto
    next
      case r: True
      obtain b where b: "arr_get (q_d q) (2 * i + 1) = Some b"
        "getpri m b = Some (pkey getpri m ?V (2 * i + 1))"
        using slot [of "2 * i + 1"] r assms(3) by auto
      let ?c = "if cmppri (pkey getpri m ?V (2 * i)) (pkey getpri m ?V (2 * i + 1))
          then 2 * i + 1 else 2 * i"
      have "maxchild q m i = Some ?c"
        using l r assms(2) lr a b q unfolding maxchild_def Let_def by simp
      moreover have "\<not> cmppri (pkey getpri m ?V ?c) (pkey getpri m ?V j)"
        if "j < n" "j div 2 = i" for j
        using that children [of j] cmp_irrefl
          cmp_asym [of "pkey getpri m ?V (2 * i)" "pkey getpri m ?V (2 * i + 1)"] by auto
      ultimately show ?thesis using l r assms(3) by (intro exI [of _ ?c]) simp
    qed
  qed
qed

lemma percolate_down_loop_spec:
  assumes "uses q" and "q_size q = n" and "1 \<le> i" and "i < n"
    and "arr_live live n ((q_d q)[i := Some mv]) m" and "getpri m mv = Some mp" and "live m mv"
    and "down_ok cmppri (pkey getpri m ((q_d q)[i := Some mv])) n i"
  shows "\<exists>d' m' i'. percolate_down_loop q m mp i = Some (q\<lparr>q_d := d'\<rparr>, m', i') \<and> 1 \<le> i' \<and> i' < n \<and>
    length d' = length (q_d q) \<and> sifted n ((q_d q)[i := Some mv]) m (d'[i' := Some mv]) m'"
  using assms
proof (induction "n - i" arbitrary: i q m rule: less_induct)
  case (less i q m)
  let ?d = "q_d q"
  let ?V = "?d[i := Some mv]"
  note live = less.prems(5)
  have len: "i < length ?d" "i < max_slots" "n \<le> length ?d"
    using arr_live_length [OF live] less.prems(4) by auto
  have q: "q_cmppri q = cmppri" "q_getpri q = getpri" "q_setpos q = setpos"
    using less.prems(1) by (simp_all add: uses_def)
  have keyi: "pkey getpri m ?V i = mp" using len less.prems(6) by (simp add: pkey_def)
  have stop: "percolate_down_loop q m mp i = Some (q, m, i) \<Longrightarrow>
      heap_on cmppri (pkey getpri m ?V) n \<Longrightarrow> ?case"
    using less.prems by (intro exI [of _ ?d] exI [of _ m] exI [of _ i]) (simp add: sifted_def)
  obtain c where c: "maxchild q m i = Some c"
    "c = 0 \<Longrightarrow> n \<le> 2 * i"
    "c \<noteq> 0 \<Longrightarrow> 2 \<le> c \<and> c < n \<and> c div 2 = i \<and> c \<noteq> i"
    "\<And>j. c \<noteq> 0 \<Longrightarrow> 2 \<le> j \<Longrightarrow> j < n \<Longrightarrow> j div 2 = i \<Longrightarrow>
       \<not> cmppri (pkey getpri m ?V c) (pkey getpri m ?V j)"
    using maxchild_spec [OF less.prems(1-3) len(2) live] by (auto split: if_splits)
  show ?case
  proof (cases "c = 0")
    case True
    then have "percolate_down_loop q m mp i = Some (q, m, i)"
      by (subst percolate_down_loop.simps) (simp add: c(1))
    moreover have "heap_on cmppri (pkey getpri m ?V) n"
      by (rule down_done [OF less.prems(8)]) (use c(2) [OF True] in auto)
    ultimately show ?thesis by (rule stop)
  next
    case False
    note cr = c(3) [OF False] and best = c(4) [OF False]
    obtain ce where ce: "arr_get ?V c = Some ce" "?V ! c = Some ce" "live m ce"
      "getpri m ce = Some (pkey getpri m ?V c)"
      using getpri_slot [OF live, of c] cr by auto
    have dc: "arr_get ?d c = Some ce" "?d ! c = Some ce"
      using ce cr by (auto simp: arr_get_def split: if_splits)
    show ?thesis
    proof (cases "cmppri mp (pkey getpri m ?V c)")
      case nc: False
      then have "percolate_down_loop q m mp i = Some (q, m, i)"
        using dc ce q False by (subst percolate_down_loop.simps) (simp add: c(1))
      moreover have "heap_on cmppri (pkey getpri m ?V) n"
        by (rule down_done [OF less.prems(8)]) (use best keyi cmp_ntrans [OF nc] in auto)
      ultimately show ?thesis by (rule stop)
    next
      case c1: True
      obtain m1 where m1: "setpos m ce i = Some m1" using setpos_live ce(3) by blast
      have fr: "frame m m1" using m1 by (rule frame_setpos)
      let ?q1 = "q\<lparr>q_d := ?d[i := Some ce]\<rparr>"
      let ?V1 = "(q_d ?q1)[c := Some mv]"
      have move: "mset ?V1 = mset ?V" "pkey getpri m1 ?V1 =
          (pkey getpri m ?V)(i := pkey getpri m ?V c, c := pkey getpri m ?V i)"
        using hole_move [OF len(1) _ _ dc(2)] cr len frame_pkey [OF fr] by simp_all
      have down1: "down_ok cmppri (pkey getpri m1 ?V1) n c"
        unfolding move(2) by (rule down_step) (use less.prems(3,8) cr c1 keyi best in simp_all)
      have live1: "arr_live live n ?V1 m1"
        using hole_live [OF live ce(3) less.prems(7) fr] by simp
      have eq: "percolate_down_loop q m mp i = percolate_down_loop ?q1 m1 mp c"
        using False dc ce q c1 m1 len
        by (subst percolate_down_loop.simps) (simp add: c(1) arr_set_def)
      have outer: "\<forall>j. j < 1 \<or> n \<le> j \<longrightarrow> ?V1 ! j = ?V ! j"
        using cr less.prems(3,4) by (auto simp: nth_list_update)
      have meas: "n - c < n - i" using cr less.prems(3) by auto
      have "\<exists>d' m' i'. percolate_down_loop ?q1 m1 mp c = Some (?q1\<lparr>q_d := d'\<rparr>, m', i') \<and> 1 \<le> i' \<and>
          i' < n \<and> length d' = length (q_d ?q1) \<and> sifted n ?V1 m1 (d'[i' := Some mv]) m'"
        by (rule less.hyps [OF meas]) (use less.prems live1 down1 cr fr in \<open>simp_all add: frame_def\<close>)
      then show ?thesis unfolding eq using sifted_from [OF fr move(1) outer] by (simp, blast)
    qed
  qed
qed

lemma percolate_down_run:
  assumes "uses q" and "arr_live live (q_size q) (q_d q) m" and "1 \<le> i" and "i < q_size q"
    and "down_ok cmppri (pkey getpri m (q_d q)) (q_size q) i"
  shows "\<exists>mv mp d' m1 i' m2. q_d q ! i = Some mv \<and>
    percolate_down_loop q m mp i = Some (q\<lparr>q_d := d'\<rparr>, m1, i') \<and> setpos m1 mv i' = Some m2 \<and>
    percolate_down q m i = Some (q\<lparr>q_d := d'[i' := Some mv]\<rparr>, m2) \<and>
    sifted (q_size q) (q_d q) m (d'[i' := Some mv]) m2"
proof -
  obtain mv where mv: "arr_get (q_d q) i = Some mv" "q_d q ! i = Some mv" "live m mv"
    "getpri m mv = Some (pkey getpri m (q_d q) i)"
    using getpri_slot [OF assms(2-4)] by blast
  have V: "(q_d q)[i := Some mv] = q_d q" using mv(2) by (metis list_update_id)
  obtain d' m1 i' where l: "percolate_down_loop q m (pkey getpri m (q_d q) i) i = Some (q\<lparr>q_d := d'\<rparr>, m1, i')"
    "1 \<le> i'" "i' < q_size q" "length d' = length (q_d q)"
    "sifted (q_size q) (q_d q) m (d'[i' := Some mv]) m1"
    using percolate_down_loop_spec [OF assms(1) refl assms(3,4), of mv m] mv assms(2,5) by (auto simp: V)
  obtain m2 where m2: "arr_set d' i' mv = Some (d'[i' := Some mv])" "setpos m1 mv i' = Some m2"
    "sifted (q_size q) (q_d q) m (d'[i' := Some mv]) m2"
    using fill_hole [OF l(5) mv(3) l(2-4)] by blast
  have "percolate_down q m i = Some (q\<lparr>q_d := d'[i' := Some mv]\<rparr>, m2)"
    using mv l(1) m2 assms(1) by (simp add: percolate_down_def uses_def)
  then show ?thesis using mv(2) l(1) m2 by blast
qed

lemma percolate_down_spec:
  assumes "uses q" and "arr_live live (q_size q) (q_d q) m" and "1 \<le> i" and "i < q_size q"
    and "down_ok cmppri (pkey getpri m (q_d q)) (q_size q) i"
  shows "\<exists>d' m'. percolate_down q m i = Some (q\<lparr>q_d := d'\<rparr>, m') \<and> sifted (q_size q) (q_d q) m d' m'"
  using percolate_down_run [OF assms] by blast

text \<open>Sifting the slot just past the end moves nothing: the case where the last element goes.\<close>

lemma percolate_down_end:
  assumes "uses q" and "arr_live live (q_size q) (q_d q) m" and "q_size q \<le> i"
    and "arr_get (q_d q) i = Some mv" and "live m mv"
    and "heap_on cmppri (pkey getpri m (q_d q)) (q_size q)"
  shows "\<exists>m'. percolate_down q m i = Some (q, m') \<and> setpos m mv i = Some m' \<and>
    sifted (q_size q) (q_d q) m (q_d q) m'"
proof -
  have i: "i < length (q_d q)" "i < max_slots" "(q_d q)[i := Some mv] = q_d q"
    using assms(4) by (auto simp: arr_simps, metis list_update_id)
  obtain p where p: "getpri m mv = Some p" using getpri_live assms(5) by blast
  obtain m' where m': "setpos m mv i = Some m'" using setpos_live assms(5) by blast
  have "1 \<le> q_size q" using arr_live_length [OF assms(2)] by simp
  then have "maxchild q m i = Some 0"
    using assms(3) left_right_small [OF i(2)] by (simp add: maxchild_def)
  then have "percolate_down_loop q m p i = Some (q, m, i)"
    by (subst percolate_down_loop.simps) simp
  then have "percolate_down q m i = Some (q, m')"
    using assms(1,4) p m' i by (simp add: percolate_down_def uses_def arr_set_def)
  moreover have fr: "frame m m'" using m' by (rule frame_setpos)
  moreover have "arr_live live (q_size q) (q_d q) m'"
    using assms(2) frame_live [OF fr] unfolding arr_live_def by (auto split: option.splits)
  ultimately show ?thesis using m' assms(6) frame_pkey [OF fr] by (simp add: sifted_def)
qed

text \<open>Growing keeps the queue and makes room for one more.\<close>

lemma pqueue_grow_spec:
  assumes "pqueue_grow realloc q = Some q1" and "slots_ok live q m" and "capacity_ok q"
    and "q_size q + q_step q < max_slots"
  shows "\<exists>d1. q1 = q\<lparr>q_d := d1, q_avail := length d1\<rparr> \<and> q_size q < length d1 \<and>
    length d1 \<le> max_slots \<and> (\<forall>j<q_size q. d1 ! j = q_d q ! j) \<and>
    (q_size q < q_avail q \<longrightarrow> d1 = q_d q)"
proof (cases "q_avail q \<le> q_size q")
  case True
  let ?n = "q_size q + q_step q"
  have n: "?n mod size_modulus = ?n" "(8 * ?n) mod size_modulus = 8 * ?n"
    using assms(4) by (simp_all add: max_slots_def size_modulus_def)
  then have "q1 = q\<lparr>q_d := arr_resize ?n (q_d q), q_avail := ?n\<rparr>"
    using assms(1) True by (auto simp: pqueue_grow_def Let_def split: if_splits)
  then show ?thesis using assms(2-4) True
    by (intro exI [of _ "arr_resize ?n (q_d q)"])
      (auto simp: slots_ok_def capacity_ok_def arr_live_def nth_arr_resize)
next
  case False
  then have "q1 = q" using assms(1) by (simp add: pqueue_grow_def)
  then show ?thesis using False assms(2,3)
    by (intro exI [of _ "q_d q"]) (auto simp: slots_ok_def capacity_ok_def arr_live_def)
qed

text \<open>An insert that gets its memory is the sift of an array with the element appended.\<close>

lemma pqueue_insert_setup:
  assumes u: "uses q" and inv: "pq_inv live q m" and e: "live m e"
    and room: "q_size q + q_step q < max_slots" and g: "pqueue_grow realloc q \<noteq> None"
  shows "\<exists>d2. let q2 = q\<lparr>q_avail := length d2, q_size := q_size q + 1, q_d := d2\<rparr> in
    pqueue_insert realloc (Some q) m e = map_option (\<lambda>(q', m'). (0, Some q', m')) (bubble_up q2 m (q_size q)) \<and>
    arr_live live (q_size q + 1) d2 m \<and> up_ok cmppri (pkey getpri m d2) (q_size q + 1) (q_size q) \<and>
    d2 ! q_size q = Some e \<and> (\<forall>j<q_size q. d2 ! j = q_d q ! j) \<and>
    inner (q_size q + 1) d2 = inner (q_size q) (q_d q) @ [Some e] \<and>
    (q_size q < q_avail q \<longrightarrow> length d2 = length (q_d q))"
proof -
  have parts: "slots_ok live q m" "capacity_ok q" "heap_ordered q m"
    using inv by (simp_all add: pq_inv_def)
  let ?n = "q_size q"
  obtain d1 where d1: "pqueue_grow realloc q = Some (q\<lparr>q_d := d1, q_avail := length d1\<rparr>)"
    "?n < length d1" "length d1 \<le> max_slots" "\<And>j. j < ?n \<Longrightarrow> d1 ! j = q_d q ! j"
    "?n < q_avail q \<longrightarrow> d1 = q_d q"
    using g pqueue_grow_spec [OF _ parts(1,2) room] by blast
  let ?d2 = "d1[?n := Some e]"
  let ?q2 = "q\<lparr>q_avail := length ?d2, q_size := ?n + 1, q_d := ?d2\<rparr>"
  have n1: "1 \<le> ?n" "?n \<le> length (q_d q)" using parts(1) by (simp_all add: slots_ok_def arr_live_def)
  have "case ?d2 ! j of None \<Rightarrow> False | Some x \<Rightarrow> live m x" if "j \<in> {1..<?n + 1}" for j
    using parts(1) d1 e that unfolding slots_ok_def arr_live_def
    by (cases "j = ?n") (auto simp: nth_list_update)
  then have live2: "arr_live live (?n + 1) ?d2 m"
    using d1 by (simp add: arr_live_def)
  have heap: "heap_on cmppri (pkey getpri m (q_d q)) ?n"
    using parts(3) u by (simp add: heap_ordered_def uses_def)
  have key: "pkey getpri m ?d2 i = ((pkey getpri m (q_d q))(?n := the (getpri m e))) i"
    if "1 \<le> i" "i < Suc ?n" for i
    using d1 that by (auto simp: pkey_def nth_list_update)
  have up: "up_ok cmppri (pkey getpri m ?d2) (?n + 1) ?n"
    using up_ok_cong [OF append_up [OF heap n1(1)] _ key] by simp
  have mod: "(?n + 1) mod size_modulus = ?n + 1" using d1 size_small [of ?n] by simp
  have eq: "pqueue_insert realloc (Some q) m e =
      map_option (\<lambda>(q', m'). (0, Some q', m')) (bubble_up ?q2 m ?n)"
    using d1 mod by (cases "bubble_up ?q2 m ?n") (auto simp: pqueue_insert_def arr_set_def Let_def)
  have "inner ?n d1 = inner ?n (q_d q)"
    by (rule nth_equalityI) (use d1 n1 in \<open>auto simp: length_inner nth_inner\<close>)
  then have inner: "inner (?n + 1) ?d2 = inner ?n (q_d q) @ [Some e]"
    using inner_Suc [of ?n ?d2] d1 n1 by (simp add: inner_update_beyond)
  have same: "\<forall>j<?n. ?d2 ! j = q_d q ! j" "?d2 ! ?n = Some e" using d1 by simp_all
  show ?thesis unfolding Let_def using eq live2 up inner same d1(5) by (intro exI [of _ ?d2]) simp
qed

text \<open>What an insert promises: the new queue holds the new element besides the old ones.\<close>

definition insert_post :: "('m, 'e) pqueue_t \<Rightarrow> 'm \<Rightarrow> 'e \<Rightarrow> ('m, 'e) pqueue_t \<Rightarrow> 'm \<Rightarrow> bool" where
  "insert_post q m e q' m' \<longleftrightarrow>
     (\<exists>d'. q' = q\<lparr>q_avail := length d', q_size := q_size q + 1, q_d := d'\<rparr> \<and>
        (q_size q < q_avail q \<longrightarrow> length d' = length (q_d q))) \<and>
     pq_inv live q' m' \<and> frame m m' \<and> mset (elems q') = add_mset e (mset (elems q))"

lemma insert_postI:
  assumes "uses q" and "pq_inv live q m"
    and "sifted (q_size q + 1) d2 m d' m'"
    and "inner (q_size q + 1) d2 = inner (q_size q) (q_d q) @ [Some e]" and "q_size q < length d2"
    and "q_size q < q_avail q \<longrightarrow> length d2 = length (q_d q)"
  shows "insert_post q m e (q\<lparr>q_avail := length d2, q_size := q_size q + 1, q_d := d'\<rparr>) m'"
proof -
  let ?q' = "q\<lparr>q_avail := length d2, q_size := q_size q + 1, q_d := d'\<rparr>"
  have len: "length d' = length d2" using assms(3) by (simp add: sifted_def)
  then have "q_size q + 1 \<le> length d2" "pq_inv live ?q' m'"
    using assms(1,2,3,5)
    by (simp_all add: pq_inv_def slots_ok_def capacity_ok_def heap_ordered_def sifted_def uses_def)
  moreover have "mset (elems ?q') = add_mset e (mset (elems q))"
    using sifted_mset [OF assms(3)] assms(4,5) by (simp add: mset_elems)
  ultimately show ?thesis using len assms(3,6) unfolding insert_post_def
    by (auto simp: sifted_def intro!: exI [of _ d'])
qed

lemma pqueue_insert_order:
  assumes u: "uses q" and inv: "pq_inv live q m" and e: "live m e"
    and room: "q_size q + q_step q < max_slots" and g: "pqueue_grow realloc q \<noteq> None"
  shows "\<exists>q' m'. pqueue_insert realloc (Some q) m e = Some (0, Some q', m') \<and> insert_post q m e q' m'"
proof -
  obtain d2 where d2: "pqueue_insert realloc (Some q) m e = map_option (\<lambda>(q', m'). (0, Some q', m'))
      (bubble_up (q\<lparr>q_avail := length d2, q_size := q_size q + 1, q_d := d2\<rparr>) m (q_size q))"
    "arr_live live (q_size q + 1) d2 m" "up_ok cmppri (pkey getpri m d2) (q_size q + 1) (q_size q)"
    "inner (q_size q + 1) d2 = inner (q_size q) (q_d q) @ [Some e]"
    "q_size q < q_avail q \<longrightarrow> length d2 = length (q_d q)"
    using pqueue_insert_setup [OF assms] unfolding Let_def by blast
  have "1 \<le> q_size q" using inv by (simp add: pq_inv_def capacity_ok_def)
  then show ?thesis
    using bubble_up_spec [of "q\<lparr>q_avail := length d2, q_size := q_size q + 1, q_d := d2\<rparr>" m "q_size q"]
      d2 u insert_postI [OF u inv _ d2(4) _ d2(5)] by (auto simp: arr_live_def)
qed

text \<open>
  Pop and remove overwrite a slot by the last one.  The rest of the array is a heap up to that
  slot, in the direction the two keys tell.
\<close>

lemma drop_last_order:
  fixes q :: "('m, 'e) pqueue_t" and m :: 'm
  defines "n' \<equiv> q_size q - 1"
  defines "key \<equiv> pkey getpri m (q_d q)"
  assumes u: "uses q" and parts: "slots_ok live q m" "heap_ordered q m"
    and k: "1 \<le> k" "k < q_size q" and l: "arr_get (q_d q) n' = Some l"
  shows "(q_size q + size_modulus - 1) mod size_modulus = n'"
    and "arr_set (q_d q) k l = Some ((q_d q)[k := Some l])"
    and "arr_live live n' ((q_d q)[k := Some l]) m"
    and "mset (elems q) =
      add_mset (the (q_d q ! k)) (image_mset the (mset (inner n' ((q_d q)[k := Some l]))))"
    and "k < n' \<Longrightarrow> cmppri (key k) (key n') \<Longrightarrow> up_ok cmppri (pkey getpri m ((q_d q)[k := Some l])) n' k"
    and "k < n' \<Longrightarrow> \<not> cmppri (key k) (key n') \<Longrightarrow> down_ok cmppri (pkey getpri m ((q_d q)[k := Some l])) n' k"
    and "n' \<le> k \<Longrightarrow> heap_on cmppri (pkey getpri m ((q_d q)[k := Some l])) n'"
proof -
  let ?d = "q_d q" and ?n = "q_size q"
  let ?d1 = "?d[k := Some l]"
  have live: "arr_live live ?n ?d m" using parts(1) by (simp add: slots_ok_def)
  have n: "1 \<le> ?n" "?n \<le> length ?d" "length ?d \<le> max_slots" using arr_live_length [OF live] by auto
  have n': "1 \<le> n'" "n' < ?n" "k \<le> n'" using k by (auto simp: n'_def)
  have dl: "?d ! n' = Some l" using l by (simp add: arr_simps)
  have ll: "live m l" using arr_liveD [OF live n'(1,2)] dl by auto
  show "(?n + size_modulus - 1) mod size_modulus = n'" using size_pred [of ?n] n by (simp add: n'_def)
  show "arr_set ?d k l = Some ?d1" using k n by (simp add: arr_set_def)
  show "arr_live live n' ?d1 m"
    using arr_live_update [OF live ll, of m k] n' by (auto simp: arr_live_def)
  show "mset (elems q) = add_mset (the (?d ! k)) (image_mset the (mset (inner n' ?d1)))"
    using mset_inner_drop_last [OF k n(2)] dl by (simp add: mset_elems n'_def)
  have heap: "heap_on cmppri key ?n"
    using parts(2) u by (simp add: heap_ordered_def uses_def key_def)
  then have heap': "heap_on cmppri key n'" by (rule heap_on_mono) (use n' in simp)
  have key: "pkey getpri m ?d1 i = (key(k := key n')) i" if "1 \<le> i" "i < n'" for i
    using that k n dl by (auto simp: pkey_def key_def nth_list_update)
  show "up_ok cmppri (pkey getpri m ?d1) n' k" if "k < n'" "cmppri (key k) (key n')"
    using up_ok_cong [OF change_up [OF heap' k(1) that] that(1) key] .
  show "down_ok cmppri (pkey getpri m ?d1) n' k" if "k < n'" "\<not> cmppri (key k) (key n')"
    using down_ok_cong [OF change_down [OF heap' k(1) that] that(1) key] .
  show "heap_on cmppri (pkey getpri m ?d1) n'" if "n' \<le> k"
    using heap_on_cong [OF heap', of "pkey getpri m ?d1"] key that by auto
qed

text \<open>
  After the overwrite, the sift in the right direction restores the queue: the common part of pop
  and remove.
\<close>

lemma drop_last_sift:
  fixes q :: "('m, 'e) pqueue_t" and m :: 'm
  defines "n' \<equiv> q_size q - 1"
  assumes u: "uses q" and parts: "slots_ok live q m" "heap_ordered q m"
    and k: "1 \<le> k" "k < q_size q" and l: "arr_get (q_d q) n' = Some l"
    and up: "up \<longleftrightarrow> cmppri (pkey getpri m (q_d q) k) (pkey getpri m (q_d q) n')"
  shows "\<exists>d' m'. (if up then bubble_up (q\<lparr>q_size := n', q_d := (q_d q)[k := Some l]\<rparr>) m k
       else percolate_down (q\<lparr>q_size := n', q_d := (q_d q)[k := Some l]\<rparr>) m k) =
      Some (q\<lparr>q_size := n', q_d := d'\<rparr>, m') \<and> sifted n' ((q_d q)[k := Some l]) m d' m'"
proof -
  let ?q1 = "q\<lparr>q_size := n', q_d := (q_d q)[k := Some l]\<rparr>"
  note dl = drop_last_order [OF u parts k, of l, folded n'_def, OF l]
  have u1: "uses ?q1" using u by (simp add: uses_def)
  have live1: "arr_live live (q_size ?q1) (q_d ?q1) m" using dl(3) by simp
  show ?thesis
  proof (cases "k < n'")
    case True
    show ?thesis
    proof (cases up)
      case True
      then show ?thesis using bubble_up_spec [OF u1 live1 k(1)] dl(5) \<open>k < n'\<close> up by auto
    next
      case False
      then show ?thesis using percolate_down_spec [OF u1 live1 k(1)] dl(6) \<open>k < n'\<close> up by auto
    qed
  next
    case False
    then have kn: "k = n'" using k by (simp add: n'_def)
    have nup: "\<not> up" using up kn by simp
    have live: "arr_live live (q_size q) (q_d q) m" using parts(1) by (simp add: slots_ok_def)
    have "q_d q ! n' = Some l" using l by (simp add: arr_simps)
    then have "live m l" using arr_liveD [OF live k] kn by auto
    moreover have "arr_get (q_d ?q1) k = Some l" using l kn by (simp add: arr_get_def split: if_splits)
    ultimately show ?thesis
      using percolate_down_end [OF u1 live1, of k l] kn dl(7) nup by auto
  qed
qed

lemma pqueue_pop_order:
  assumes u: "uses q" and parts: "slots_ok live q m" "heap_ordered q m" and n: "2 \<le> q_size q"
  shows "\<exists>e d' m'. let q' = q\<lparr>q_size := q_size q - 1, q_d := d'\<rparr> in
    pqueue_pop (Some q) m = Some (Some e, Some q', m') \<and>
    mset (elems q) = add_mset e (mset (elems q')) \<and> q_d q ! 1 = Some e \<and>
    (\<forall>x\<in>set (elems q). \<not> cmppri (the (getpri m e)) (the (getpri m x))) \<and>
    length d' = length (q_d q) \<and> slots_ok live q' m' \<and> heap_ordered q' m' \<and> frame m m'"
proof -
  let ?n' = "q_size q - 1"
  have live: "arr_live live (q_size q) (q_d q) m" using parts(1) by (simp add: slots_ok_def)
  have one: "1 < q_size q" "1 \<le> ?n'" "?n' < q_size q" using n by auto
  obtain e where e: "arr_get (q_d q) 1 = Some e" "q_d q ! 1 = Some e" "live m e"
    using arr_liveD [OF live _ one(1)] by auto
  obtain l where l: "arr_get (q_d q) ?n' = Some l" using arr_liveD [OF live one(2,3)] by auto
  note dl = drop_last_order [OF u parts _ one(1) l, simplified]
  have heap: "heap_on cmppri (pkey getpri m (q_d q)) (q_size q)"
    using parts(2) u by (simp add: heap_ordered_def uses_def)
  have nup: "\<not> cmppri (pkey getpri m (q_d q) 1) (pkey getpri m (q_d q) j)"
    if "1 \<le> j" "j < q_size q" for j
    using root_best [OF heap that] .
  obtain d' m' where s: "percolate_down (q\<lparr>q_size := ?n', q_d := (q_d q)[1 := Some l]\<rparr>) m 1 =
      Some (q\<lparr>q_size := ?n', q_d := d'\<rparr>, m')" "sifted ?n' ((q_d q)[1 := Some l]) m d' m'"
    using drop_last_sift [OF u parts _ one(1) l, of False] nup [OF one(2,3)] by auto
  let ?q' = "q\<lparr>q_size := ?n', q_d := d'\<rparr>"
  have "pqueue_pop (Some q) m = Some (Some e, Some ?q', m')"
    using e(1) l dl(1,2) s(1) n by (simp add: pqueue_pop_def)
  moreover have "mset (elems q) = add_mset e (mset (elems ?q'))"
    using dl(4) e(2) sifted_mset [OF s(2)] dl(3) one(2) by (simp add: mset_elems arr_live_def)
  moreover have "\<not> cmppri (the (getpri m e)) (the (getpri m x))" if x: "x \<in> set (elems q)" for x
  proof -
    obtain j where "1 \<le> j" "j < q_size q" "x = the (q_d q ! j)"
      using x arr_live_length [OF live] by (auto simp: elems_def set_inner)
    then show ?thesis using nup [of j] e(2) by (simp add: pkey_def)
  qed
  moreover have "slots_ok live ?q' m'" "heap_ordered ?q' m'" "frame m m'" "length d' = length (q_d q)"
    using s(2) u by (simp_all add: slots_ok_def heap_ordered_def sifted_def uses_def)
  ultimately show ?thesis using e(2) unfolding Let_def by blast
qed

text \<open>Popping until the queue is empty yields every element, each ranked above by none after it.\<close>

lemma pop_all_order:
  assumes "uses q" and "slots_ok live q m" and "heap_ordered q m"
  shows "\<exists>xs. pop_all (Some q) m = Some xs \<and> mset xs = mset (elems q) \<and>
    sorted_wrt (\<lambda>x y. \<not> cmppri (the (getpri m x)) (the (getpri m y))) xs"
  using assms
proof (induction "q_size q" arbitrary: q m rule: less_induct)
  case less
  have one: "1 \<le> q_size q" using less.prems(2) by (simp add: slots_ok_def arr_live_def)
  show ?case
  proof (cases "q_size q = 1")
    case True
    then have "elems q = []" by (simp add: elems_def)
    moreover have "pop_all (Some q) m = Some []"
      using True by (subst pop_all.simps) (simp add: pqueue_pop_def)
    ultimately show ?thesis by simp
  next
    case False
    then have two: "2 \<le> q_size q" using one by simp
    obtain e d' m' where p: "pqueue_pop (Some q) m = Some (Some e, Some (q\<lparr>q_size := q_size q - 1, q_d := d'\<rparr>), m')"
      "mset (elems q) = add_mset e (mset (elems (q\<lparr>q_size := q_size q - 1, q_d := d'\<rparr>)))"
      "\<forall>x\<in>set (elems q). \<not> cmppri (the (getpri m e)) (the (getpri m x))"
      "slots_ok live (q\<lparr>q_size := q_size q - 1, q_d := d'\<rparr>) m'"
      "heap_ordered (q\<lparr>q_size := q_size q - 1, q_d := d'\<rparr>) m'" "frame m m'"
      using pqueue_pop_order [OF less.prems two] unfolding Let_def by blast
    let ?q' = "q\<lparr>q_size := q_size q - 1, q_d := d'\<rparr>"
    obtain xs where xs: "pop_all (Some ?q') m' = Some xs" "mset xs = mset (elems ?q')"
      "sorted_wrt (\<lambda>x y. \<not> cmppri (the (getpri m' x)) (the (getpri m' y))) xs"
      using less.hyps [of ?q' m'] less.prems(1) p(4,5) two by (auto simp: uses_def)
    have "set xs \<subseteq> set (elems q)" using mset_eq_setD [OF xs(2)] arg_cong [OF p(2), of set_mset] by auto
    then have "sorted_wrt (\<lambda>x y. \<not> cmppri (the (getpri m x)) (the (getpri m y))) (e # xs)"
      using p(3,6) xs(3) by (auto simp: frame_def)
    moreover have "pop_all (Some q) m = Some (e # xs)"
      using p(1) xs(1) by (subst pop_all.simps) simp
    ultimately show ?thesis using xs(2) p(2) by (intro exI [of _ "e # xs"]) simp
  qed
qed

lemma nop_order: "pq_order cmppri getpri nop_set_pos live obs"
  by unfold_locales (auto simp: nop_set_pos_def intro: getpri_live)

lemma pqueue_print_order:
  assumes u: "uses q" and parts: "slots_ok live q m" "heap_ordered q m"
    and a: "alloc sizeof_pqueue" "alloc (8 * (q_size q + 1))" and n: "q_size q + 1 < max_slots"
  shows "\<exists>xs. pqueue_print alloc q m = Some xs \<and> mset xs = mset (elems q) \<and>
    sorted_wrt (\<lambda>x y. \<not> cmppri (the (getpri m x)) (the (getpri m y))) xs"
proof -
  let ?n = "q_size q"
  let ?dup = "\<lparr>q_size = ?n, q_avail = q_avail q, q_step = q_step q,
     q_cmppri = q_cmppri q, q_getpri = q_getpri q, q_setpri = nop_set_pri,
     q_getpos = q_getpos q, q_setpos = nop_set_pos,
     q_d = take ?n (q_d q) @ [None]\<rparr>"
  have live: "arr_live live ?n (q_d q) m" using parts(1) by (simp add: slots_ok_def)
  note len = arr_live_length [OF live]
  have bytes: "(?n + 1) mod size_modulus = ?n + 1" "(?n + 1) * 8 mod size_modulus = (?n + 1) * 8"
    using n by (simp_all add: max_slots_def size_modulus_def)
  have rep: "replicate (Suc 0) None = [None]" by simp
  have "pqueue_print alloc q m = pop_all (Some ?dup) m"
    using a len unfolding pqueue_print_def pqueue_init_def Let_def bytes
    by (simp add: mult.commute rep del: replicate.simps)
  moreover have "pq_order.uses cmppri getpri nop_set_pos ?dup"
    using u by (simp add: pq_order.uses_def [OF nop_order] uses_def)
  moreover have nth: "(take ?n (q_d q) @ [None]) ! j = q_d q ! j" if "j < ?n" for j
    using that len by (simp add: nth_append)
  then have "slots_ok live ?dup m"
    using live n by (auto simp: slots_ok_def arr_live_def)
  moreover have "heap_ordered ?dup m"
    using parts(2) u nth by (auto simp: heap_ordered_def heap_on_def uses_def pkey_def)
  moreover have "elems ?dup = elems q"
    using len by (auto simp: elems_def inner_def drop_take)
  ultimately show ?thesis
    using pq_order.pop_all_order [OF nop_order, of ?dup m] by simp
qed

text \<open>\<open>subtree_is_valid\<close> checks the order below its node, \<open>pqueue_is_valid\<close> the whole heap.\<close>

definition below :: "nat \<Rightarrow> nat \<Rightarrow> bool" where
  "below pos i \<longleftrightarrow> (\<exists>k. i div 2 ^ k = pos)"

lemma below_refl: "below pos pos"
  unfolding below_def by (intro exI [of _ 0]) simp

lemma below_ge: "below pos i \<Longrightarrow> pos \<le> i"
  by (auto simp: below_def)

lemma below_step:
  assumes "1 \<le> pos"
  shows "below pos i \<and> i \<noteq> pos \<longleftrightarrow> below (2 * pos) i \<or> below (2 * pos + 1) i"
proof
  assume a: "below pos i \<and> i \<noteq> pos"
  then obtain k where "i div 2 ^ k = pos" "k \<noteq> 0" unfolding below_def by (metis div_by_1 power_0)
  then obtain k' where "i div 2 ^ k' div 2 = pos"
    by (metis div_mult2_eq not0_implies_Suc power_Suc2)
  then show "below (2 * pos) i \<or> below (2 * pos + 1) i"
    using half_eq_iff [OF assms, of "i div 2 ^ k'"] unfolding below_def by metis
next
  assume a: "below (2 * pos) i \<or> below (2 * pos + 1) i"
  then obtain k where "i div 2 ^ k div 2 = pos"
    using half_eq_iff [OF assms] unfolding below_def by metis
  then have "below pos i" unfolding below_def by (metis div_mult2_eq power_Suc2)
  moreover have "2 * pos \<le> i" using a below_ge by force
  ultimately show "below pos i \<and> i \<noteq> pos" using assms by simp
qed

lemma below_root: "1 \<le> i \<Longrightarrow> below 1 i"
proof (induction i rule: less_induct)
  case (less i)
  show ?case
  proof (cases "i = 1")
    case True then show ?thesis using below_refl by simp
  next
    case False
    then have "below 1 (i div 2)" using less by simp
    then show ?thesis unfolding below_def by (metis div_mult2_eq power_Suc)
  qed
qed

definition ordered_below :: "('m, 'e) pqueue_t \<Rightarrow> 'm \<Rightarrow> nat \<Rightarrow> bool" where
  "ordered_below q m pos \<longleftrightarrow> (\<forall>i\<in>{2..<q_size q}. below pos i \<and> i \<noteq> pos \<longrightarrow>
     \<not> cmppri (pkey getpri m (q_d q) (i div 2)) (pkey getpri m (q_d q) i))"

lemma ordered_below_step:
  assumes "1 \<le> pos"
  shows "ordered_below q m pos \<longleftrightarrow>
    (\<forall>c\<in>{2 * pos, 2 * pos + 1}. c < q_size q \<longrightarrow>
       \<not> cmppri (pkey getpri m (q_d q) pos) (pkey getpri m (q_d q) c) \<and> ordered_below q m c)"
    (is "_ \<longleftrightarrow> ?r")
proof -
  let ?ok = "\<lambda>i. \<not> cmppri (pkey getpri m (q_d q) (i div 2)) (pkey getpri m (q_d q) i)"
  have "ordered_below q m pos \<longleftrightarrow>
      (\<forall>i\<in>{2..<q_size q}. below (2 * pos) i \<or> below (2 * pos + 1) i \<longrightarrow> ?ok i)"
    unfolding ordered_below_def by (simp only: below_step [OF assms])
  also have "\<dots> \<longleftrightarrow> (\<forall>c\<in>{2 * pos, 2 * pos + 1}. \<forall>i\<in>{2..<q_size q}. below c i \<longrightarrow> ?ok i)" by auto
  also have "\<dots> \<longleftrightarrow> (\<forall>c\<in>{2 * pos, 2 * pos + 1}. c < q_size q \<longrightarrow> ?ok c \<and> ordered_below q m c)"
  proof (intro ball_cong refl)
    fix c assume c: "c \<in> {2 * pos, 2 * pos + 1}"
    then have "2 \<le> c" using assms by auto
    have ge: "c \<le> i" if "below c i" for i using that by (rule below_ge)
    show "(\<forall>i\<in>{2..<q_size q}. below c i \<longrightarrow> ?ok i) \<longleftrightarrow> (c < q_size q \<longrightarrow> ?ok c \<and> ordered_below q m c)"
    proof (cases "c < q_size q")
      case True
      then have "(\<forall>i\<in>{2..<q_size q}. below c i \<longrightarrow> ?ok i) \<longleftrightarrow>
          ?ok c \<and> (\<forall>i\<in>{2..<q_size q}. below c i \<and> i \<noteq> c \<longrightarrow> ?ok i)"
        using \<open>2 \<le> c\<close> below_refl [of c] by auto
      then show ?thesis using True by (simp add: ordered_below_def)
    next
      case False
      then show ?thesis using ge by fastforce
    qed
  qed
  also have "\<dots> \<longleftrightarrow> ?r" by auto
  finally show ?thesis .
qed

lemma subtree_is_valid_order:
  assumes u: "uses q" and parts: "slots_ok live q m" and n: "2 * q_size q + 1 < int_max1"
    and pos: "1 \<le> pos" "pos \<le> q_size q"
  shows "subtree_is_valid q m pos = Some (ordered_below q m pos)"
  using pos
proof (induction "q_size q - pos" arbitrary: pos rule: less_induct)
  case less
  have q: "q_cmppri q = cmppri" "q_getpri q = getpri" using u by (simp_all add: uses_def)
  have live: "arr_live live (q_size q) (q_d q) m" using parts by (simp add: slots_ok_def)
  note slot = getpri_slot [OF live]
  have IH: "subtree_is_valid q m c = Some (ordered_below q m c)"
    if "pos < c" "c < q_size q" for c
    using less.hyps [of c] that less.prems by simp
  show ?case
  proof (cases "2 * pos < q_size q")
    case False
    then have "ordered_below q m pos" using ordered_below_step [OF less.prems(1)] by auto
    then show ?thesis using False n less.prems by (subst subtree_is_valid.simps) simp
  next
    case l: True
    obtain e where e: "arr_get (q_d q) pos = Some e" "getpri m e = Some (pkey getpri m (q_d q) pos)"
      using slot [of pos] l less.prems by auto
    obtain a where a: "arr_get (q_d q) (2 * pos) = Some a"
      "getpri m a = Some (pkey getpri m (q_d q) (2 * pos))"
      using slot [of "2 * pos"] l less.prems by auto
    have ub: "\<not> int_max1 \<le> 2 * pos + 1" using n l by simp
    show ?thesis
    proof (cases "2 * pos + 1 < q_size q")
      case False
      then show ?thesis using l ub e a q IH [of "2 * pos"] less.prems(1) ordered_below_step [OF less.prems(1)]
        by (subst subtree_is_valid.simps) simp
    next
      case r: True
      obtain b where b: "arr_get (q_d q) (2 * pos + 1) = Some b"
        "getpri m b = Some (pkey getpri m (q_d q) (2 * pos + 1))"
        using slot [of "2 * pos + 1"] r by auto
      show ?thesis
        using l r ub e a b q IH [of "2 * pos"] IH [of "2 * pos + 1"] less.prems(1)
          ordered_below_step [OF less.prems(1)]
        by (subst subtree_is_valid.simps) simp
    qed
  qed
qed

lemma pqueue_is_valid_order:
  assumes u: "uses q" and parts: "slots_ok live q m" and n: "2 * q_size q + 1 < int_max1"
  shows "pqueue_is_valid q m = Some (heap_ordered q m)"
proof -
  have "ordered_below q m 1 \<longleftrightarrow> heap_ordered q m"
    using u below_root unfolding ordered_below_def heap_ordered_def heap_on_def uses_def by auto
  moreover have "1 \<le> q_size q" using parts by (simp add: slots_ok_def arr_live_def)
  ultimately show ?thesis
    using subtree_is_valid_order [OF u parts n, of 1] by (simp add: pqueue_is_valid_def)
qed

end

section \<open>Stored positions\<close>

text \<open>
  What the queue needs of its client besides, so that every element knows its slot: positions
  below \<open>lim\<close> can be stored and read back, and the callbacks touch nothing else.
\<close>

locale pq_client = pq_order cmppri getpri setpos live obs
  for cmppri :: "pqueue_pri_t \<Rightarrow> pqueue_pri_t \<Rightarrow> bool"
    and getpri :: "'m \<Rightarrow> 'e \<Rightarrow> pqueue_pri_t option"
    and setpos :: "'m \<Rightarrow> 'e \<Rightarrow> nat \<Rightarrow> 'm option"
    and live :: "'m \<Rightarrow> 'e \<Rightarrow> bool"
    and obs :: "'m \<Rightarrow> 'e \<Rightarrow> 'o" +
  fixes setpri :: "'m \<Rightarrow> 'e \<Rightarrow> pqueue_pri_t \<Rightarrow> 'm option"
    and getpos :: "'m \<Rightarrow> 'e \<Rightarrow> nat option"
    and lim :: nat
  assumes getpos_setpos: "setpos m e i = Some m' \<Longrightarrow> i < lim \<Longrightarrow> getpos m' e = Some i"
    and getpos_setpos_other: "setpos m e i = Some m' \<Longrightarrow> x \<noteq> e \<Longrightarrow> getpos m' x = getpos m x"
    and setpri_live: "live m e \<Longrightarrow> \<exists>m'. setpri m e p = Some m'"
    and getpri_setpri: "setpri m e p = Some m' \<Longrightarrow> getpri m' x = (if x = e then Some p else getpri m x)"
    and getpos_setpri: "setpri m e p = Some m' \<Longrightarrow> getpos m' x = getpos m x"
    and live_setpri: "setpri m e p = Some m' \<Longrightarrow> live m' x = live m x"
    and obs_setpri: "setpri m e p = Some m' \<Longrightarrow> obs m' x = obs m x"
begin

definition client :: "('m, 'e) pqueue_t \<Rightarrow> bool" where
  "client q \<longleftrightarrow> uses q \<and> q_setpri q = setpri \<and> q_getpos q = getpos"

text \<open>Every element of the array but the one at the hole \<open>h\<close> has its slot stored.\<close>

definition pos_but :: "'m \<Rightarrow> 'e ptr_array \<Rightarrow> nat \<Rightarrow> nat \<Rightarrow> bool" where
  "pos_but m V n h \<longleftrightarrow> distinct (inner n V) \<and> n \<le> lim \<and> n \<le> length V \<and>
     (\<forall>j\<in>{1..<n}. V ! j \<noteq> None \<and> (j \<noteq> h \<longrightarrow> getpos m (the (V ! j)) = Some j))"

lemma client_update [simp]: "client (q\<lparr>q_d := d'\<rparr>) = client q" "client (q\<lparr>q_size := n\<rparr>) = client q"
  "client (q\<lparr>q_avail := n\<rparr>) = client q"
  by (simp_all add: client_def)

lemma client_uses: "client q \<Longrightarrow> uses q"
  by (simp add: client_def)

lemma inner_inj:
  assumes "distinct (inner n V)" and "n \<le> length V" and "1 \<le> i" "i < n" "1 \<le> j" "j < n" and "V ! i = V ! j"
  shows "i = j"
proof -
  have "inner n V ! (i - 1) = inner n V ! (j - 1)" using assms by (simp add: nth_inner)
  then have "i - 1 = j - 1" using assms by (simp add: nth_eq_iff_index_eq length_inner)
  then show ?thesis using assms by simp
qed

text \<open>One move of the hole stores the moved element's new slot and nothing else.\<close>

lemma pos_but_move:
  assumes "pos_but m (d[i := Some mv]) n i" and "1 \<le> i" "i < n" "1 \<le> j" "j < n" "i \<noteq> j"
    and "d ! j = Some e" and "setpos m e i = Some m1"
  shows "pos_but m1 ((d[i := Some e])[j := Some mv]) n j"
proof -
  let ?V = "d[i := Some mv]" and ?V1 = "(d[i := Some e])[j := Some mv]"
  have d: "distinct (inner n ?V)" "n \<le> lim" "n \<le> length d" using assms(1) by (simp_all add: pos_but_def)
  have "mset ?V1 = mset ?V" by (rule hole_move) (use assms d in auto)
  then have "mset (inner n ?V1) = mset (inner n ?V)"
    by (rule inner_mset_cong) (use assms d in \<open>auto simp: nth_list_update\<close>)
  then have "distinct (inner n ?V1)" using d(1) by (metis mset_eq_imp_distinct_iff)
  moreover have "?V1 ! k \<noteq> None \<and> (k \<noteq> j \<longrightarrow> getpos m1 (the (?V1 ! k)) = Some k)" if k: "k \<in> {1..<n}" for k
  proof (cases "k = i \<or> k = j")
    case True
    then show ?thesis using getpos_setpos [OF assms(8)] d assms by (auto simp: nth_list_update)
  next
    case False
    then have "?V1 ! k = ?V ! k" using d assms by (simp add: nth_list_update)
    moreover have "?V ! k \<noteq> None" "getpos m (the (?V ! k)) = Some k"
      using assms(1) k False unfolding pos_but_def by blast+
    moreover have "?V ! k \<noteq> Some e"
      using inner_inj [OF d(1), of k j] k False d assms by auto
    ultimately show ?thesis using getpos_setpos_other [OF assms(8), of "the (?V ! k)"] by auto
  qed
  ultimately show ?thesis using d by (simp add: pos_but_def)
qed

lemma pos_but_fill:
  assumes "pos_but m V n i" and "1 \<le> i" "i < n" and "V ! i = Some mv" and "setpos m mv i = Some m1"
  shows "\<forall>j\<in>{1..<n}. getpos m1 (the (V ! j)) = Some j"
proof
  fix j assume j: "j \<in> {1..<n}"
  have d: "distinct (inner n V)" "n \<le> lim" "n \<le> length V" using assms(1) by (simp_all add: pos_but_def)
  show "getpos m1 (the (V ! j)) = Some j"
  proof (cases "j = i")
    case True
    then show ?thesis using getpos_setpos [OF assms(5)] assms(3,4) d by simp
  next
    case False
    then have "V ! j \<noteq> None" "getpos m (the (V ! j)) = Some j"
      using assms(1) j by (simp_all add: pos_but_def)
    moreover have "V ! j \<noteq> Some mv" using inner_inj [OF d(1,3), of j i] j assms False by auto
    ultimately show ?thesis using getpos_setpos_other [OF assms(5), of "the (V ! j)"] by auto
  qed
qed

lemma bubble_up_loop_pos:
  assumes "bubble_up_loop q m mp i = Some (q', m', i')" and "client q" and "1 \<le> i" "i < n"
    and "pos_but m ((q_d q)[i := Some mv]) n i"
  shows "1 \<le> i' \<and> i' < n \<and> pos_but m' ((q_d q')[i' := Some mv]) n i'"
  using assms
proof (induction i arbitrary: q m rule: less_induct)
  case (less i)
  have s: "q_setpos q = setpos" using less.prems(2) by (simp add: client_def uses_def)
  show ?case
  proof (cases "\<exists>pe pp. 2 \<le> i \<and> arr_get (q_d q) (parent i) = Some pe \<and> q_getpri q m pe = Some pp \<and>
      q_cmppri q pp mp")
    case False
    then have "(q', m', i') = (q, m, i)"
      using less.prems(1) by (subst (asm) bubble_up_loop.simps) (auto simp: result_simps split: if_splits)
    then show ?thesis using less.prems by simp
  next
    case True
    then obtain pe pp where p: "2 \<le> i" "arr_get (q_d q) (parent i) = Some pe" "q_getpri q m pe = Some pp"
      "q_cmppri q pp mp" by blast
    then obtain m1 where m1: "setpos m pe i = Some m1"
      "bubble_up_loop (q\<lparr>q_d := (q_d q)[i := Some pe]\<rparr>) m1 mp (parent i) = Some (q', m', i')"
      using less.prems(1) s by (subst (asm) bubble_up_loop.simps) (auto simp: result_simps arr_simps)
    have par: "1 \<le> parent i" "parent i < i" "parent i < n" "i \<noteq> parent i"
      using p(1) less.prems(4) by (auto simp: parent_def)
    have "pos_but m1 (((q_d q)[i := Some pe])[parent i := Some mv]) n (parent i)"
      using pos_but_move [OF less.prems(5,3,4) par(1,3,4) _ m1(1)] p(2) by (simp add: arr_simps)
    then show ?thesis using less.IH [OF par(2) m1(2)] less.prems(2) par by simp
  qed
qed

lemma percolate_down_loop_pos:
  assumes "percolate_down_loop q m mp i = Some (q', m', i')" and "client q" and "q_size q = n"
    and "1 \<le> i" "i < n" and "pos_but m ((q_d q)[i := Some mv]) n i" and "length (q_d q) \<le> max_slots"
  shows "1 \<le> i' \<and> i' < n \<and> pos_but m' ((q_d q')[i' := Some mv]) n i'"
  using assms
proof (induction "n - i" arbitrary: q m i rule: less_induct)
  case (less i q m)
  have s: "q_setpos q = setpos" using less.prems(2) by (simp add: client_def uses_def)
  have im: "i < max_slots" using less.prems(5,6,7) by (simp add: pos_but_def)
  show ?case
  proof (cases "\<exists>c ce cp. maxchild q m i = Some c \<and> c \<noteq> 0 \<and> arr_get (q_d q) c = Some ce \<and>
      q_getpri q m ce = Some cp \<and> q_cmppri q mp cp")
    case False
    then have "(q', m', i') = (q, m, i)"
      using less.prems(1)
      by (subst (asm) percolate_down_loop.simps) (auto simp: result_simps split: if_splits)
    then show ?thesis using less.prems by simp
  next
    case True
    then obtain c ce cp where c: "maxchild q m i = Some c" "c \<noteq> 0" "arr_get (q_d q) c = Some ce"
      "q_getpri q m ce = Some cp" "q_cmppri q mp cp" by blast
    then obtain m1 where m1: "setpos m ce i = Some m1"
      "percolate_down_loop (q\<lparr>q_d := (q_d q)[i := Some ce]\<rparr>) m1 mp c = Some (q', m', i')"
      using less.prems(1) s by (subst (asm) percolate_down_loop.simps) (auto simp: result_simps arr_simps)
    have cr: "1 \<le> c" "i < c" "c < n" "i \<noteq> c"
      using maxchild_Some_range [OF c(1,2) im] less.prems(3) c(2) by auto
    have "pos_but m1 (((q_d q)[i := Some ce])[c := Some mv]) n c"
      using pos_but_move [OF less.prems(6,4,5) cr(1,3,4) _ m1(1)] c(3) by (simp add: arr_simps)
    then show ?thesis using less.hyps [OF _ m1(2)] less.prems cr by simp
  qed
qed

text \<open>A whole sift stores the position of every element.\<close>

lemma fill_pos:
  assumes "1 \<le> i'" "i' < n" "pos_but m1 (d'[i' := Some mv]) n i'" "setpos m1 mv i' = Some m2"
    and "sifted n V m (d'[i' := Some mv]) m2"
  shows "distinct (map the (inner n (d'[i' := Some mv])))"
    and "\<forall>j\<in>{1..<n}. getpos m2 (the ((d'[i' := Some mv]) ! j)) = Some j"
proof -
  let ?V' = "d'[i' := Some mv]"
  have len: "n \<le> length ?V'" using assms(3) by (simp add: pos_but_def)
  then have "?V' ! i' = Some mv" using assms(2) by simp
  then show "\<forall>j\<in>{1..<n}. getpos m2 (the (?V' ! j)) = Some j"
    using pos_but_fill [OF assms(3,1,2) _ assms(4)] by simp
  have "x \<noteq> None" if "x \<in> set (inner n ?V')" for x
    using that assms(3) unfolding set_inner [OF len] pos_but_def by auto
  then have "inj_on the (set (inner n ?V'))" by (intro inj_onI) (metis option.collapse)
  moreover have "distinct (inner n ?V')" using assms(3) by (simp add: pos_but_def)
  ultimately show "distinct (map the (inner n ?V'))" by (simp add: distinct_map)
qed

lemma sift_positions:
  assumes "client q" and "1 \<le> i'" "i' < q_size q"
    and "pos_but m1 (d'[i' := Some mv]) (q_size q) i'" "setpos m1 mv i' = Some m2"
    and "sifted (q_size q) V m (d'[i' := Some mv]) m2"
  shows "positions_ok (q\<lparr>q_d := d'[i' := Some mv]\<rparr>) m2"
  using fill_pos [OF assms(2-6)] assms(1) by (simp add: positions_ok_def elems_def client_def)

lemma bubble_up_client:
  assumes "client q" and "arr_live live (q_size q) (q_d q) m" and "1 \<le> i" and "i < q_size q"
    and "up_ok cmppri (pkey getpri m (q_d q)) (q_size q) i" and "pos_but m (q_d q) (q_size q) i"
  shows "\<exists>d' m'. bubble_up q m i = Some (q\<lparr>q_d := d'\<rparr>, m') \<and> sifted (q_size q) (q_d q) m d' m' \<and>
    positions_ok (q\<lparr>q_d := d'\<rparr>) m'"
proof -
  obtain mv mp d' m1 i' m2 where r: "q_d q ! i = Some mv"
    "bubble_up_loop q m mp i = Some (q\<lparr>q_d := d'\<rparr>, m1, i')" "setpos m1 mv i' = Some m2"
    "bubble_up q m i = Some (q\<lparr>q_d := d'[i' := Some mv]\<rparr>, m2)"
    "sifted (q_size q) (q_d q) m (d'[i' := Some mv]) m2"
    using bubble_up_run [OF client_uses [OF assms(1)] assms(2-5)] by blast
  have "(q_d q)[i := Some mv] = q_d q" using r(1) by (metis list_update_id)
  then have "1 \<le> i' \<and> i' < q_size q \<and> pos_but m1 (d'[i' := Some mv]) (q_size q) i'"
    using bubble_up_loop_pos [OF r(2) assms(1,3,4), of mv] assms(6) by simp
  then show ?thesis using sift_positions [OF assms(1) _ _ _ r(3,5)] r(4,5) by blast
qed

lemma percolate_down_client:
  assumes "client q" and "arr_live live (q_size q) (q_d q) m" and "1 \<le> i" and "i < q_size q"
    and "down_ok cmppri (pkey getpri m (q_d q)) (q_size q) i" and "pos_but m (q_d q) (q_size q) i"
  shows "\<exists>d' m'. percolate_down q m i = Some (q\<lparr>q_d := d'\<rparr>, m') \<and>
    sifted (q_size q) (q_d q) m d' m' \<and> positions_ok (q\<lparr>q_d := d'\<rparr>) m'"
proof -
  obtain mv mp d' m1 i' m2 where r: "q_d q ! i = Some mv"
    "percolate_down_loop q m mp i = Some (q\<lparr>q_d := d'\<rparr>, m1, i')" "setpos m1 mv i' = Some m2"
    "percolate_down q m i = Some (q\<lparr>q_d := d'[i' := Some mv]\<rparr>, m2)"
    "sifted (q_size q) (q_d q) m (d'[i' := Some mv]) m2"
    using percolate_down_run [OF client_uses [OF assms(1)] assms(2-5)] by blast
  have "(q_d q)[i := Some mv] = q_d q" using r(1) by (metis list_update_id)
  then have "1 \<le> i' \<and> i' < q_size q \<and> pos_but m1 (d'[i' := Some mv]) (q_size q) i'"
    using percolate_down_loop_pos [OF r(2) assms(1) refl assms(3,4), of mv] assms(6)
      arr_live_length [OF assms(2)] by simp
  then show ?thesis using sift_positions [OF assms(1) _ _ _ r(3,5)] r(4,5) by blast
qed

lemma positions_pos_but:
  assumes "client q" and "client_inv lim live q m"
  shows "pos_but m (q_d q) (q_size q) h"
proof -
  have live: "arr_live live (q_size q) (q_d q) m" and p: "positions_ok q m" "q_size q \<le> lim"
    using assms(2) by (simp_all add: client_inv_def pq_inv_def slots_ok_def)
  have "distinct (inner (q_size q) (q_d q))"
    using p(1) by (simp add: positions_ok_def elems_def distinct_map)
  moreover have "q_d q ! j \<noteq> None" if "j \<in> {1..<q_size q}" for j
    using arr_liveD [OF live, of j] that by auto
  ultimately show ?thesis
    using p assms(1) arr_live_length [OF live] by (simp add: pos_but_def positions_ok_def client_def)
qed

lemma client_inv_elem:
  assumes "client q" and "client_inv lim live q m" and "x \<in> set (elems q)"
  obtains k where "1 \<le> k" and "k < q_size q" and "q_d q ! k = Some x" and "getpos m x = Some k"
    and "live m x"
proof -
  have live: "arr_live live (q_size q) (q_d q) m" and p: "positions_ok q m"
    using assms(2) by (simp_all add: client_inv_def pq_inv_def slots_ok_def)
  obtain k where k: "1 \<le> k" "k < q_size q" "x = the (q_d q ! k)"
    using assms(3) arr_live_length [OF live] by (auto simp: elems_def set_inner)
  obtain e where "q_d q ! k = Some e" "live m e" using arr_liveD [OF live k(1,2)] by blast
  moreover have "getpos m (the (q_d q ! k)) = Some k"
    using p assms(1) k by (simp add: positions_ok_def client_def)
  ultimately show thesis using k by (intro that [of k]) simp_all
qed

lemma pqueue_insert_client:
  assumes c: "client q" and inv: "client_inv lim live q m" and e: "live m e" "e \<notin> set (elems q)"
    and room: "q_size q + q_step q < max_slots" "q_size q < lim" and g: "pqueue_grow realloc q \<noteq> None"
  shows "\<exists>q' m'. pqueue_insert realloc (Some q) m e = Some (0, Some q', m') \<and>
    insert_post q m e q' m' \<and> client_inv lim live q' m' \<and> client q'"
proof -
  let ?n = "q_size q"
  note u = client_uses [OF c]
  have inv': "pq_inv live q m" using inv by (simp add: client_inv_def)
  obtain d2 where d2: "pqueue_insert realloc (Some q) m e = map_option (\<lambda>(q', m'). (0, Some q', m'))
      (bubble_up (q\<lparr>q_avail := length d2, q_size := q_size q + 1, q_d := d2\<rparr>) m (q_size q))"
    "arr_live live (q_size q + 1) d2 m" "up_ok cmppri (pkey getpri m d2) (q_size q + 1) (q_size q)"
    "inner (q_size q + 1) d2 = inner (q_size q) (q_d q) @ [Some e]"
    "d2 ! ?n = Some e" "\<And>j. j < ?n \<Longrightarrow> d2 ! j = q_d q ! j"
    "q_size q < q_avail q \<longrightarrow> length d2 = length (q_d q)"
    using pqueue_insert_setup [OF u inv' e(1) room(1) g] unfolding Let_def by blast
  let ?q2 = "q\<lparr>q_avail := length d2, q_size := ?n + 1, q_d := d2\<rparr>"
  have n: "1 \<le> ?n" "?n < length d2" using inv' d2(2) by (simp_all add: pq_inv_def capacity_ok_def arr_live_def)
  have pb: "pos_but m (q_d q) ?n 0" using positions_pos_but [OF c inv] .
  have live: "arr_live live ?n (q_d q) m" using inv' by (simp add: pq_inv_def slots_ok_def)
  have "Some e \<notin> set (inner ?n (q_d q))"
    using e(2) unfolding elems_def by force
  then have pb2: "pos_but m d2 (?n + 1) ?n"
    using pb d2(4,5,6) room(2) n by (auto simp: pos_but_def less_Suc_eq)
  obtain d' m' where b: "bubble_up ?q2 m ?n = Some (?q2\<lparr>q_d := d'\<rparr>, m')" "sifted (?n + 1) d2 m d' m'"
    "positions_ok (?q2\<lparr>q_d := d'\<rparr>) m'"
    using bubble_up_client [of ?q2 m ?n] c d2(2,3) pb2 n by auto
  have post: "insert_post q m e (?q2\<lparr>q_d := d'\<rparr>) m'"
    using insert_postI [OF u inv' b(2) d2(4) n(2) d2(7)] by simp
  then have "client_inv lim live (?q2\<lparr>q_d := d'\<rparr>) m'"
    using b(3) room(2) by (simp add: client_inv_def insert_post_def)
  then show ?thesis using d2(1) b(1) post c by auto
qed

text \<open>Overwriting slot \<open>k\<close> by the last one leaves every other position stored.\<close>

lemma drop_last_client:
  fixes q :: "('m, 'e) pqueue_t" and m :: 'm
  defines "n' \<equiv> q_size q - 1"
  assumes c: "client q" and inv: "client_inv lim live q m"
    and k: "1 \<le> k" "k < q_size q" and l: "arr_get (q_d q) n' = Some l"
    and up: "up \<longleftrightarrow> cmppri (pkey getpri m (q_d q) k) (pkey getpri m (q_d q) n')"
  shows "\<exists>d' m'. (if up then bubble_up (q\<lparr>q_size := n', q_d := (q_d q)[k := Some l]\<rparr>) m k
       else percolate_down (q\<lparr>q_size := n', q_d := (q_d q)[k := Some l]\<rparr>) m k) =
      Some (q\<lparr>q_size := n', q_d := d'\<rparr>, m') \<and> sifted n' ((q_d q)[k := Some l]) m d' m' \<and>
      positions_ok (q\<lparr>q_size := n', q_d := d'\<rparr>) m'"
proof -
  let ?d1 = "(q_d q)[k := Some l]"
  let ?q1 = "q\<lparr>q_size := n', q_d := ?d1\<rparr>"
  note u = client_uses [OF c]
  have parts: "slots_ok live q m" "heap_ordered q m" using inv by (simp_all add: client_inv_def pq_inv_def)
  note dl = drop_last_order [OF u parts k, of l, folded n'_def, OF l]
  have live: "arr_live live (q_size q) (q_d q) m" using parts(1) by (simp add: slots_ok_def)
  have live1: "arr_live live (q_size ?q1) (q_d ?q1) m" using dl(3) by simp
  have c1: "client ?q1" using c by (simp add: client_def uses_def)
  have pb: "pos_but m (q_d q) (q_size q) k" using positions_pos_but [OF c inv] .
  have n': "n' < q_size q" "k \<le> n'" using k by (auto simp: n'_def)
  have "mset (inner (q_size q) (q_d q)) = add_mset (q_d q ! k) (mset (inner n' ?d1))"
    using mset_inner_drop_last [OF k, of "q_d q"] arr_live_length [OF live] l
    by (auto simp: n'_def arr_simps)
  moreover have "distinct (inner (q_size q) (q_d q))" using pb by (simp add: pos_but_def)
  ultimately have "distinct (inner n' ?d1)"
    by (metis distinct.simps(2) mset.simps(2) mset_eq_imp_distinct_iff)
  then have pb1: "pos_but m ?d1 n' k"
    using pb n' unfolding pos_but_def by (auto simp: nth_list_update)
  show ?thesis
  proof (cases "k < n'")
    case True
    show ?thesis
    proof (cases up)
      case True
      then show ?thesis using bubble_up_client [OF c1 live1 k(1)] dl(5) \<open>k < n'\<close> up pb1 by auto
    next
      case False
      then show ?thesis using percolate_down_client [OF c1 live1 k(1)] dl(6) \<open>k < n'\<close> up pb1 by auto
    qed
  next
    case False
    then have kn: "k = n'" using n' by simp
    have nup: "\<not> up" using up kn by simp
    have dk: "q_d q ! k = Some l" using l kn by (simp add: arr_simps)
    have d1: "?d1 = q_d q" using dk by (metis list_update_id)
    have "live m l" using arr_liveD [OF live k] dk by auto
    moreover have "arr_get (q_d ?q1) k = Some l" using l kn d1 by simp
    ultimately obtain m' where p: "percolate_down ?q1 m k = Some (?q1, m')" "setpos m l k = Some m'"
      "sifted n' ?d1 m ?d1 m'"
      using percolate_down_end [OF client_uses [OF c1] live1, of k l] kn dl(7) by auto
    have "getpos m' (the (?d1 ! j)) = Some j" if "j \<in> {1..<n'}" for j
    proof -
      have "q_d q ! j \<noteq> None" "getpos m (the (q_d q ! j)) = Some j"
        using pb that n' kn by (auto simp: pos_but_def)
      moreover have "q_d q ! j \<noteq> Some l"
        using inner_inj [of "q_size q" "q_d q" j k] pb that n' kn dk k by (auto simp: pos_but_def)
      ultimately show ?thesis using getpos_setpos_other [OF p(2), of "the (q_d q ! j)"] d1 by auto
    qed
    moreover have "distinct (map the (inner n' ?d1))"
    proof -
      have "mset (elems q) = add_mset (the (q_d q ! k)) (mset (map the (inner n' ?d1)))"
        using dl(4) by simp
      moreover have "distinct (elems q)" using inv by (simp add: client_inv_def positions_ok_def)
      ultimately show ?thesis by (metis distinct.simps(2) mset.simps(2) mset_eq_imp_distinct_iff)
    qed
    ultimately have "positions_ok ?q1 m'" using c by (simp add: positions_ok_def elems_def client_def)
    then show ?thesis using p(1,3) nup by (intro exI [of _ ?d1] exI [of _ m']) simp
  qed
qed

text \<open>What pop and remove promise of the queue they leave.\<close>

definition drop_post :: "('m, 'e) pqueue_t \<Rightarrow> 'm \<Rightarrow> 'e \<Rightarrow> ('m, 'e) pqueue_t \<Rightarrow> 'm \<Rightarrow> bool" where
  "drop_post q m e q' m' \<longleftrightarrow>
     (\<exists>d'. q' = q\<lparr>q_size := q_size q - 1, q_d := d'\<rparr> \<and> length d' = length (q_d q)) \<and>
     client_inv lim live q' m' \<and> frame m m' \<and> mset (elems q) = add_mset e (mset (elems q'))"

lemma drop_postI:
  assumes "client q" and "client_inv lim live q m" and "1 \<le> k" and "k < q_size q" and "2 \<le> q_size q"
    and "arr_get (q_d q) (q_size q - 1) = Some l" and "q_d q ! k = Some e"
    and "sifted (q_size q - 1) ((q_d q)[k := Some l]) m d' m'"
    and "positions_ok (q\<lparr>q_size := q_size q - 1, q_d := d'\<rparr>) m'"
  shows "drop_post q m e (q\<lparr>q_size := q_size q - 1, q_d := d'\<rparr>) m'"
proof -
  let ?n' = "q_size q - 1"
  let ?q' = "q\<lparr>q_size := ?n', q_d := d'\<rparr>"
  note u = client_uses [OF assms(1)]
  have parts: "slots_ok live q m" "heap_ordered q m" "capacity_ok q" "q_size q \<le> lim"
    using assms(2) by (simp_all add: client_inv_def pq_inv_def)
  have "mset (elems q) = add_mset (the (q_d q ! k)) (image_mset the (mset (inner ?n' ((q_d q)[k := Some l]))))"
    using drop_last_order(4) [OF u parts(1,2) assms(3,4,6)] .
  moreover have "?n' \<le> length (q_d q)"
    using parts(1) by (auto simp: slots_ok_def arr_live_def)
  ultimately have "mset (elems q) = add_mset e (mset (elems ?q'))"
    using sifted_mset [OF assms(8)] assms(5,7) by (simp add: mset_elems)
  moreover have "client_inv lim live ?q' m'"
    using assms(5,8,9) parts u
    by (auto simp: client_inv_def pq_inv_def slots_ok_def capacity_ok_def heap_ordered_def sifted_def uses_def)
  ultimately show ?thesis using assms(8) unfolding drop_post_def by (auto simp: sifted_def)
qed

lemma pqueue_pop_client:
  assumes c: "client q" and inv: "client_inv lim live q m" and n: "2 \<le> q_size q"
  shows "\<exists>e q' m'. pqueue_pop (Some q) m = Some (Some e, Some q', m') \<and> drop_post q m e q' m' \<and>
    client q' \<and> e \<in> set (elems q) \<and> pqueue_peek (Some q) = Some (Some e) \<and>
    (\<forall>x\<in>set (elems q). \<not> cmppri (the (getpri m e)) (the (getpri m x)))"
proof -
  let ?n' = "q_size q - 1"
  note u = client_uses [OF c]
  have parts: "slots_ok live q m" "heap_ordered q m" using inv by (simp_all add: client_inv_def pq_inv_def)
  have live: "arr_live live (q_size q) (q_d q) m" using parts(1) by (simp add: slots_ok_def)
  have one: "1 < q_size q" "1 \<le> ?n'" "?n' < q_size q" using n by auto
  obtain e q1 m1 where p: "pqueue_pop (Some q) m = Some (Some e, Some q1, m1)" "q_d q ! 1 = Some e"
    "\<forall>x\<in>set (elems q). \<not> cmppri (the (getpri m e)) (the (getpri m x))"
    "mset (elems q) = add_mset e (mset (elems q1))"
    using pqueue_pop_order [OF u parts n] unfolding Let_def by blast
  obtain l where l: "arr_get (q_d q) ?n' = Some l" using arr_liveD [OF live one(2,3)] by auto
  note dl = drop_last_order [OF u parts _ one(1) l, simplified]
  have heap: "heap_on cmppri (pkey getpri m (q_d q)) (q_size q)"
    using parts(2) u by (simp add: heap_ordered_def uses_def)
  obtain d' m' where s: "percolate_down (q\<lparr>q_size := ?n', q_d := (q_d q)[1 := Some l]\<rparr>) m 1 =
      Some (q\<lparr>q_size := ?n', q_d := d'\<rparr>, m')" "sifted ?n' ((q_d q)[1 := Some l]) m d' m'"
    "positions_ok (q\<lparr>q_size := ?n', q_d := d'\<rparr>) m'"
    using drop_last_client [OF c inv _ one(1) l, of False] root_best [OF heap one(2,3)] by auto
  have e1: "arr_get (q_d q) 1 = Some e"
    using p(2) arr_liveD [OF live _ one(1)] by (metis le_refl option.sel)
  have pk: "pqueue_peek (Some q) = Some (Some e)" using e1 n by (simp add: pqueue_peek_def)
  have "pqueue_pop (Some q) m = Some (Some e, Some (q\<lparr>q_size := ?n', q_d := d'\<rparr>), m')"
    using e1 l dl(1,2) s(1) n by (simp add: pqueue_pop_def)
  moreover have "drop_post q m e (q\<lparr>q_size := ?n', q_d := d'\<rparr>) m'"
    using drop_postI [OF c inv _ one(1) n l p(2) s(2,3)] by simp
  moreover have "client (q\<lparr>q_size := ?n', q_d := d'\<rparr>)" using c by (simp add: client_def uses_def)
  moreover have "e \<in> set (elems q)" using arg_cong [OF p(4), of set_mset] by simp
  ultimately show ?thesis using p(3) pk by blast
qed

lemma pqueue_remove_client:
  assumes c: "client q" and inv: "client_inv lim live q m" and e: "e \<in> set (elems q)"
  shows "\<exists>q' m'. pqueue_remove q m e = Some (0, q', m') \<and> drop_post q m e q' m' \<and> client q'"
proof -
  let ?n' = "q_size q - 1"
  note u = client_uses [OF c]
  have parts: "slots_ok live q m" "heap_ordered q m" using inv by (simp_all add: client_inv_def pq_inv_def)
  have live: "arr_live live (q_size q) (q_d q) m" using parts(1) by (simp add: slots_ok_def)
  obtain k where k: "1 \<le> k" "k < q_size q" "q_d q ! k = Some e" "getpos m e = Some k" "live m e"
    using client_inv_elem [OF c inv e] by blast
  have n: "2 \<le> q_size q" "1 \<le> ?n'" "?n' < q_size q" using k by auto
  obtain l where l: "arr_get (q_d q) ?n' = Some l" "q_d q ! ?n' = Some l"
    "getpri m l = Some (pkey getpri m (q_d q) ?n')"
    using getpri_slot [OF live n(2,3)] by blast
  have pe: "getpri m e = Some (pkey getpri m (q_d q) k)"
    using getpri_live [OF k(5)] k(3) by (auto simp: pkey_def)
  note dl = drop_last_order [OF u parts k(1,2) l(1)]
  let ?up = "cmppri (pkey getpri m (q_d q) k) (pkey getpri m (q_d q) ?n')"
  obtain d' m' where s: "(if ?up then bubble_up (q\<lparr>q_size := ?n', q_d := (q_d q)[k := Some l]\<rparr>) m k
       else percolate_down (q\<lparr>q_size := ?n', q_d := (q_d q)[k := Some l]\<rparr>) m k) =
      Some (q\<lparr>q_size := ?n', q_d := d'\<rparr>, m')" "sifted ?n' ((q_d q)[k := Some l]) m d' m'"
    "positions_ok (q\<lparr>q_size := ?n', q_d := d'\<rparr>) m'"
    using drop_last_client [OF c inv k(1,2) l(1) refl] by blast
  have q: "q_getpos q = getpos" "q_getpri q = getpri" "q_cmppri q = cmppri"
    using c by (simp_all add: client_def uses_def)
  have "pqueue_remove q m e = Some (0, q\<lparr>q_size := ?n', q_d := d'\<rparr>, m')"
    using k(4) l(1,3) dl(1,2) pe s(1) by (cases ?up) (simp_all add: pqueue_remove_def q Let_def)
  moreover have "drop_post q m e (q\<lparr>q_size := ?n', q_d := d'\<rparr>) m'"
    using drop_postI [OF c inv k(1,2) n(1) l(1) k(3) s(2,3)] .
  moreover have "client (q\<lparr>q_size := ?n', q_d := d'\<rparr>)" using c by (simp add: client_def uses_def)
  ultimately show ?thesis by blast
qed

lemma pqueue_change_priority_client:
  assumes c: "client q" and inv: "client_inv lim live q m" and e: "e \<in> set (elems q)"
  shows "\<exists>q' m'. pqueue_change_priority q m p e = Some (q', m') \<and> client_inv lim live q' m' \<and> client q' \<and>
    mset (elems q') = mset (elems q) \<and> q_size q' = q_size q \<and> q_step q' = q_step q \<and>
    (\<forall>x. getpri m' x = (if x = e then Some p else getpri m x) \<and> live m' x = live m x \<and>
       obs m' x = obs m x)"
proof -
  let ?n = "q_size q" and ?d = "q_d q"
  note u = client_uses [OF c]
  have parts: "slots_ok live q m" "heap_ordered q m" "capacity_ok q" "?n \<le> lim"
    using inv by (simp_all add: client_inv_def pq_inv_def)
  have live: "arr_live live ?n ?d m" using parts(1) by (simp add: slots_ok_def)
  obtain k where k: "1 \<le> k" "k < ?n" "?d ! k = Some e" "getpos m e = Some k" "live m e"
    using client_inv_elem [OF c inv e] by blast
  obtain old where old: "getpri m e = Some old" using getpri_live [OF k(5)] by blast
  obtain m1 where m1: "setpri m e p = Some m1" using setpri_live [OF k(5)] by blast
  have m1': "getpri m1 x = (if x = e then Some p else getpri m x)" "getpos m1 x = getpos m x"
    "live m1 x = live m x" "obs m1 x = obs m x" for x
    using getpri_setpri [OF m1] getpos_setpri [OF m1] live_setpri [OF m1] obs_setpri [OF m1] by auto
  have q: "q_getpos q = getpos" "q_getpri q = getpri" "q_cmppri q = cmppri" "q_setpri q = setpri"
    using c by (simp_all add: client_def uses_def)
  have "live m1 = live m" using m1'(3) by (simp add: fun_eq_iff)
  then have live1: "arr_live live ?n ?d m1"
    using live by (auto simp: arr_live_def split: option.splits)
  have pb: "pos_but m ?d ?n k" using positions_pos_but [OF c inv] .
  have pb1: "pos_but m1 ?d ?n k" using pb m1'(2) by (simp add: pos_but_def)
  have heap: "heap_on cmppri (pkey getpri m ?d) ?n" using parts(2) q by (simp add: heap_ordered_def)
  have key: "pkey getpri m1 ?d i = ((pkey getpri m ?d)(k := p)) i" if i: "1 \<le> i" "i < ?n" for i
  proof (cases "i = k")
    case True then show ?thesis using k m1'(1) by (simp add: pkey_def)
  next
    case False
    obtain x where "?d ! i = Some x" using arr_liveD [OF live i] by blast
    moreover have "?d ! i \<noteq> Some e"
      using inner_inj [of ?n ?d i k] pb i k False by (auto simp: pos_but_def)
    ultimately show ?thesis using False m1'(1) by (auto simp: pkey_def)
  qed
  have kk: "pkey getpri m ?d k = old" using k old by (simp add: pkey_def)
  obtain d' m' where b: "(if cmppri old p then bubble_up q m1 k else percolate_down q m1 k) =
      Some (q\<lparr>q_d := d'\<rparr>, m')" "sifted ?n ?d m1 d' m'" "positions_ok (q\<lparr>q_d := d'\<rparr>) m'"
  proof (cases "cmppri old p")
    case True
    have "up_ok cmppri (pkey getpri m1 ?d) ?n k"
      using up_ok_cong [OF change_up [OF heap k(1,2)] k(2) key] True kk by simp
    then show thesis using that True bubble_up_client [OF c live1 k(1,2) _ pb1] by auto
  next
    case False
    have "down_ok cmppri (pkey getpri m1 ?d) ?n k"
      using down_ok_cong [OF change_down [OF heap k(1,2)] k(2) key] False kk by simp
    then show thesis using that False percolate_down_client [OF c live1 k(1,2) _ pb1] by auto
  qed
  let ?q' = "q\<lparr>q_d := d'\<rparr>"
  have "pqueue_change_priority q m p e = Some (?q', m')"
    using old m1 k(4) m1'(2) b(1) by (simp add: pqueue_change_priority_def q)
  moreover have "client_inv lim live ?q' m'"
    using b(2,3) parts q
    by (auto simp: client_inv_def pq_inv_def slots_ok_def capacity_ok_def heap_ordered_def sifted_def)
  moreover have "mset (elems ?q') = mset (elems q)"
    using sifted_mset [OF b(2)] arr_live_length [OF live] by (simp add: mset_elems)
  moreover have "client ?q'" using c by simp
  moreover have "getpri m' x = (if x = e then Some p else getpri m x) \<and> live m' x = live m x \<and>
      obs m' x = obs m x" for x
    using b(2) m1' by (auto simp: sifted_def frame_def)
  moreover have "q_size ?q' = q_size q \<and> q_step ?q' = q_step q" by simp
  ultimately show ?thesis by blast
qed

text \<open>A fresh queue is empty and well formed.\<close>

lemma pqueue_init_client:
  assumes "alloc sizeof_pqueue" and "alloc (8 * (n + 1))" and "n + 1 < max_slots" and "1 \<le> lim"
  shows "\<exists>q. pqueue_init alloc n cmppri getpri setpri getpos setpos = Some q \<and> client q \<and>
    client_inv lim live q m \<and> elems q = [] \<and> q_size q = 1 \<and> q_avail q = n + 1 \<and> q_step q = n + 1"
proof -
  have "(n + 1) mod size_modulus = n + 1" "(n + 1) * 8 mod size_modulus = 8 * (n + 1)"
    using assms(3) by (simp_all add: max_slots_def size_modulus_def)
  then have "pqueue_init alloc n cmppri getpri setpri getpos setpos =
      Some \<lparr>q_size = 1, q_avail = n + 1, q_step = n + 1, q_cmppri = cmppri, q_getpri = getpri,
        q_setpri = setpri, q_getpos = getpos, q_setpos = setpos, q_d = replicate (n + 1) None\<rparr>"
    using assms(1,2) by (simp add: pqueue_init_def Let_def del: replicate.simps)
  then show ?thesis using assms(3,4)
    by (simp add: client_def uses_def client_inv_def pq_inv_def slots_ok_def arr_live_def
        capacity_ok_def heap_ordered_def positions_ok_def elems_def max_slots_def)
qed

end

end
