(* ===== verification/SwapContext.thy ===== *)
theory SwapContext
  imports Prelude
begin

text \<open>
  The context switch of \<open>cpu/my_coroutine.c\<close>: the x86-64 routine \<open>swap_context\<close>, instruction by
  instruction, on a machine with the registers it names.  Memory is cells of eight bytes; every
  access of the routine is a \<open>quad\<close> access, and one at an address that is not a multiple of eight
  is outside the model (\<open>None\<close>).
\<close>

section \<open>The machine\<close>

datatype reg = RAX | RCX | RDX | RBX | RSP | RBP | RSI | RDI | R12 | R13 | R14 | R15

record cpu =
  regs :: "reg \<Rightarrow> u64"
  rip :: u64
  mem :: "u64 \<Rightarrow> u64"

text \<open>Operands in the AT\&T order of the source.\<close>

datatype instr =
    Load u64 reg reg    \<comment> \<open>\<open>mov disp(base), dst\<close>\<close>
  | Lea u64 reg reg     \<comment> \<open>\<open>lea disp(base), dst\<close>\<close>
  | Store reg u64 reg   \<comment> \<open>\<open>mov src, disp(base)\<close>\<close>
  | Mov reg reg         \<comment> \<open>\<open>mov src, dst\<close>\<close>
  | Jmp reg             \<comment> \<open>\<open>jmpq *src\<close>\<close>

definition aligned8 :: "u64 \<Rightarrow> bool" where
  "aligned8 a \<longleftrightarrow> unat a mod 8 = 0"

fun exec_instr :: "instr \<Rightarrow> cpu \<Rightarrow> cpu option" where
  "exec_instr (Load disp base dst) s =
     (let a = regs s base + disp in
      if aligned8 a then Some (s\<lparr>regs := (regs s)(dst := mem s a)\<rparr>) else None)"
| "exec_instr (Lea disp base dst) s = Some (s\<lparr>regs := (regs s)(dst := regs s base + disp)\<rparr>)"
| "exec_instr (Store src disp base) s =
     (let a = regs s base + disp in
      if aligned8 a then Some (s\<lparr>mem := (mem s)(a := regs s src)\<rparr>) else None)"
| "exec_instr (Mov src dst) s = Some (s\<lparr>regs := (regs s)(dst := regs s src)\<rparr>)"
| "exec_instr (Jmp src) s = Some (s\<lparr>rip := regs s src\<rparr>)"

fun exec_code :: "instr list \<Rightarrow> cpu \<Rightarrow> cpu option" where
  "exec_code [] s = Some s"
| "exec_code (i # is) s = do { s' \<leftarrow> exec_instr i s; exec_code is s' }"

section \<open>The routine\<close>

definition swap_context_code :: "instr list" where
  "swap_context_code =
    [Load 0x00 RSP RDX,
     Lea 0x08 RSP RCX,
     Store R12 0x00 RDI,
     Store R13 0x08 RDI,
     Store R14 0x10 RDI,
     Store R15 0x18 RDI,
     Store RDX 0x20 RDI,
     Store RCX 0x28 RDI,
     Store RBX 0x30 RDI,
     Store RBP 0x38 RDI,
     Load 0x00 RSI R12,
     Load 0x08 RSI R13,
     Load 0x10 RSI R14,
     Load 0x18 RSI R15,
     Load 0x20 RSI RAX,
     Load 0x28 RSI RCX,
     Load 0x30 RSI RBX,
     Load 0x38 RSI RBP,
     Mov RCX RSP,
     Jmp RAX]"

text \<open>The C call \<open>swap_context(from_co, to_co)\<close> whose return address is \<open>ret\<close>.\<close>

definition swap_context :: "u64 \<Rightarrow> u64 \<Rightarrow> u64 \<Rightarrow> cpu \<Rightarrow> cpu option" where
  "swap_context ret from_co to_co s =
     (let sp = regs s RSP - 8 in
      if aligned8 sp then
        exec_code swap_context_code
          (s\<lparr>regs := (regs s)(RSP := sp, RDI := from_co, RSI := to_co), mem := (mem s)(sp := ret)\<rparr>)
      else None)"

text \<open>The fields of a \<open>struct cpu_context\<close> at \<open>a\<close>: what \<open>reg[i]\<close> holds.\<close>

definition ctx_reg :: "cpu \<Rightarrow> u64 \<Rightarrow> nat \<Rightarrow> u64" where
  "ctx_reg s a i = mem s (a + 8 * of_nat i)"

text \<open>The cells of the context at \<open>a\<close>; two contexts apart, and a cell outside one.\<close>

definition ctx_cells :: "u64 \<Rightarrow> u64 list" where
  "ctx_cells a = map (\<lambda>i. a + 8 * of_nat i) [0..<8]"

definition ctx_apart :: "u64 \<Rightarrow> u64 \<Rightarrow> bool" where
  "ctx_apart a b \<longleftrightarrow> list_all (\<lambda>p. p \<notin> set (ctx_cells b)) (ctx_cells a)"

definition ctx_off :: "u64 \<Rightarrow> u64 \<Rightarrow> bool" where
  "ctx_off a p \<longleftrightarrow> p \<notin> set (ctx_cells a)"

text \<open>The context at \<open>a\<close> in memory describes the caller state \<open>s\<close> with return address \<open>ret\<close>.\<close>

definition ctx_of_caller :: "cpu \<Rightarrow> u64 \<Rightarrow> u64 \<Rightarrow> cpu \<Rightarrow> bool" where
  "ctx_of_caller s' a ret s \<longleftrightarrow>
     map (ctx_reg s' a) [0..<8] =
     [regs s R12, regs s R13, regs s R14, regs s R15, ret, regs s RSP, regs s RBX, regs s RBP]"

text \<open>The registers a called function keeps for its caller, the stack pointer apart.\<close>

definition callee_saved :: "reg list" where
  "callee_saved = [R12, R13, R14, R15, RBX, RBP]"

lemma aligned8_add [simp]: "aligned8 a \<Longrightarrow> aligned8 b \<Longrightarrow> aligned8 (a + b)"
proof -
  assume "aligned8 a" "aligned8 b"
  then have "(unat a + unat b) mod 8 = 0" by (simp add: aligned8_def mod_add_left_eq [symmetric])
  then show ?thesis by (simp add: aligned8_def unat_word_ariths mod_mod_cancel)
qed

lemma aligned8_disp [simp]: "aligned8 a \<Longrightarrow> aligned8 (a + 8 * of_nat i)"
proof (rule aligned8_add)
  show "aligned8 (8 * of_nat i)" by (simp add: aligned8_def unat_word_ariths mod_mod_cancel)
qed

lemmas aligned8_offsets =
  aligned8_disp [of a 1 for a, simplified] aligned8_disp [of a 2 for a, simplified]
  aligned8_disp [of a 3 for a, simplified] aligned8_disp [of a 4 for a, simplified]
  aligned8_disp [of a 5 for a, simplified] aligned8_disp [of a 6 for a, simplified]
  aligned8_disp [of a 7 for a, simplified]

text \<open>What the switch does, in one equation: save in \<open>from_co\<close>, then load from \<open>to_co\<close>.\<close>

definition saved_mem :: "u64 \<Rightarrow> u64 \<Rightarrow> cpu \<Rightarrow> u64 \<Rightarrow> u64" where
  "saved_mem ret a s =
     (mem s)(regs s RSP - 8 := ret,
        a := regs s R12, a + 8 := regs s R13, a + 16 := regs s R14, a + 24 := regs s R15,
        a + 32 := ret, a + 40 := regs s RSP, a + 48 := regs s RBX, a + 56 := regs s RBP)"

lemma exec_code_append: "exec_code (xs @ ys) s = do { s' \<leftarrow> exec_code xs s; exec_code ys s' }"
proof (induction xs arbitrary: s)
  case (Cons i xs)
  then show ?case by (cases "exec_instr i s") simp_all
qed simp

lemma save_part:
  assumes "aligned8 (regs s RSP)" and "aligned8 (regs s RDI)"
  shows "exec_code (take 10 swap_context_code) s =
    Some (s\<lparr>regs := (regs s)(RDX := mem s (regs s RSP), RCX := regs s RSP + 8),
      mem := (mem s)(regs s RDI := regs s R12, regs s RDI + 8 := regs s R13,
        regs s RDI + 16 := regs s R14, regs s RDI + 24 := regs s R15,
        regs s RDI + 32 := mem s (regs s RSP), regs s RDI + 40 := regs s RSP + 8,
        regs s RDI + 48 := regs s RBX, regs s RDI + 56 := regs s RBP)\<rparr>)"
  using assms aligned8_offsets [of "regs s RDI"] by (simp add: swap_context_code_def)

lemma restore_part:
  assumes "aligned8 (regs s RSI)"
  shows "exec_code (drop 10 swap_context_code) s =
    Some (s\<lparr>rip := mem s (regs s RSI + 32),
      regs := (regs s)(R12 := mem s (regs s RSI), R13 := mem s (regs s RSI + 8),
        R14 := mem s (regs s RSI + 16), R15 := mem s (regs s RSI + 24),
        RAX := mem s (regs s RSI + 32), RCX := mem s (regs s RSI + 40),
        RBX := mem s (regs s RSI + 48), RBP := mem s (regs s RSI + 56),
        RSP := mem s (regs s RSI + 40))\<rparr>)"
  using assms aligned8_offsets [of "regs s RSI"] by (simp add: swap_context_code_def)

lemma swap_context_eq:
  assumes "aligned8 (regs s RSP - 8)" and "aligned8 a" and "aligned8 b"
  shows "\<exists>s'. swap_context ret a b s = Some s' \<and> mem s' = saved_mem ret a s \<and>
    rip s' = mem s' (b + 32) \<and> regs s' RSP = mem s' (b + 40) \<and>
    regs s' R12 = mem s' b \<and> regs s' R13 = mem s' (b + 8) \<and> regs s' R14 = mem s' (b + 16) \<and>
    regs s' R15 = mem s' (b + 24) \<and> regs s' RBX = mem s' (b + 48) \<and> regs s' RBP = mem s' (b + 56)"
proof -
  let ?s0 = "s\<lparr>regs := (regs s)(RSP := regs s RSP - 8, RDI := a, RSI := b),
      mem := (mem s)(regs s RSP - 8 := ret)\<rparr>"
  obtain s1 where s1: "exec_code (take 10 swap_context_code) ?s0 = Some s1"
    "mem s1 = saved_mem ret a s" "regs s1 RSI = b"
    using save_part [of ?s0] assms(1,2) by (simp add: saved_mem_def)
  have "exec_code swap_context_code ?s0 = exec_code (drop 10 swap_context_code) s1"
    using s1(1) by (metis append_take_drop_id exec_code_append bind.bind_lunit)
  then show ?thesis using assms(1,3) s1(2,3) restore_part [of s1]
    by (simp add: swap_context_def Let_def)
qed

lemma ctx_cells_eq: "ctx_cells a = [a, a + 8, a + 16, a + 24, a + 32, a + 40, a + 48, a + 56]"
  by (simp add: ctx_cells_def upt_rec)

lemma ctx_regs_eq: "map (ctx_reg s a) [0..<8] =
    [mem s a, mem s (a + 8), mem s (a + 16), mem s (a + 24), mem s (a + 32), mem s (a + 40),
     mem s (a + 48), mem s (a + 56)]"
  by (simp add: ctx_reg_def upt_rec)

lemma swap_context_save:
  assumes "swap_context ret a b s = Some s'" and "aligned8 (regs s RSP - 8)" "aligned8 a" "aligned8 b"
  shows "ctx_of_caller s' a ret s"
    and "p \<noteq> regs s RSP - 8 \<Longrightarrow> ctx_off a p \<Longrightarrow> mem s' p = mem s p"
proof -
  have m: "mem s' = saved_mem ret a s" using swap_context_eq [OF assms(2-4), of ret] assms(1) by auto
  show "ctx_of_caller s' a ret s"
    by (simp add: ctx_of_caller_def ctx_regs_eq m saved_mem_def)
  show "mem s' p = mem s p" if "p \<noteq> regs s RSP - 8" "ctx_off a p"
    using that by (simp add: m saved_mem_def ctx_off_def ctx_cells_eq)
qed

lemma swap_context_load:
  assumes "swap_context ret a b s = Some s'" and "aligned8 (regs s RSP - 8)" "aligned8 a" "aligned8 b"
    and "ctx_apart a b" and "ctx_off b (regs s RSP - 8)" and "ctx_of_caller s b ret0 s0"
  shows "rip s' = ret0" and "\<forall>r\<in>insert RSP (set callee_saved). regs s' r = regs s0 r"
proof -
  have keep: "map (ctx_reg s' b) [0..<8] = map (ctx_reg s b) [0..<8]"
    using swap_context_save(2) [OF assms(1-4)] assms(5,6)
    by (auto simp: ctx_regs_eq ctx_apart_def ctx_off_def ctx_cells_eq)
  show "rip s' = ret0" "\<forall>r\<in>insert RSP (set callee_saved). regs s' r = regs s0 r"
    using swap_context_eq [OF assms(2-4), of ret] assms(1,7) keep
    by (auto simp: ctx_of_caller_def ctx_regs_eq callee_saved_def)
qed

section \<open>Properties\<close>

text \<open>Two caller states for the witnesses, with contexts at 0x1000 and 0x2000.\<close>

definition sample_cpu :: "u64 \<Rightarrow> cpu" where
  "sample_cpu sp = \<lparr>regs = (\<lambda>r. if r = RSP then sp else if r = RBX then 7 else 3), rip = 0, mem = (\<lambda>_. 0)\<rparr>"

text \<open>
  A switch away and back is invisible to the caller.  Switch from \<open>a\<close> to \<open>b\<close>, let anything
  run that leaves the context at \<open>a\<close> alone, and switch from \<open>b\<close> to \<open>a\<close>: execution goes on at
  the return address of the first call with its stack pointer (the pushed return address popped)
  and all callee-saved registers as they were, and the context at \<open>b\<close> now describes the second
  caller.
\<close>

theorem swap_context_roundtrip:
  assumes "swap_context ret a b s = Some s1"
    and "aligned8 (regs s RSP - 8)" and "aligned8 a" and "aligned8 b"
    and "map (ctx_reg t a) [0..<8] = map (ctx_reg s1 a) [0..<8]"
    and "aligned8 (regs t RSP - 8)" and "ctx_apart b a" and "ctx_off a (regs t RSP - 8)"
  shows "\<exists>t'. swap_context ret' b a t = Some t' \<and> rip t' = ret \<and>
    (\<forall>r\<in>insert RSP (set callee_saved). regs t' r = regs s r) \<and> ctx_of_caller t' b ret' t"
proof -
  obtain t' where t': "swap_context ret' b a t = Some t'"
    using swap_context_eq [OF assms(6,4,3), of ret'] by blast
  have "ctx_of_caller t a ret s"
    using swap_context_save(1) [OF assms(1-4)] assms(5) by (simp add: ctx_of_caller_def)
  then show ?thesis
    using t' swap_context_load [OF t' assms(6,4,3,7,8)] swap_context_save(1) [OF t' assms(6,4,3)]
    by blast
qed

lemma swap_context_roundtrip_witness:
  "\<exists>s1 t'. swap_context 0x400100 0x1000 0x2000 (sample_cpu 0x8008) = Some s1 \<and>
     swap_context 0x400200 0x2000 0x1000 (s1\<lparr>regs := (regs s1)(RSP := 0x9008)\<rparr>) = Some t' \<and>
     rip t' = 0x400100 \<and> regs t' RSP = 0x8008 \<and> regs t' RBX = 7"
proof -
  have al: "aligned8 (regs (sample_cpu 0x8008) RSP - 8)" "aligned8 0x1000" "aligned8 0x2000"
    "aligned8 (0x9008 - 8)"
    by (simp_all add: aligned8_def sample_cpu_def)
  obtain s1 where s1: "swap_context 0x400100 0x1000 0x2000 (sample_cpu 0x8008) = Some s1"
    using swap_context_eq [where ret = "0x400100", OF al(1-3)] by blast
  let ?t = "s1\<lparr>regs := (regs s1)(RSP := 0x9008)\<rparr>"
  have "map (ctx_reg ?t 0x1000) [0..<8] = map (ctx_reg s1 0x1000) [0..<8]" by (simp add: ctx_reg_def)
  moreover have "ctx_apart 0x2000 0x1000" "ctx_off 0x1000 (0x9008 - 8)"
    by (simp_all add: ctx_apart_def ctx_off_def ctx_cells_eq)
  ultimately show ?thesis
    using swap_context_roundtrip [where t = ?t and ret' = "0x400200", OF s1 al(1-3)] al(4) s1
    by (auto simp: callee_saved_def sample_cpu_def)
qed

text \<open>
  The first switch to a coroutine made by \<open>coroutine_new\<close> (entry 4 of its context is its
  function, entry 5 the end of its stack, \<open>64 + 32768\<close> bytes after the object) enters the
  function; if the object is 16-byte aligned, as \<open>malloc\<close> promises, so is the stack pointer at
  the function's entry, where the ABI lets the function rely on 8 modulo 16.
\<close>

theorem first_switch_stack_alignment:
  assumes "aligned8 (regs s RSP - 8)" and "aligned8 a" and "unat b mod 16 = 0"
    and "ctx_apart a b" and "ctx_off b (regs s RSP - 8)"
    and "ctx_reg s b 4 = func" and "ctx_reg s b 5 = b + 64 + 32 * 1024"
  shows "\<exists>s'. swap_context ret a b s = Some s' \<and> rip s' = func \<and>
    regs s' RSP = b + 64 + 32 * 1024 \<and> unat (regs s' RSP) mod 16 = 0"
proof -
  have "unat b mod 16 mod 8 = 0" using assms(3) by simp
  then have b: "aligned8 b" by (simp add: aligned8_def mod_mod_cancel)
  obtain s' where s': "swap_context ret a b s = Some s'" "rip s' = mem s' (b + 32)"
    "regs s' RSP = mem s' (b + 40)"
    using swap_context_eq [OF assms(1,2) b, of ret] by blast
  have "mem s' (b + 32) = mem s (b + 32)" "mem s' (b + 40) = mem s (b + 40)"
    using swap_context_save(2) [OF s'(1) assms(1,2) b] assms(4,5)
    by (auto simp: ctx_apart_def ctx_off_def ctx_cells_eq)
  then have r: "rip s' = func" "regs s' RSP = b + 0x8040"
    using s'(2,3) assms(6,7) by (simp_all add: ctx_reg_def add.assoc)
  have "unat (b + 0x8040) mod 16 = (unat b + 0x8040) mod 16"
    by (simp add: unat_word_ariths mod_mod_cancel)
  also have "\<dots> = 0" using assms(3) by (simp add: mod_add_left_eq [symmetric])
  finally show ?thesis using s'(1) r by (simp add: add.assoc)
qed

lemma first_switch_stack_alignment_witness:
  "\<exists>s'. swap_context 0x400100 0x1000 0x2000
      ((sample_cpu 0x8008)\<lparr>mem := (\<lambda>_. 0)(0x2020 := 0x400500, 0x2028 := 0xA040)\<rparr>) = Some s' \<and>
    rip s' = 0x400500 \<and> regs s' RSP = 0xA040"
proof -
  let ?s = "(sample_cpu 0x8008)\<lparr>mem := (\<lambda>_. 0)(0x2020 := 0x400500, 0x2028 := 0xA040)\<rparr>"
  have "aligned8 (regs ?s RSP - 8)" "aligned8 0x1000" "unat (0x2000 :: u64) mod 16 = 0"
    "ctx_apart 0x1000 0x2000" "ctx_off 0x2000 (regs ?s RSP - 8)"
    "ctx_reg ?s 0x2000 4 = 0x400500" "ctx_reg ?s 0x2000 5 = 0x2000 + 64 + 32 * 1024"
    by (simp_all add: aligned8_def sample_cpu_def ctx_apart_def ctx_off_def ctx_cells_eq ctx_reg_def)
  from first_switch_stack_alignment [where ret = "0x400100", OF this] show ?thesis by auto
qed

end
