(* ===== verification/Coroutine.thy ===== *)
theory Coroutine
  imports PQueue SwapContext "HOL-Library.Signed_Division"
begin

text \<open>
  The timer-driven coroutine scheduler of \<open>cpu/my_coroutine.c\<close>, over the priority queue.

  The client memory of the queue is the heap of \<open>struct delay_task\<close> objects; the five callbacks
  of the file work on it and the queue's locales are interpreted on them.  The state of the
  program is a record \<open>world\<close>: the live tasks, the scheduler's queue and current coroutine, the
  coroutines, the number of clock readings made so far and a log of what the coroutines did.  A
  coroutine runs one slice per resume: \<open>foo\<close> and \<open>bar\<close> print and call \<open>delay\<close> in an endless
  loop, so the slice after \<open>delay\<close> returns and the first one are the same code.
\<close>

section \<open>Tasks and the queue's callbacks\<close>

text \<open>
  \<open>expire\<close> is the bit pattern of the \<open>long\<close> field; \<open>pos\<close> the \<open>int\<close> field, \<open>None\<close> while it is
  indeterminate.  Task pointers and coroutine pointers are numbers.
\<close>

record delay_task =
  expire :: u64
  coroutine :: nat
  pos :: "u32 option"

type_synonym task_heap = "nat \<Rightarrow> delay_task option"

definition cmp_pri :: "pqueue_pri_t \<Rightarrow> pqueue_pri_t \<Rightarrow> bool" where
  "cmp_pri next cur \<longleftrightarrow> next > cur"

definition get_pri :: "task_heap \<Rightarrow> nat \<Rightarrow> pqueue_pri_t option" where
  "get_pri h a = map_option expire (h a)"

definition set_pri :: "task_heap \<Rightarrow> nat \<Rightarrow> pqueue_pri_t \<Rightarrow> task_heap option" where
  "set_pri h a pri = map_option (\<lambda>t. h(a \<mapsto> t\<lparr>expire := pri\<rparr>)) (h a)"

text \<open>The \<open>int\<close> position is converted to \<open>size_t\<close> with its sign extended, and back by truncation.\<close>

definition get_pos :: "task_heap \<Rightarrow> nat \<Rightarrow> nat option" where
  "get_pos h a = do { t \<leftarrow> h a; p \<leftarrow> pos t; Some (unat (scast p :: u64)) }"

definition set_pos :: "task_heap \<Rightarrow> nat \<Rightarrow> nat \<Rightarrow> task_heap option" where
  "set_pos h a p = map_option (\<lambda>t. h(a \<mapsto> t\<lparr>pos := Some (word_of_nat p)\<rparr>)) (h a)"

definition task_live :: "task_heap \<Rightarrow> nat \<Rightarrow> bool" where
  "task_live h a \<longleftrightarrow> h a \<noteq> None"

definition pos_limit :: nat where
  "pos_limit = 2 ^ 31"

lemma int_pos_roundtrip:
  assumes "i < pos_limit"
  shows "unat (scast (word_of_nat i :: u32) :: u64) = i"
proof -
  have "signed_take_bit 31 (int i) = int i"
    using assms by (simp add: signed_take_bit_int_eq_self pos_limit_def)
  then have "sint (word_of_nat i :: u32) = int i"
    by (simp add: signed_of_nat)
  then have "(scast (word_of_nat i :: u32) :: u64) = word_of_nat i"
    by (simp add: scast_eq)
  then show ?thesis using assms by (simp add: unat_of_nat pos_limit_def)
qed

definition task_coroutine :: "task_heap \<Rightarrow> nat \<Rightarrow> nat option" where
  "task_coroutine h a = map_option coroutine (h a)"

interpretation delay_queue:
  pq_client cmp_pri get_pri set_pos task_live task_coroutine set_pri get_pos pos_limit
  by unfold_locales
    (auto simp: cmp_pri_def get_pri_def set_pos_def task_live_def set_pri_def get_pos_def
      task_coroutine_def int_pos_roundtrip split: if_splits)

section \<open>The program's state\<close>

datatype co_func = Foo | Bar

text \<open>A coroutine: its context's entries 4 (where it starts) and 5 (its stack pointer), its \<open>func\<close>.\<close>

record coroutine_t =
  co_reg4 :: co_func
  co_reg5 :: nat
  co_func :: co_func

text \<open>What the program did: lines printed, tasks put to sleep and tasks woken.\<close>

datatype event =
    PrintFoo int u32        \<comment> \<open>\<open>[foo] run: \<close>seconds, counter\<close>
  | PrintBar int
  | Slept nat u64           \<comment> \<open>coroutine, \<open>expire\<close>\<close>
  | Woke nat u64 u64        \<comment> \<open>coroutine, \<open>expire\<close>, the reading of the clock that woke it\<close>

record world =
  tasks :: task_heap
  sched_queue :: "(task_heap, nat) pqueue_t option"
  sched_current :: "nat option"
  coros :: "nat \<Rightarrow> coroutine_t option"
  readings :: nat
  foo_i :: u32
  log :: "event list"

text \<open>
  The C library and the clock: where \<open>malloc\<close> puts a task or a coroutine (\<open>None\<close>: NULL), which
  byte counts the queue's \<open>malloc\<close> and \<open>realloc\<close> get, and the \<open>n\<close>-th reading of
  \<open>gettimeofday\<close>, in seconds and microseconds.
\<close>

record environment =
  e_malloc_task :: "task_heap \<Rightarrow> nat option"
  e_malloc_co :: "(nat \<Rightarrow> coroutine_t option) \<Rightarrow> nat option"
  e_malloc :: "nat \<Rightarrow> bool"
  e_realloc :: "nat \<Rightarrow> bool"
  e_time :: "nat \<Rightarrow> int \<times> int"

section \<open>Operations\<close>

definition now :: "environment \<Rightarrow> world \<Rightarrow> u64 \<times> world" where
  "now env w = (case e_time env (readings w) of (tv_sec, tv_usec) \<Rightarrow>
     (word_of_int (tv_sec * 1000 + tv_usec sdiv 1000), w\<lparr>readings := readings w + 1\<rparr>))"

definition sizeof_schedule :: nat where
  "sizeof_schedule = 80"

text \<open>\<open>coroutine_init\<close> checks neither allocation; the validity check reads the queue.\<close>

definition coroutine_init :: "environment \<Rightarrow> world \<Rightarrow> world option" where
  "coroutine_init env w =
     (if \<not> e_malloc env sizeof_schedule then None
      else do {
        q \<leftarrow> pqueue_init (e_malloc env) 100 cmp_pri get_pri set_pri get_pos set_pos;
        valid \<leftarrow> pqueue_is_valid q (tasks w);
        Some (w\<lparr>sched_queue := Some q\<rparr>)
      })"

definition STACK_SIZE :: nat where
  "STACK_SIZE = 32 * 1024"

text \<open>The stack array follows the 64 bytes of the context.\<close>

definition coroutine_new :: "environment \<Rightarrow> co_func \<Rightarrow> world \<Rightarrow> (nat \<times> world) option" where
  "coroutine_new env func w = do {
     c \<leftarrow> e_malloc_co env (coros w);
     Some (c, w\<lparr>coros := (coros w)(c \<mapsto>
       \<lparr>co_reg4 = func, co_reg5 = c + 64 + STACK_SIZE, co_func = func\<rparr>)\<rparr>)
   }"

text \<open>
  \<open>delay\<close> ends in \<open>coroutine_yield\<close>, which switches to the main context: the slice is over.  The
  result of the insert is not looked at.
\<close>

definition delay :: "environment \<Rightarrow> int \<Rightarrow> world \<Rightarrow> world option" where
  "delay env ms w = do {
     a \<leftarrow> e_malloc_task env (tasks w);
     let (t, w1) = now env w;
     let ex = word_of_int ms + t;
     co \<leftarrow> sched_current w1;
     let task = \<lparr>expire = ex, coroutine = co, pos = None\<rparr>;
     (r, q, h) \<leftarrow> pqueue_insert (e_realloc env) (sched_queue w1) ((tasks w1)(a \<mapsto> task)) a;
     Some (w1\<lparr>tasks := h, sched_queue := q, log := log w1 @ [Slept co ex]\<rparr>)
   }"

definition foo_slice :: "environment \<Rightarrow> world \<Rightarrow> world option" where
  "foo_slice env w =
     (let (t, w1) = now env w; i = foo_i w1 + 1 in
      delay env 3000 (w1\<lparr>foo_i := i, log := log w1 @ [PrintFoo (sint t sdiv 1000) i]\<rparr>))"

definition bar_slice :: "environment \<Rightarrow> world \<Rightarrow> world option" where
  "bar_slice env w =
     (let (t, w1) = now env w in
      delay env 1000 (w1\<lparr>log := log w1 @ [PrintBar (sint t sdiv 1000)]\<rparr>))"

text \<open>
  \<open>coroutine_resume\<close> makes \<open>co\<close> current and switches to its context, which starts or continues
  its function; the slice runs until the function yields.
\<close>

definition coroutine_resume :: "environment \<Rightarrow> nat \<Rightarrow> world \<Rightarrow> world option" where
  "coroutine_resume env co w = do {
     c \<leftarrow> coros w co;
     let w1 = w\<lparr>sched_current := Some co\<rparr>;
     (case co_reg4 c of Foo \<Rightarrow> foo_slice env w1 | Bar \<Rightarrow> bar_slice env w1)
   }"

text \<open>
  One turn of \<open>eventloop\<close>: a pass through the body of the inner loop, or, when the inner loop's
  condition fails or it breaks, the way back to it through the outer loop.
\<close>

definition eventloop_step :: "environment \<Rightarrow> world \<Rightarrow> world option" where
  "eventloop_step env w = do {
     q \<leftarrow> sched_queue w;
     if pqueue_size q > 0 then do {
       top \<leftarrow> pqueue_peek (Some q);
       case top of
         None \<Rightarrow> Some w
       | Some a \<Rightarrow> do {
           let (t, w1) = now env w;
           item \<leftarrow> tasks w1 a;
           if sint t > sint (expire item) then do {
             (top', q', h') \<leftarrow> pqueue_pop (sched_queue w1) (tasks w1);
             a' \<leftarrow> top';
             item' \<leftarrow> h' a';
             let c = coroutine item';
             coroutine_resume env c
               (w1\<lparr>tasks := h'(a' := None), sched_queue := q',
                  log := log w1 @ [Woke c (expire item') t]\<rparr>)
           } else Some w1
         }
     } else Some w
   }"

fun eventloop_turns :: "environment \<Rightarrow> nat \<Rightarrow> world \<Rightarrow> world option" where
  "eventloop_turns env 0 w = Some w"
| "eventloop_turns env (Suc n) w = do { w' \<leftarrow> eventloop_turns env n w; eventloop_step env w' }"

text \<open>\<open>main\<close> up to the event loop, from a world in which nothing was allocated.\<close>

definition start_world :: world where
  "start_world = \<lparr>tasks = Map.empty, sched_queue = None, sched_current = None, coros = Map.empty,
     readings = 0, foo_i = 0, log = []\<rparr>"

definition main_start :: "environment \<Rightarrow> world option" where
  "main_start env = do {
     w0 \<leftarrow> coroutine_init env start_world;
     (c1, w1) \<leftarrow> coroutine_new env Foo w0;
     (c2, w2) \<leftarrow> coroutine_new env Bar w1;
     w3 \<leftarrow> coroutine_resume env c1 w2;
     coroutine_resume env c2 w3
   }"

section \<open>The scheduler's invariant\<close>

definition delay_callbacks :: "(task_heap, nat) pqueue_t \<Rightarrow> bool" where
  "delay_callbacks q \<longleftrightarrow> q_cmppri q = cmp_pri \<and> q_getpri q = get_pri \<and> q_setpri q = set_pri \<and>
     q_getpos q = get_pos \<and> q_setpos q = set_pos"

text \<open>
  The queue is well formed, the live tasks are the queued ones, and every coroutine is either in
  \<open>running\<close> or has exactly one task waiting for it.
\<close>

definition waiting :: "task_heap \<Rightarrow> (task_heap, nat) pqueue_t \<Rightarrow> nat multiset" where
  "waiting h q = image_mset (\<lambda>a. coroutine (the (h a))) (mset (elems q))"

definition sched_inv :: "nat multiset \<Rightarrow> world \<Rightarrow> bool" where
  "sched_inv running w \<longleftrightarrow> finite (dom (coros w)) \<and> card (dom (coros w)) \<le> 100 \<and>
     (case sched_queue w of None \<Rightarrow> False
      | Some q \<Rightarrow> delay_callbacks q \<and> client_inv pos_limit task_live q (tasks w) \<and>
          q_avail q = 101 \<and> q_step q = 101 \<and> dom (tasks w) = set (elems q) \<and>
          waiting (tasks w) q + running = mset_set (dom (coros w)))"

text \<open>
  \<open>malloc\<close> gives an object no live one overlaps and does not run out as long as no more than 100
  tasks and 100 coroutines are live.
\<close>

definition good_env :: "environment \<Rightarrow> bool" where
  "good_env env \<longleftrightarrow>
     (\<forall>h. finite (dom h) \<and> card (dom h) \<le> 100 \<longrightarrow> (\<exists>a. e_malloc_task env h = Some a \<and> h a = None)) \<and>
     (\<forall>h. finite (dom h) \<and> card (dom h) \<le> 100 \<longrightarrow> (\<exists>a. e_malloc_co env h = Some a \<and> h a = None)) \<and>
     (\<forall>n. e_malloc env n)"

lemma delay_callbacks_client: "delay_callbacks q \<longleftrightarrow> delay_queue.client q"
  by (auto simp: delay_callbacks_def delay_queue.client_def delay_queue.uses_def)

lemma elems_slot:
  assumes "slots_ok live q m" and "1 \<le> i" and "i < q_size q"
  shows "the (q_d q ! i) \<in> set (elems q)"
  using assms unfolding slots_ok_def arr_live_def elems_def by (auto simp: set_inner)

text \<open>The queue looks at no task but the queued ones.\<close>

lemma client_inv_heap_cong:
  assumes c: "delay_callbacks q" and inv: "client_inv lim task_live q h"
    and same: "\<And>x. x \<in> set (elems q) \<Longrightarrow> h' x = h x"
  shows "client_inv lim task_live q h'"
proof -
  have slots: "slots_ok task_live q h" using inv by (simp add: client_inv_def pq_inv_def)
  have eq: "h' (the (q_d q ! i)) = h (the (q_d q ! i))" if "1 \<le> i" "i < q_size q" for i
    using same elems_slot [OF slots that] by blast
  have "case q_d q ! i of None \<Rightarrow> False | Some e \<Rightarrow> task_live h' e" if "i \<in> {1..<q_size q}" for i
    using slots eq [of i] that
    by (auto simp: slots_ok_def arr_live_def task_live_def split: option.splits)
  then have "slots_ok task_live q h'" using slots by (simp add: slots_ok_def arr_live_def)
  moreover have "heap_ordered q h'"
    using inv c eq unfolding client_inv_def pq_inv_def heap_ordered_def
    by (auto intro!: heap_on_cong [of _ _ _ "pkey get_pri h' (q_d q)"]
        simp: pkey_def get_pri_def delay_callbacks_def)
  moreover have "positions_ok q h'"
    using inv c eq by (simp add: client_inv_def positions_ok_def delay_callbacks_def get_pos_def)
  ultimately show ?thesis using inv by (simp add: client_inv_def pq_inv_def)
qed

lemma length_elems: "slots_ok live q m \<Longrightarrow> length (elems q) = q_size q - 1"
  by (simp add: elems_def length_inner slots_ok_def arr_live_def)

lemma sched_inv_size:
  assumes "sched_inv running w" and "sched_queue w = Some q"
  shows "1 \<le> q_size q \<and> q_size q + size running \<le> 101"
proof -
  have inv: "client_inv pos_limit task_live q (tasks w)" "card (dom (coros w)) \<le> 100"
    "waiting (tasks w) q + running = mset_set (dom (coros w))"
    using assms by (simp_all add: sched_inv_def)
  have slots: "slots_ok task_live q (tasks w)" using inv(1) by (simp add: client_inv_def pq_inv_def)
  have "size (waiting (tasks w) q) + size running = card (dom (coros w))"
    using arg_cong [OF inv(3), of size] by simp
  moreover have "size (waiting (tasks w) q) = q_size q - 1"
    using length_elems [OF slots] by (simp add: waiting_def)
  moreover have "1 \<le> q_size q" using slots by (simp add: slots_ok_def arr_live_def)
  ultimately show ?thesis using inv(2) by simp
qed

text \<open>Queue operations keep each task's coroutine.\<close>

lemma frame_coroutine:
  assumes "delay_queue.frame h h'"
  shows "dom h' = dom h" and "h a = Some t \<Longrightarrow> coroutine (the (h' a)) = coroutine t"
    and "h a = Some t \<Longrightarrow> expire (the (h' a)) = expire t"
proof -
  have f: "map_option coroutine (h' x) = map_option coroutine (h x)"
    "map_option expire (h' x) = map_option expire (h x)" for x
    using assms unfolding delay_queue.frame_def task_coroutine_def get_pri_def by auto
  have n: "h' x = None \<longleftrightarrow> h x = None" for x using f(1) [of x] by (metis map_option_is_None)
  show "dom h' = dom h" using n by (simp add: dom_def)
  show "h a = Some t \<Longrightarrow> coroutine (the (h' a)) = coroutine t" using f(1) [of a] by auto
  show "h a = Some t \<Longrightarrow> expire (the (h' a)) = expire t" using f(2) [of a] by auto
qed

lemma waiting_frame:
  assumes "delay_queue.frame h h'" and "set (elems q) \<subseteq> dom h"
  shows "waiting h' q = waiting h q"
  unfolding waiting_def
  by (rule image_mset_cong) (use assms(2) frame_coroutine(2) [OF assms(1)] in fastforce)

lemma waiting_mset: "mset (elems q') = mset (elems q) \<Longrightarrow> waiting h q' = waiting h q"
  by (simp add: waiting_def)

lemma now_eq: "now env w = (fst (now env w), w\<lparr>readings := readings w + 1\<rparr>)"
  by (simp add: now_def split: prod.splits)

lemma delay_spec:
  assumes inv: "sched_inv (add_mset c X) w" and cur: "sched_current w = Some c"
    and env: "good_env env"
  shows "\<exists>a w'. delay env ms w = Some w' \<and> sched_inv X w' \<and> coros w' = coros w \<and>
    e_malloc_task env (tasks w) = Some a \<and> tasks w a = None \<and>
    readings w' = readings w + 1 \<and>
    delay_queue.frame ((tasks w)(a \<mapsto>
      \<lparr>expire = word_of_int ms + fst (now env w), coroutine = c, pos = None\<rparr>)) (tasks w') \<and>
    log w' = log w @ [Slept c (word_of_int ms + fst (now env w))]"
proof -
  obtain q where q: "sched_queue w = Some q" "delay_callbacks q"
    "client_inv pos_limit task_live q (tasks w)" "q_avail q = 101" "q_step q = 101"
    "dom (tasks w) = set (elems q)" "waiting (tasks w) q + add_mset c X = mset_set (dom (coros w))"
    using inv by (auto simp: sched_inv_def split: option.splits)
  have size: "1 \<le> q_size q" "q_size q \<le> 100" using sched_inv_size [OF inv q(1)] by simp_all
  have "card (set (elems q)) \<le> q_size q - 1"
    using card_length [of "elems q"] length_elems q(3) by (metis client_inv_def pq_inv_def)
  then have "finite (dom (tasks w))" "card (dom (tasks w)) \<le> 100" using q(6) size by simp_all
  then obtain a where a: "e_malloc_task env (tasks w) = Some a" "tasks w a = None"
    using env by (auto simp: good_env_def)
  define t where "t = fst (now env w)"
  then have t: "now env w = (t, w\<lparr>readings := readings w + 1\<rparr>)" using now_eq by metis
  define ex where "ex = word_of_int ms + t"
  define h where "h = (tasks w)(a \<mapsto> \<lparr>expire = ex, coroutine = c, pos = None\<rparr>)"
  have na: "a \<notin> set (elems q)" using a(2) q(6) by auto
  have same: "h x = tasks w x" if "x \<in> set (elems q)" for x using that na by (auto simp: h_def)
  have inv_h: "client_inv pos_limit task_live q h" by (rule client_inv_heap_cong [OF q(2,3) same])
  have grow: "pqueue_grow (e_realloc env) q = Some q" using q(4) size by (simp add: pqueue_grow_def)
  have cl: "delay_queue.client q" using q(2) by (simp add: delay_callbacks_client)
  have lv: "task_live h a" by (simp add: task_live_def h_def)
  have room: "q_size q + q_step q < max_slots" "q_size q < pos_limit"
    using q(5) size by (simp_all add: max_slots_def pos_limit_def)
  have grow': "pqueue_grow (e_realloc env) q \<noteq> None" using grow by simp
  obtain q' h' where i: "pqueue_insert (e_realloc env) (Some q) h a = Some (0, Some q', h')"
    "delay_queue.insert_post q h a q' h'" "client_inv pos_limit task_live q' h'" "delay_queue.client q'"
    using delay_queue.pqueue_insert_client [OF cl inv_h lv na room grow'] by blast
  have post: "delay_queue.frame h h'" "mset (elems q') = add_mset a (mset (elems q))"
    "q_step q' = q_step q" "q_avail q' = length (q_d q')"
    using i(2) by (auto simp: delay_queue.insert_post_def)
  let ?w' = "w\<lparr>readings := readings w + 1, tasks := h', sched_queue := Some q', log := log w @ [Slept c ex]\<rparr>"
  have d: "delay env ms w = Some ?w'"
    using a(1) t cur q(1) i(1) by (simp add: delay_def Let_def ex_def [symmetric] h_def)
  have domh: "dom h = insert a (set (elems q))" using q(6) by (simp add: h_def)
  have set': "set (elems q') = insert a (set (elems q))"
    using arg_cong [OF post(2), of set_mset] by simp
  have "waiting h' q' = waiting h q'" by (rule waiting_frame [OF post(1)]) (simp add: set' domh)
  also have "\<dots> = add_mset c (waiting h q)" using post(2) by (simp add: waiting_def h_def)
  also have "waiting h q = waiting (tasks w) q"
    unfolding waiting_def by (rule image_mset_cong) (use same in auto)
  finally have wait: "waiting h' q' = add_mset c (waiting (tasks w) q)" .
  have avail: "q_avail q' = 101"
    using i(2) q(3,4) size
    by (auto simp: delay_queue.insert_post_def client_inv_def pq_inv_def capacity_ok_def)
  have "sched_inv X ?w'"
    using inv i(3,4) avail post(3) q(5,7) wait frame_coroutine(1) [OF post(1)] domh set'
    by (simp add: sched_inv_def delay_callbacks_client)
  then show ?thesis using d a t post(1) by (simp add: ex_def h_def)
qed

section \<open>The log\<close>

text \<open>
  A log is right when every wake is of a coroutine that is asleep, for the time it was put to
  sleep until, at a reading of the clock past that time; a coroutine is asleep from \<open>Slept\<close> to
  \<open>Woke\<close>.
\<close>

fun asleep :: "(nat \<Rightarrow> u64 option) \<Rightarrow> event list \<Rightarrow> nat \<Rightarrow> u64 option" where
  "asleep m [] = m"
| "asleep m (Slept c ex # es) = asleep (m(c := Some ex)) es"
| "asleep m (Woke c ex t # es) = asleep (m(c := None)) es"
| "asleep m (e # es) = asleep m es"

fun log_ok :: "(nat \<Rightarrow> u64 option) \<Rightarrow> event list \<Rightarrow> bool" where
  "log_ok m [] = True"
| "log_ok m (Slept c ex # es) = (m c = None \<and> log_ok (m(c := Some ex)) es)"
| "log_ok m (Woke c ex t # es) = (m c = Some ex \<and> sint ex < sint t \<and> log_ok (m(c := None)) es)"
| "log_ok m (e # es) = log_ok m es"

lemma asleep_append [simp]: "asleep m (xs @ ys) = asleep (asleep m xs) ys"
  by (induction m xs rule: asleep.induct) (simp_all del: fun_upd_apply)

lemma log_ok_append [simp]: "log_ok m (xs @ ys) \<longleftrightarrow> log_ok m xs \<and> log_ok (asleep m xs) ys"
  by (induction m xs rule: log_ok.induct) (simp_all del: fun_upd_apply)

text \<open>The sleeping coroutines of the log are those with a task, and until the task's time.\<close>

definition log_inv :: "world \<Rightarrow> bool" where
  "log_inv w \<longleftrightarrow> log_ok Map.empty (log w) \<and>
     (\<forall>c ex. asleep Map.empty (log w) c = Some ex \<longleftrightarrow>
        (\<exists>a t. tasks w a = Some t \<and> coroutine t = c \<and> expire t = ex))"

definition world_ok :: "nat multiset \<Rightarrow> world \<Rightarrow> bool" where
  "world_ok running w \<longleftrightarrow> sched_inv running w \<and> log_inv w"

text \<open>A running coroutine has no task.\<close>

lemma running_no_task:
  assumes "sched_inv (add_mset c X) w" and "tasks w a = Some t"
  shows "coroutine t \<noteq> c"
proof
  assume c: "coroutine t = c"
  obtain q where q: "dom (tasks w) = set (elems q)"
    "waiting (tasks w) q + add_mset c X = mset_set (dom (coros w))"
    using assms(1) by (auto simp: sched_inv_def split: option.splits)
  have "a \<in># mset (elems q)" using assms(2) q(1) by auto
  then have "c \<in># waiting (tasks w) q" using assms(2) c by (force simp: waiting_def)
  then have "2 \<le> count (waiting (tasks w) q + add_mset c X) c" by (simp add: Suc_le_eq)
  then show False unfolding q(2) by (simp add: count_mset_set' split: if_splits)
qed

text \<open>Two tasks never belong to the same coroutine.\<close>

lemma task_unique:
  assumes "sched_inv X w" and "tasks w a = Some t" and "tasks w b = Some u" and "coroutine t = coroutine u"
  shows "a = b"
proof (rule ccontr)
  assume ab: "a \<noteq> b"
  obtain q where q: "dom (tasks w) = set (elems q)" "waiting (tasks w) q + X = mset_set (dom (coros w))"
    using assms(1) by (auto simp: sched_inv_def split: option.splits)
  have "{#a, b#} \<subseteq># mset (elems q)"
    using ab assms(2,3) q(1) by (auto simp: insert_subset_eq_iff in_diff_count)
  then have "image_mset (\<lambda>a. coroutine (the (tasks w a))) {#a, b#} \<subseteq># waiting (tasks w) q"
    unfolding waiting_def by (rule image_mset_subseteq_mono)
  then have "{#coroutine t, coroutine t#} \<subseteq># mset_set (dom (coros w))"
    using assms(2-4) unfolding q(2) [symmetric] by (simp add: subset_mset.add_increasing2)
  then have "count {#coroutine t, coroutine t#} (coroutine t) \<le> count (mset_set (dom (coros w))) (coroutine t)"
    by (rule mset_subset_eq_count)
  then show False by (simp add: count_mset_set' split: if_splits)
qed

lemma frame_task:
  assumes "delay_queue.frame h h'"
  shows "(\<exists>a t. h' a = Some t \<and> coroutine t = c \<and> expire t = ex) \<longleftrightarrow>
    (\<exists>a t. h a = Some t \<and> coroutine t = c \<and> expire t = ex)"
proof -
  have f: "map_option coroutine (h' x) = map_option coroutine (h x)"
    "map_option expire (h' x) = map_option expire (h x)" for x
    using assms unfolding delay_queue.frame_def task_coroutine_def get_pri_def by auto
  have "\<exists>u. h x = Some u \<and> coroutine u = coroutine t \<and> expire u = expire t" if "h' x = Some t" for x t
    using f [of x] that by (cases "h x") auto
  moreover have "\<exists>u. h' x = Some u \<and> coroutine u = coroutine t \<and> expire u = expire t"
    if "h x = Some t" for x t
    using f [of x] that by (cases "h' x") auto
  ultimately show ?thesis by metis
qed

lemma delay_ok:
  assumes ok: "world_ok (add_mset c X) w" and cur: "sched_current w = Some c" and env: "good_env env"
  shows "\<exists>w'. delay env ms w = Some w' \<and> world_ok X w' \<and> coros w' = coros w \<and>
    readings w' = readings w + 1 \<and> log w' = log w @ [Slept c (word_of_int ms + fst (now env w))]"
proof -
  have inv: "sched_inv (add_mset c X) w" "log_inv w" using ok by (simp_all add: world_ok_def)
  let ?ex = "word_of_int ms + fst (now env w)"
  obtain a w' where d: "delay env ms w = Some w'" "sched_inv X w'" "coros w' = coros w"
    "tasks w a = None" "log w' = log w @ [Slept c ?ex]"
    "delay_queue.frame ((tasks w)(a \<mapsto> \<lparr>expire = ?ex, coroutine = c, pos = None\<rparr>)) (tasks w')"
    "readings w' = readings w + 1"
    using delay_spec [OF inv(1) cur env] by blast
  note none = running_no_task [OF inv(1)]
  have "asleep Map.empty (log w) c = None"
    using inv(2) none unfolding log_inv_def by (metis not_Some_eq)
  then have "log_ok Map.empty (log w')" using inv(2) d(5) by (simp add: log_inv_def)
  moreover have "asleep Map.empty (log w') c' = Some e \<longleftrightarrow>
      (\<exists>a t. tasks w' a = Some t \<and> coroutine t = c' \<and> expire t = e)" for c' e
    unfolding frame_task [OF d(6)] ex_object_alloc [where h = "tasks w", OF d(4)] d(5)
    using inv(2) none unfolding log_inv_def by auto
  ultimately have "log_inv w'" by (simp add: log_inv_def)
  then show ?thesis using d(1-3,5,7) by (auto simp: world_ok_def)
qed

lemma log_inv_print:
  assumes "world_ok X w" and "tasks w' = tasks w" "sched_queue w' = sched_queue w" "coros w' = coros w"
    and "log w' = log w @ es" and "es \<in> {[], [PrintFoo s i], [PrintBar s]}"
  shows "world_ok X w'"
proof -
  have "sched_inv X w'" using assms(1) unfolding world_ok_def sched_inv_def assms(2-4) by simp
  moreover have "asleep m (log w @ es) = asleep m (log w)" "log_ok m (log w @ es) = log_ok m (log w)" for m
    using assms(6) by auto
  then have "log_inv w'" using assms(1) unfolding world_ok_def log_inv_def assms(2,5)
    by (simp del: asleep_append log_ok_append)
  ultimately show ?thesis by (simp add: world_ok_def)
qed

text \<open>
  The \<open>k\<close>-th reading of the clock, and what a coroutine logs that is resumed at it: its line with the
  time, and until when it goes to sleep by the next reading.
\<close>

definition reading :: "environment \<Rightarrow> nat \<Rightarrow> u64" where
  "reading env k = (case e_time env k of (tv_sec, tv_usec) \<Rightarrow> word_of_int (tv_sec * 1000 + tv_usec sdiv 1000))"

lemma now_reading: "now env w = (reading env (readings w), w\<lparr>readings := readings w + 1\<rparr>)"
  by (simp add: now_def reading_def split: prod.splits)

definition slice_log :: "environment \<Rightarrow> nat \<Rightarrow> nat \<Rightarrow> event list \<Rightarrow> bool" where
  "slice_log env k c es \<longleftrightarrow> (\<exists>p ms. es = [p, Slept c (word_of_int ms + reading env (k + 1))] \<and>
     ((\<exists>i. p = PrintFoo (sint (reading env k) sdiv 1000) i \<and> ms = 3000) \<or>
      p = PrintBar (sint (reading env k) sdiv 1000) \<and> ms = 1000))"

lemma coroutine_resume_ok:
  assumes ok: "world_ok (add_mset c X) w" and env: "good_env env"
  shows "\<exists>w' es. coroutine_resume env c w = Some w' \<and> world_ok X w' \<and> coros w' = coros w \<and>
    readings w' = readings w + 2 \<and> log w' = log w @ es \<and> slice_log env (readings w) c es"
proof -
  obtain q where q: "waiting (tasks w) q + add_mset c X = mset_set (dom (coros w))"
    and fin: "finite (dom (coros w))"
    using ok by (auto simp: world_ok_def sched_inv_def split: option.splits)
  have "c \<in># mset_set (dom (coros w))" unfolding q [symmetric] by simp
  then have "c \<in> dom (coros w)" using fin by simp
  then obtain co where co: "coros w c = Some co" by blast
  define w1 where "w1 = w\<lparr>sched_current := Some c\<rparr>"
  let ?s = "sint (reading env (readings w)) sdiv 1000"
  have now: "now env w1 = (reading env (readings w), w1\<lparr>readings := readings w + 1\<rparr>)"
    by (simp add: now_reading w1_def)
  have run: "\<exists>w' es. delay env ms w2 = Some w' \<and> world_ok X w' \<and> coros w' = coros w \<and>
      readings w' = readings w + 2 \<and> log w' = log w @ es \<and> slice_log env (readings w) c es"
    if w2: "tasks w2 = tasks w" "sched_queue w2 = sched_queue w" "coros w2 = coros w"
      "sched_current w2 = Some c" "readings w2 = readings w + 1" "log w2 = log w @ [p]"
      "p = PrintFoo ?s i \<and> ms = 3000 \<or> p = PrintBar ?s \<and> ms = 1000" for ms w2 p i
  proof -
    have "world_ok (add_mset c X) w2"
      by (rule log_inv_print [OF ok, of _ "[p]" ?s i]) (use w2 in auto)
    then obtain w' where "delay env ms w2 = Some w'" "world_ok X w'" "coros w' = coros w2"
      "readings w' = readings w2 + 1" "log w' = log w2 @ [Slept c (word_of_int ms + fst (now env w2))]"
      using delay_ok [OF _ w2(4) env] by blast
    then show ?thesis using w2 by (auto simp: slice_log_def now_reading)
  qed
  show ?thesis
  proof (cases "co_reg4 co")
    case Foo
    define w2 where "w2 = w1\<lparr>readings := readings w + 1, foo_i := foo_i w + 1, log := log w @ [PrintFoo ?s (foo_i w + 1)]\<rparr>"
    have "coroutine_resume env c w = delay env 3000 w2"
      using co Foo now by (simp add: coroutine_resume_def w1_def [symmetric] foo_slice_def w2_def Let_def)
        (simp add: w1_def)
    then show ?thesis
      using run [of w2 "PrintFoo ?s (foo_i w + 1)" "foo_i w + 1" 3000] by (simp add: w2_def w1_def)
  next
    case Bar
    define w2 where "w2 = w1\<lparr>readings := readings w + 1, log := log w @ [PrintBar ?s]\<rparr>"
    have "coroutine_resume env c w = delay env 1000 w2"
      using co Bar now by (simp add: coroutine_resume_def w1_def [symmetric] bar_slice_def w2_def Let_def)
        (simp add: w1_def)
    then show ?thesis
      using run [of w2 "PrintBar ?s" 0 1000] by (simp add: w2_def w1_def)
  qed
qed

section \<open>The event loop\<close>

text \<open>
  One turn either leaves everything but the clock alone, or wakes the coroutine of a task no other
  task is before, if that task's time has passed.
\<close>

definition least_task :: "world \<Rightarrow> nat \<Rightarrow> bool" where
  "least_task w a \<longleftrightarrow> tasks w a \<noteq> None \<and>
     (\<forall>b\<in>dom (tasks w). expire (the (tasks w a)) \<le> expire (the (tasks w b)))"

definition turn_idle :: "world \<Rightarrow> world \<Rightarrow> bool" where
  "turn_idle w w' \<longleftrightarrow> tasks w' = tasks w \<and> log w' = log w"

definition turn_wakes :: "environment \<Rightarrow> world \<Rightarrow> world \<Rightarrow> nat \<Rightarrow> bool" where
  "turn_wakes env w w' a \<longleftrightarrow> least_task w a \<and>
     (\<exists>t es. tasks w a = Some t \<and> sint (expire t) < sint (fst (now env w)) \<and>
        log w' = log w @ Woke (coroutine t) (expire t) (fst (now env w)) # es \<and>
        slice_log env (readings w + 1) (coroutine t) es)"

lemma drop_last_world:
  assumes inv: "sched_inv {#} w" and q: "sched_queue w = Some q"
    and post: "delay_queue.drop_post q (tasks w) a q' h'" and t: "tasks w a = Some t"
    and cl: "delay_queue.client q'"
    and log: "log_inv w" and due: "sint (expire t) < sint r"
    and w': "tasks w' = h'(a := None)" "sched_queue w' = Some q'" "coros w' = coros w"
      "log w' = log w @ [Woke (coroutine t) (expire t) r]"
  shows "world_ok {#coroutine t#} w'"
proof -
  have i: "client_inv pos_limit task_live q (tasks w)" "q_avail q = 101" "q_step q = 101"
    "dom (tasks w) = set (elems q)" "waiting (tasks w) q = mset_set (dom (coros w))"
    "finite (dom (coros w))" "card (dom (coros w)) \<le> 100"
    using inv q by (simp_all add: sched_inv_def)
  have p: "client_inv pos_limit task_live q' h'" "delay_queue.frame (tasks w) h'"
    "mset (elems q) = add_mset a (mset (elems q'))" "q_avail q' = 101" "q_step q' = 101"
    using post i(2,3) by (auto simp: delay_queue.drop_post_def)
  have "distinct (elems q)" using i(1) by (simp add: client_inv_def positions_ok_def)
  then have na: "a \<notin> set (elems q')"
    using p(3) by (metis distinct.simps(2) mset.simps(2) mset_eq_imp_distinct_iff)
  have set_q: "set (elems q) = insert a (set (elems q'))" using arg_cong [OF p(3), of set_mset] by simp
  have inv': "client_inv pos_limit task_live q' (h'(a := None))"
    by (rule client_inv_heap_cong [of _ _ h']) (use cl p(1) na in \<open>auto simp: delay_callbacks_client\<close>)
  have "waiting (h'(a := None)) q' = waiting h' q'"
    unfolding waiting_def by (rule image_mset_cong) (use na in auto)
  also have "\<dots> = waiting (tasks w) q'"
    by (rule waiting_frame [OF p(2)]) (use set_q i(4) in auto)
  finally have wait: "add_mset (coroutine t) (waiting (h'(a := None)) q') = mset_set (dom (coros w))"
    using i(5) p(3) t by (simp add: waiting_def)
  have domq: "dom (h'(a := None)) = set (elems q')"
    using frame_coroutine(1) [OF p(2)] i(4) set_q na by auto
  have sched: "sched_inv {#coroutine t#} w'"
    using i(6,7) p(4,5) inv' wait domq cl w' by (simp add: sched_inv_def delay_callbacks_client)
  have "asleep Map.empty (log w) (coroutine t) = Some (expire t)"
    using log t unfolding log_inv_def by blast
  then have "log_ok Map.empty (log w')" using log due w'(4) by (simp add: log_inv_def)
  moreover have "asleep Map.empty (log w') c = Some e \<longleftrightarrow>
      (\<exists>x u. tasks w' x = Some u \<and> coroutine u = c \<and> expire u = e)" for c e
  proof -
    have "(\<exists>x u. tasks w' x = Some u \<and> coroutine u = c \<and> expire u = e) \<longleftrightarrow>
        c \<noteq> coroutine t \<and> (\<exists>x u. h' x = Some u \<and> coroutine u = c \<and> expire u = e)"
    proof
      assume "\<exists>x u. tasks w' x = Some u \<and> coroutine u = c \<and> expire u = e"
      then obtain x u where x: "x \<noteq> a" "h' x = Some u" "coroutine u = c" "expire u = e"
        using w'(1) by (auto split: if_splits)
      have "coroutine u \<noteq> coroutine t"
        using running_no_task [of "coroutine t" "{#}" w' x u] sched x w'(1) by auto
      then show "c \<noteq> coroutine t \<and> (\<exists>x u. h' x = Some u \<and> coroutine u = c \<and> expire u = e)"
        using x by auto
    next
      assume *: "c \<noteq> coroutine t \<and> (\<exists>x u. h' x = Some u \<and> coroutine u = c \<and> expire u = e)"
      then obtain x u where x: "h' x = Some u" "coroutine u = c" "expire u = e" by blast
      have "x \<noteq> a" using frame_coroutine(2) [OF p(2) t] x * by auto
      then show "\<exists>x u. tasks w' x = Some u \<and> coroutine u = c \<and> expire u = e"
        using x w'(1) by auto
    qed
    then show ?thesis unfolding frame_task [OF p(2)] using log w'(4) unfolding log_inv_def by simp
  qed
  ultimately show ?thesis using sched by (simp add: world_ok_def log_inv_def)
qed

definition turn_due :: "environment \<Rightarrow> world \<Rightarrow> bool" where
  "turn_due env w \<longleftrightarrow> (\<exists>a t. least_task w a \<and> tasks w a = Some t \<and>
     sint (expire t) < sint (fst (now env w)))"

lemma least_task_expire:
  assumes "least_task w a" and "tasks w a = Some t" and "least_task w b" and "tasks w b = Some u"
  shows "expire u = expire t"
proof (rule antisym)
  show "expire u \<le> expire t" using assms by (auto simp: least_task_def dest!: bspec [of _ _ a])
  show "expire t \<le> expire u" using assms by (auto simp: least_task_def dest!: bspec [of _ _ b])
qed

text \<open>The parts of a turn: an empty queue, the task that is looked at, a task that is not due, a task that is.\<close>

lemma ok_queue:
  assumes "world_ok {#} w"
  obtains q where "sched_queue w = Some q" "delay_callbacks q" "client_inv pos_limit task_live q (tasks w)"
    "dom (tasks w) = set (elems q)" "slots_ok task_live q (tasks w)" "pqueue_size q = q_size q - 1" "1 \<le> q_size q"
proof -
  obtain q where q: "sched_queue w = Some q" "delay_callbacks q"
    "client_inv pos_limit task_live q (tasks w)" "dom (tasks w) = set (elems q)"
    using assms by (auto simp: world_ok_def sched_inv_def split: option.splits)
  have sched: "sched_inv {#} w" using assms by (simp add: world_ok_def)
  have size: "1 \<le> q_size q" "q_size q \<le> 101" using sched_inv_size [OF sched q(1)] by simp_all
  have "pqueue_size q = q_size q - 1"
    unfolding pqueue_size_def by (rule size_pred) (use size in \<open>simp_all add: max_slots_def\<close>)
  moreover have "slots_ok task_live q (tasks w)" using q(3) by (simp add: client_inv_def pq_inv_def)
  ultimately show thesis using that q size(1) by blast
qed

lemma turn_empty:
  assumes ok: "world_ok {#} w" and q: "sched_queue w = Some q" "q_size q = 1"
  shows "eventloop_step env w = Some w" and "tasks w = Map.empty"
proof -
  obtain q1 where q1: "sched_queue w = Some q1" "dom (tasks w) = set (elems q1)"
    "slots_ok task_live q1 (tasks w)" "pqueue_size q1 = q_size q1 - 1"
    by (rule ok_queue [OF ok])
  then have q1': "q1 = q" using q(1) by simp
  then show "tasks w = Map.empty" using length_elems [OF q1(3)] q1(2) q(2) by auto
  show "eventloop_step env w = Some w" using q q1(4) q1' by (simp add: eventloop_step_def)
qed

lemma turn_task:
  assumes ok: "world_ok {#} w" and q: "sched_queue w = Some q" "q_size q \<noteq> 1"
  obtains a q' h' t t' where "pqueue_pop (Some q) (tasks w) = Some (Some a, Some q', h')"
    "delay_queue.drop_post q (tasks w) a q' h'" "delay_queue.client q'" "pqueue_peek (Some q) = Some (Some a)"
    "tasks w a = Some t" "h' a = Some t'" "coroutine t' = coroutine t" "expire t' = expire t"
    "least_task w a" "pqueue_size q \<noteq> 0"
proof -
  obtain q1 where "sched_queue w = Some q1" and q1: "delay_callbacks q1" "client_inv pos_limit task_live q1 (tasks w)"
    "dom (tasks w) = set (elems q1)" "pqueue_size q1 = q_size q1 - 1" "1 \<le> q_size q1"
    by (rule ok_queue [OF ok])
  then have "q1 = q" using q(1) by simp
  note q1 = q1 [unfolded this]
  have n: "2 \<le> q_size q" using q(2) q1(5) by simp
  have cl: "delay_queue.client q" using q1(1) by (simp add: delay_callbacks_client)
  obtain a q' h' where p: "pqueue_pop (Some q) (tasks w) = Some (Some a, Some q', h')"
    "delay_queue.drop_post q (tasks w) a q' h'" "delay_queue.client q'" "a \<in> set (elems q)"
    "pqueue_peek (Some q) = Some (Some a)"
    "\<forall>x\<in>set (elems q). \<not> cmp_pri (the (get_pri (tasks w) a)) (the (get_pri (tasks w) x))"
    using delay_queue.pqueue_pop_client [OF cl q1(2) n] by blast
  obtain t where t: "tasks w a = Some t" using p(4) q1(3) by blast
  have fr: "delay_queue.frame (tasks w) h'" using p(2) by (simp add: delay_queue.drop_post_def)
  have "a \<in> dom h'" using frame_coroutine(1) [OF fr] t by blast
  then obtain t' where t': "h' a = Some t'" by blast
  have "expire (the (tasks w a)) \<le> expire (the (tasks w b))" if b: "b \<in> dom (tasks w)" for b
  proof -
    obtain u where "tasks w b = Some u" using b by blast
    then show ?thesis using p(6) b q1(3) t by (auto simp: cmp_pri_def get_pri_def)
  qed
  then have "least_task w a" using t by (simp add: least_task_def)
  moreover have "pqueue_size q \<noteq> 0" using q1(4) n by simp
  moreover have "coroutine t' = coroutine t" "expire t' = expire t"
    using frame_coroutine(2,3) [OF fr t] t' by simp_all
  ultimately show thesis using that p(1-3,5) t t' by blast
qed

lemma turn_not_due:
  assumes ok: "world_ok {#} w" and q: "sched_queue w = Some q" "pqueue_peek (Some q) = Some (Some a)" "pqueue_size q \<noteq> 0"
    and t: "tasks w a = Some t" "least_task w a" "\<not> sint (expire t) < sint (fst (now env w))"
  shows "eventloop_step env w = Some (w\<lparr>readings := readings w + 1\<rparr>)"
    and "world_ok {#} (w\<lparr>readings := readings w + 1\<rparr>)" and "\<not> turn_due env w"
proof -
  define r where "r = fst (now env w)"
  then have now: "now env w = (r, w\<lparr>readings := readings w + 1\<rparr>)" using now_eq by metis
  show "eventloop_step env w = Some (w\<lparr>readings := readings w + 1\<rparr>)"
    using q now t(1) t(3) [folded r_def] by (simp add: eventloop_step_def)
  show "world_ok {#} (w\<lparr>readings := readings w + 1\<rparr>)"
    by (rule log_inv_print [OF ok, of _ "[]"]) simp_all
  show "\<not> turn_due env w"
  proof
    assume "turn_due env w"
    then obtain b u where "least_task w b" "tasks w b = Some u" "sint (expire u) < sint (fst (now env w))"
      unfolding turn_due_def by blast
    then show False using t(3) least_task_expire [OF t(2,1)] by metis
  qed
qed

lemma turn_due_task:
  assumes ok: "world_ok {#} w" and env: "good_env env"
    and q: "sched_queue w = Some q" "pqueue_peek (Some q) = Some (Some a)" "pqueue_size q \<noteq> 0"
      "pqueue_pop (Some q) (tasks w) = Some (Some a, Some q', h')" "delay_queue.drop_post q (tasks w) a q' h'" "delay_queue.client q'"
    and t: "tasks w a = Some t" "h' a = Some t'" "coroutine t' = coroutine t" "expire t' = expire t" "least_task w a"
    and due: "sint (expire t) < sint (fst (now env w))"
  shows "\<exists>w'. eventloop_step env w = Some w' \<and> world_ok {#} w' \<and> coros w' = coros w \<and>
    readings w' = readings w + 3 \<and> turn_due env w \<and> turn_wakes env w w' a"
proof -
  define r where "r = fst (now env w)"
  then have now: "now env w = (r, w\<lparr>readings := readings w + 1\<rparr>)" using now_eq by metis
  define w1 where "w1 = w\<lparr>readings := readings w + 1, tasks := h'(a := None),
      sched_queue := Some q', log := log w @ [Woke (coroutine t) (expire t) r]\<rparr>"
  have "world_ok {#coroutine t#} w1"
    by (rule drop_last_world [OF _ q(1,5) t(1) q(6) _ due [folded r_def]])
      (use ok in \<open>simp_all add: w1_def world_ok_def\<close>)
  then obtain w' es where w': "coroutine_resume env (coroutine t) w1 = Some w'"
    "world_ok {#} w'" "coros w' = coros w1" "readings w' = readings w1 + 2" "log w' = log w1 @ es"
    "slice_log env (readings w1) (coroutine t) es"
    using coroutine_resume_ok [OF _ env, of "coroutine t" "{#}" w1] by auto
  have "eventloop_step env w = Some w'"
    using q(1-4) now t(1-4) due [folded r_def] w'(1) by (simp add: eventloop_step_def w1_def Let_def)
  moreover have "turn_wakes env w w' a"
    using t(1,5) due w'(5,6) by (auto simp: turn_wakes_def w1_def r_def)
  moreover have "turn_due env w" using due t(1,5) unfolding turn_due_def by blast
  ultimately show ?thesis using w'(2-4) by (auto simp: w1_def)
qed

lemma eventloop_step_ok:
  assumes ok: "world_ok {#} w" and env: "good_env env"
  shows "\<exists>w'. eventloop_step env w = Some w' \<and> world_ok {#} w' \<and> coros w' = coros w \<and>
    readings w' = readings w + (if turn_due env w then 3 else if tasks w = Map.empty then 0 else 1) \<and>
    (if turn_due env w then \<exists>a. turn_wakes env w w' a else turn_idle w w')"
proof -
  obtain q where q: "sched_queue w = Some q" by (rule ok_queue [OF ok])
  show ?thesis
  proof (cases "q_size q = 1")
    case True
    show ?thesis using turn_empty [OF ok q True] ok
      by (intro exI [of _ w]) (simp add: turn_idle_def turn_due_def least_task_def)
  next
    case False
    obtain a q' h' t t' where p: "pqueue_pop (Some q) (tasks w) = Some (Some a, Some q', h')"
      "delay_queue.drop_post q (tasks w) a q' h'" "delay_queue.client q'" "pqueue_peek (Some q) = Some (Some a)"
      "tasks w a = Some t" "h' a = Some t'" "coroutine t' = coroutine t" "expire t' = expire t"
      "least_task w a" "pqueue_size q \<noteq> 0"
      by (rule turn_task [OF ok q False])
    show ?thesis
    proof (cases "sint (expire t) < sint (fst (now env w))")
      case True
      from turn_due_task [OF ok env q p(4,10,1-3,5-9) True] show ?thesis by auto
    next
      case False
      have "tasks w \<noteq> Map.empty" using p(5) by auto
      then show ?thesis using turn_not_due [OF ok q p(4,10,5,9) False] by (simp add: turn_idle_def)
    qed
  qed
qed

lemma eventloop_turns_ok:
  assumes ok: "world_ok {#} w" and env: "good_env env"
  shows "\<exists>w'. eventloop_turns env n w = Some w' \<and> world_ok {#} w' \<and> coros w' = coros w"
proof (induction n)
  case 0
  show ?case using ok by simp
next
  case (Suc n)
  then obtain w1 where w1: "eventloop_turns env n w = Some w1" "world_ok {#} w1" "coros w1 = coros w"
    by blast
  show ?case using eventloop_step_ok [OF w1(2) env] w1(1,3) by auto
qed

section \<open>Starting up\<close>

lemma coroutine_init_ok:
  assumes env: "good_env env"
  shows "\<exists>w. coroutine_init env start_world = Some w \<and> world_ok {#} w \<and> coros w = Map.empty \<and>
    readings w = 0 \<and> log w = []"
proof -
  have alloc: "e_malloc env n" for n using env by (simp add: good_env_def)
  obtain q where q: "pqueue_init (e_malloc env) 100 cmp_pri get_pri set_pri get_pos set_pos = Some q"
    "delay_queue.client q" "client_inv pos_limit task_live q (Map.empty :: task_heap)" "elems q = []"
    "q_size q = 1" "q_avail q = 101" "q_step q = 101"
    using delay_queue.pqueue_init_client [where alloc = "e_malloc env" and n = 100
        and m = "Map.empty :: task_heap", OF alloc alloc]
    unfolding max_slots_def pos_limit_def by auto
  have "slots_ok task_live q (Map.empty :: task_heap)" using q(3) by (simp add: client_inv_def pq_inv_def)
  then have "pqueue_is_valid q (Map.empty :: task_heap) = Some (heap_ordered q Map.empty)"
    using delay_queue.pqueue_is_valid_order [OF delay_queue.client_uses [OF q(2)]] q(5)
    by (simp add: int_max1_def)
  then have "coroutine_init env start_world = Some (start_world\<lparr>sched_queue := Some q\<rparr>)"
    using alloc q(1) by (simp add: coroutine_init_def start_world_def)
  moreover have "world_ok {#} (start_world\<lparr>sched_queue := Some q\<rparr>)"
    using q by (simp add: world_ok_def sched_inv_def log_inv_def start_world_def waiting_def
        delay_callbacks_client)
  ultimately show ?thesis by (simp add: start_world_def)
qed

lemma coroutine_new_ok:
  assumes ok: "world_ok X w" and env: "good_env env" and few: "card (dom (coros w)) < 100"
  shows "\<exists>c w'. coroutine_new env f w = Some (c, w') \<and> world_ok (add_mset c X) w' \<and>
    readings w' = readings w \<and> log w' = log w \<and> coros w c = None \<and> coros w' = (coros w)(c \<mapsto>
      \<lparr>co_reg4 = f, co_reg5 = c + 64 + STACK_SIZE, co_func = f\<rparr>)"
proof -
  have fin: "finite (dom (coros w))" using ok by (simp add: world_ok_def sched_inv_def)
  then obtain c where c: "e_malloc_co env (coros w) = Some c" "coros w c = None"
    using env few by (auto simp: good_env_def)
  have nd: "c \<notin> dom (coros w)" using c(2) by auto
  let ?cs = "(coros w)(c \<mapsto> \<lparr>co_reg4 = f, co_reg5 = c + 64 + STACK_SIZE, co_func = f\<rparr>)"
  have dom: "mset_set (dom ?cs) = add_mset c (mset_set (dom (coros w)))" "card (dom ?cs) \<le> 100"
    using fin nd few by simp_all
  have "world_ok (add_mset c X) (w\<lparr>coros := ?cs\<rparr>)"
    using ok dom fin by (auto simp: world_ok_def sched_inv_def log_inv_def split: option.splits)
  then show ?thesis using c by (auto simp: coroutine_new_def)
qed

lemma main_start_ok:
  assumes env: "good_env env"
  shows "\<exists>w c1 c2 es1 es2. main_start env = Some w \<and> world_ok {#} w \<and> card (dom (coros w)) = 2 \<and>
    readings w = 4 \<and> log w = es1 @ es2 \<and> slice_log env 0 c1 es1 \<and> slice_log env 2 c2 es2"
proof -
  obtain w0 where w0: "coroutine_init env start_world = Some w0" "world_ok {#} w0" "coros w0 = Map.empty"
    "readings w0 = 0" "log w0 = []"
    using coroutine_init_ok [OF env] by blast
  obtain c1 w1 where w1: "coroutine_new env Foo w0 = Some (c1, w1)" "world_ok {#c1#} w1"
    "coros w1 = [c1 \<mapsto> \<lparr>co_reg4 = Foo, co_reg5 = c1 + 64 + STACK_SIZE, co_func = Foo\<rparr>]"
    "readings w1 = 0" "log w1 = []"
    using coroutine_new_ok [OF w0(2) env, of Foo] w0(3-5) by auto
  obtain c2 w2 where w2: "coroutine_new env Bar w1 = Some (c2, w2)" "world_ok {#c1, c2#} w2"
    "coros w1 c2 = None"
    "coros w2 = (coros w1)(c2 \<mapsto> \<lparr>co_reg4 = Bar, co_reg5 = c2 + 64 + STACK_SIZE, co_func = Bar\<rparr>)"
    "readings w2 = 0" "log w2 = []"
    using coroutine_new_ok [OF w1(2) env, of Bar] w1(3-5) by (auto simp: add_mset_commute)
  obtain w3 es1 where w3: "coroutine_resume env c1 w2 = Some w3" "world_ok {#c2#} w3" "coros w3 = coros w2"
    "readings w3 = 2" "log w3 = es1" "slice_log env 0 c1 es1"
    using coroutine_resume_ok [OF w2(2) env] w2(5,6) by auto
  obtain w4 es2 where w4: "coroutine_resume env c2 w3 = Some w4" "world_ok {#} w4" "coros w4 = coros w3"
    "readings w4 = 4" "log w4 = es1 @ es2" "slice_log env 2 c2 es2"
    using coroutine_resume_ok [OF w3(2) env] w3(4,5) by auto
  have "card (dom (coros w4)) = 2" using w4(3) w3(3) w2(3,4) w1(3) by (simp split: if_splits)
  then show ?thesis using w0(1) w1(1) w2(1) w3(1,6) w4 by (auto simp: main_start_def)
qed

section \<open>Properties\<close>

text \<open>An environment for the witnesses: the clock advances by a second with every reading.\<close>

definition first_free :: "(nat \<Rightarrow> 'a option) \<Rightarrow> nat option" where
  "first_free h = find (\<lambda>a. h a = None) [0..<101]"

definition sample_env :: environment where
  "sample_env = \<lparr>e_malloc_task = first_free, e_malloc_co = first_free, e_malloc = (\<lambda>_. True),
     e_realloc = (\<lambda>_. False), e_time = (\<lambda>n. (int n, 0))\<rparr>"

lemma first_free_ok:
  assumes "finite (dom h)" and "card (dom h) \<le> 100"
  shows "\<exists>a. first_free h = Some a \<and> h a = None"
proof (cases "first_free h")
  case None
  then have "{0..<101} \<subseteq> dom h" by (auto simp: first_free_def find_None_iff)
  then have "card {0..<101::nat} \<le> card (dom h)" using assms(1) by (intro card_mono)
  then show ?thesis using assms(2) by simp
next
  case (Some a)
  then show ?thesis by (auto simp: first_free_def find_Some_iff)
qed

lemma sample_env_good: "good_env sample_env"
  by (simp add: good_env_def sample_env_def first_free_ok)



text \<open>
  C10: What one turn of the event loop does, exactly: if the least task (in the queue's unsigned
  order) has expired by the clock's next reading, some such task is taken out and its coroutine
  runs one slice: it prints its line and goes back to sleep for its time from the clock's reading after
  that; otherwise tasks and log stay as they are.  Either way the turn ends in a state that satisfies the invariant.
\<close>

theorem eventloop_turn:
  assumes "world_ok {#} w" and "good_env env"
  shows "\<exists>w'. eventloop_step env w = Some w' \<and> world_ok {#} w' \<and>
    (if turn_due env w then \<exists>a. turn_wakes env w w' a else turn_idle w w')"
  using eventloop_step_ok [OF assms] by blast

lemma eventloop_turn_witness:
  "\<exists>w w'. main_start sample_env = Some w \<and> eventloop_step sample_env w = Some w' \<and> world_ok {#} w'"
proof -
  obtain w where w: "main_start sample_env = Some w" "world_ok {#} w"
    using main_start_ok [OF sample_env_good] by blast
  then show ?thesis using eventloop_turn [OF w(2) sample_env_good] by blast
qed



end
