(* ===== verification/DelayQueue.thy ===== *)
theory DelayQueue
  imports Coroutine
begin

text \<open>
  The properties of \<open>cpu/pqueue.c\<close>, on the queue of \<open>struct delay_task\<close> objects that
  \<open>cpu/my_coroutine.c\<close> builds with its own five callbacks.  Each is the interpreted locale
  lemma with its promises written out; the witnesses run a small queue.
\<close>

section \<open>The invariant, and a sample queue\<close>

text \<open>
  \<open>delay_inv q h\<close>: the queue \<open>q\<close> uses the file's callbacks; its array holds live, pairwise
  different tasks in heap order and each task's \<open>pos\<close> is its slot.
\<close>

definition delay_inv :: "(task_heap, nat) pqueue_t \<Rightarrow> task_heap \<Rightarrow> bool" where
  "delay_inv q h \<longleftrightarrow> delay_callbacks q \<and> client_inv pos_limit task_live q h"

text \<open>Two heaps with the same tasks: only the stored positions may differ.\<close>

definition same_tasks :: "task_heap \<Rightarrow> task_heap \<Rightarrow> bool" where
  "same_tasks h h' \<longleftrightarrow>
     (\<forall>a. map_option (\<lambda>t. (expire t, coroutine t)) (h' a) = map_option (\<lambda>t. (expire t, coroutine t)) (h a))"

definition task_before :: "task_heap \<Rightarrow> nat \<Rightarrow> nat \<Rightarrow> bool" where
  "task_before h a b \<longleftrightarrow> expire (the (h a)) \<le> expire (the (h b))"

definition sample_heap :: task_heap where
  "sample_heap = [10 \<mapsto> \<lparr>expire = 5, coroutine = 1, pos = Some 1\<rparr>,
     20 \<mapsto> \<lparr>expire = 9, coroutine = 2, pos = Some 2\<rparr>,
     30 \<mapsto> \<lparr>expire = 7, coroutine = 3, pos = Some 3\<rparr>,
     40 \<mapsto> \<lparr>expire = 1, coroutine = 4, pos = None\<rparr>]"

definition sample_queue :: "(task_heap, nat) pqueue_t" where
  "sample_queue = \<lparr>q_size = 4, q_avail = 5, q_step = 5, q_cmppri = cmp_pri, q_getpri = get_pri,
     q_setpri = set_pri, q_getpos = get_pos, q_setpos = set_pos,
     q_d = [None, Some 10, Some 20, Some 30, None]\<rparr>"

lemma delay_inv_client:
  "delay_inv q h \<longleftrightarrow> delay_queue.client q \<and> client_inv pos_limit task_live q h"
  by (simp add: delay_inv_def delay_callbacks_client)

lemma map_option_pair:
  "map_option (\<lambda>t. (f t, g t)) x = map_option (\<lambda>t. (f t, g t)) y \<longleftrightarrow>
     map_option f x = map_option f y \<and> map_option g x = map_option g y"
  by (cases x; cases y) auto

lemma frame_same_tasks: "delay_queue.frame h h' \<Longrightarrow> same_tasks h h'"
proof -
  assume f: "delay_queue.frame h h'"
  have "map_option coroutine (h' a) = map_option coroutine (h a)"
    "map_option expire (h' a) = map_option expire (h a)" for a
    using f unfolding delay_queue.frame_def task_coroutine_def get_pri_def by auto
  then show ?thesis by (auto simp: same_tasks_def map_option_pair)
qed

lemma client_inv_parts:
  assumes "client_inv lim live q h"
  shows "slots_ok live q h" and "heap_ordered q h" and "1 \<le> q_size q"
  using assms by (simp_all add: client_inv_def pq_inv_def slots_ok_def arr_live_def)

lemma elem_task:
  assumes "client_inv lim task_live q h" and "x \<in> set (elems q)"
  obtains t where "h x = Some t"
proof -
  have "arr_live task_live (q_size q) (q_d q) h"
    using client_inv_parts(1) [OF assms(1)] by (simp add: slots_ok_def)
  then have "task_live h x" using assms(2) arr_live_length
    unfolding elems_def by (fastforce simp: set_inner arr_live_def split: option.splits)
  then show thesis using that by (auto simp: task_live_def)
qed

lemma not_cmp_before:
  assumes "client_inv lim task_live q h" and "x \<in> set (elems q)" and "y \<in> set (elems q)"
  shows "\<not> cmp_pri (the (get_pri h x)) (the (get_pri h y)) \<longleftrightarrow> task_before h x y"
proof -
  obtain t u where "h x = Some t" "h y = Some u" using elem_task [OF assms(1)] assms(2,3) by metis
  then show ?thesis by (simp add: cmp_pri_def get_pri_def task_before_def not_less)
qed

lemma sample_elems: "elems sample_queue = [10, 20, 30]"
  by (simp add: elems_def inner_def sample_queue_def numeral_eq_Suc)

lemma sample_size: "q_size sample_queue = 4"
  by (simp add: sample_queue_def)

lemma sample_inv: "delay_inv sample_queue sample_heap"
proof -
  have r: "{Suc 0..<4} = {1, 2, 3}" "{1..<4::nat} = {1, 2, 3}" "{2..<4::nat} = {2, 3}" by auto
  have "slots_ok task_live sample_queue sample_heap"
    unfolding slots_ok_def arr_live_def
    by (simp add: sample_queue_def sample_heap_def task_live_def max_slots_def r)
  moreover have "heap_ordered sample_queue sample_heap"
    unfolding heap_ordered_def heap_on_def
    by (simp add: sample_queue_def sample_heap_def pkey_def get_pri_def cmp_pri_def r)
  moreover have "positions_ok sample_queue sample_heap"
    unfolding positions_ok_def sample_elems
    by (simp add: sample_queue_def sample_heap_def get_pos_def r)
  ultimately show ?thesis
    by (simp add: delay_inv_def delay_callbacks_def client_inv_def pq_inv_def capacity_ok_def
        sample_queue_def pos_limit_def)
qed

section \<open>The operations on the tasks\<close>

text \<open>
  What the locale promises of each operation, in terms of the tasks; also what it leaves of the
  handle's counters, which bound a later insert.
\<close>

lemma elems_nonempty: "delay_inv q h \<Longrightarrow> elems q \<noteq> [] \<longleftrightarrow> 2 \<le> q_size q"
  using client_inv_parts(1,3) length_elems
  by (metis One_nat_def Suc_1 Suc_leI add_diff_inverse_nat delay_inv_client diff_is_0_eq le_antisym
      length_0_conv length_greater_0_conv not_less_eq_eq plus_1_eq_Suc)

lemma delay_pop:
  assumes "delay_inv q h" and "elems q \<noteq> []"
  shows "\<exists>a q' h'. pqueue_pop (Some q) h = Some (Some a, Some q', h') \<and>
    pqueue_peek (Some q) = Some (Some a) \<and>
    (\<forall>b\<in>set (elems q). task_before h a b) \<and> mset (elems q) = add_mset a (mset (elems q')) \<and>
    delay_inv q' h' \<and> same_tasks h h' \<and> q_size q' \<le> q_size q \<and> q_step q' = q_step q"
proof -
  have c: "delay_queue.client q" and inv: "client_inv pos_limit task_live q h"
    using assms(1) by (simp_all add: delay_inv_client)
  have n: "2 \<le> q_size q" using elems_nonempty [OF assms(1)] assms(2) by blast
  obtain a q' h' where p: "pqueue_pop (Some q) h = Some (Some a, Some q', h')"
    "delay_queue.drop_post q h a q' h'" "delay_queue.client q'" "a \<in> set (elems q)"
    "pqueue_peek (Some q) = Some (Some a)"
    "\<forall>x\<in>set (elems q). \<not> cmp_pri (the (get_pri h a)) (the (get_pri h x))"
    using delay_queue.pqueue_pop_client [OF c inv n] by blast
  have "\<forall>b\<in>set (elems q). task_before h a b" using p(4,6) not_cmp_before [OF inv] by blast
  then show ?thesis using p(1-5) unfolding delay_queue.drop_post_def
    by (auto simp: delay_inv_client intro: frame_same_tasks)
qed

lemma grow_fails:
  assumes "q_size q + q_step q < max_slots"
  shows "pqueue_grow realloc q = None \<longleftrightarrow> q_size q \<ge> q_avail q \<and> \<not> realloc (8 * (q_size q + q_step q))"
proof -
  have "q_size q + q_step q < size_modulus" "8 * (q_size q + q_step q) < size_modulus"
    using assms by (simp_all add: max_slots_def size_modulus_def)
  then show ?thesis by (simp add: pqueue_grow_def Let_def)
qed

lemma insert_fails: "pqueue_grow realloc q = None \<Longrightarrow> pqueue_insert realloc (Some q) h a = Some (1, Some q, h)"
  by (simp add: pqueue_insert_def)

lemma delay_insert:
  assumes "delay_inv q h" and "h a \<noteq> None" and "a \<notin> set (elems q)"
    and "q_size q + q_step q < max_slots" and "q_size q < pos_limit" and "pqueue_grow realloc q \<noteq> None"
  shows "\<exists>q' h'. pqueue_insert realloc (Some q) h a = Some (0, Some q', h') \<and> delay_inv q' h' \<and>
    mset (elems q') = add_mset a (mset (elems q)) \<and> same_tasks h h' \<and>
    (q_size q < q_avail q \<longrightarrow> q_avail q' = q_avail q) \<and> q_step q' = q_step q \<and> q_size q' = q_size q + 1"
proof -
  have c: "delay_queue.client q" and inv: "client_inv pos_limit task_live q h"
    using assms(1) by (simp_all add: delay_inv_client)
  have l: "task_live h a" using assms(2) by (simp add: task_live_def)
  have len: "q_avail q = length (q_d q)" using inv by (simp add: client_inv_def pq_inv_def capacity_ok_def)
  obtain q' h' where "pqueue_insert realloc (Some q) h a = Some (0, Some q', h')"
    "delay_queue.insert_post q h a q' h'" "client_inv pos_limit task_live q' h'"
    "delay_queue.client q'"
    using delay_queue.pqueue_insert_client [OF c inv l assms(3-6)] by blast
  then show ?thesis using len unfolding delay_queue.insert_post_def
    by (auto simp: delay_inv_client intro: frame_same_tasks)
qed

lemma delay_remove:
  assumes "delay_inv q h" and "a \<in> set (elems q)"
  shows "\<exists>q' h'. pqueue_remove q h a = Some (0, q', h') \<and> delay_inv q' h' \<and>
    mset (elems q) = add_mset a (mset (elems q')) \<and> same_tasks h h' \<and>
    q_size q' \<le> q_size q \<and> q_step q' = q_step q"
proof -
  have c: "delay_queue.client q" and inv: "client_inv pos_limit task_live q h"
    using assms(1) by (simp_all add: delay_inv_client)
  obtain q' h' where p: "pqueue_remove q h a = Some (0, q', h')"
    "delay_queue.drop_post q h a q' h'" "delay_queue.client q'"
    using delay_queue.pqueue_remove_client [OF c inv assms(2)] by blast
  then show ?thesis unfolding delay_queue.drop_post_def
    by (auto simp: delay_inv_client intro: frame_same_tasks)
qed

lemma delay_change_priority:
  assumes "delay_inv q h" and "a \<in> set (elems q)"
  shows "\<exists>q' h'. pqueue_change_priority q h p a = Some (q', h') \<and> delay_inv q' h' \<and>
    mset (elems q') = mset (elems q) \<and>
    same_tasks (h(a := map_option (\<lambda>t. t\<lparr>expire := p\<rparr>) (h a))) h' \<and>
    q_size q' = q_size q \<and> q_step q' = q_step q"
proof -
  have c: "delay_queue.client q" and inv: "client_inv pos_limit task_live q h"
    using assms(1) by (simp_all add: delay_inv_client)
  obtain q' h' where r: "pqueue_change_priority q h p a = Some (q', h')"
    "client_inv pos_limit task_live q' h'" "delay_queue.client q'" "mset (elems q') = mset (elems q)"
    "q_size q' = q_size q" "q_step q' = q_step q"
    "\<forall>x. get_pri h' x = (if x = a then Some p else get_pri h x) \<and> task_live h' x = task_live h x \<and>
       task_coroutine h' x = task_coroutine h x"
    using delay_queue.pqueue_change_priority_client [OF c inv assms(2)] by blast
  obtain t where t: "h a = Some t" using elem_task [OF inv assms(2)] .
  have "map_option expire (h' x) = map_option expire ((h(a := map_option (\<lambda>t. t\<lparr>expire := p\<rparr>) (h a))) x)"
    "map_option coroutine (h' x) = map_option coroutine ((h(a := map_option (\<lambda>t. t\<lparr>expire := p\<rparr>) (h a))) x)" for x
    using r(7) [rule_format, of x] t by (cases "x = a"; simp add: get_pri_def task_coroutine_def)+
  then have "same_tasks (h(a := map_option (\<lambda>t. t\<lparr>expire := p\<rparr>) (h a))) h'"
    by (simp add: same_tasks_def map_option_pair)
  then show ?thesis using r(1-6) by (auto simp: delay_inv_client)
qed

section \<open>Properties of the queue\<close>

text \<open>
  C2: Pop on a non-empty queue takes out the task the peek shows: a task no other task expires
  before (unsigned order of the bit patterns).  The queue keeps its invariant and exactly the
  other tasks, and no task's \<open>expire\<close> or \<open>coroutine\<close> changes.
\<close>

theorem pqueue_pop_least:
  assumes "delay_inv q h" and "elems q \<noteq> []"
  shows "\<exists>a q' h'. pqueue_pop (Some q) h = Some (Some a, Some q', h') \<and>
    pqueue_peek (Some q) = Some (Some a) \<and>
    (\<forall>b\<in>set (elems q). task_before h a b) \<and> mset (elems q) = add_mset a (mset (elems q')) \<and>
    delay_inv q' h' \<and> same_tasks h h'"
  using delay_pop [OF assms] by blast

lemma pqueue_pop_least_witness:
  "\<exists>a q' h'. pqueue_pop (Some sample_queue) sample_heap = Some (Some a, Some q', h') \<and> a = 10 \<and>
     mset (elems q') = {#20, 30#}"
proof -
  obtain a q' h' where p: "pqueue_pop (Some sample_queue) sample_heap = Some (Some a, Some q', h')"
    "\<forall>b\<in>set (elems sample_queue). task_before sample_heap a b"
    "mset (elems sample_queue) = add_mset a (mset (elems q'))"
    using pqueue_pop_least [OF sample_inv] by (auto simp: sample_elems)
  have m: "add_mset a (mset (elems q')) = {#10, 20, 30#}" using p(3) by (simp add: sample_elems)
  then have "a \<in># {#10, 20, 30#}" by (metis union_single_eq_member add_mset_add_single)
  then have "a = 10" using p(2) by (auto simp: sample_elems task_before_def sample_heap_def)
  then show ?thesis using p(1) m by auto
qed

text \<open>
  C3: Inserting a live task that is not queued: if the array is full and \<open>realloc\<close> fails, the
  result is 1 and nothing has changed; otherwise the result is 0, the queue holds the new task
  besides the old ones, keeps its invariant, and no task's \<open>expire\<close> or \<open>coroutine\<close> changes.
\<close>

theorem pqueue_insert_adds:
  assumes "delay_inv q h" and "h a \<noteq> None" and "a \<notin> set (elems q)"
    and "q_size q + q_step q < max_slots" and "q_size q < pos_limit"
  shows "if q_size q \<ge> q_avail q \<and> \<not> realloc (8 * (q_size q + q_step q))
    then pqueue_insert realloc (Some q) h a = Some (1, Some q, h)
    else \<exists>q' h'. pqueue_insert realloc (Some q) h a = Some (0, Some q', h') \<and>
      delay_inv q' h' \<and> mset (elems q') = add_mset a (mset (elems q)) \<and> same_tasks h h'"
proof (cases "pqueue_grow realloc q = None")
  case True
  then show ?thesis using grow_fails [OF assms(4), of realloc] insert_fails by metis
next
  case False
  then have n: "\<not> (q_size q \<ge> q_avail q \<and> \<not> realloc (8 * (q_size q + q_step q)))"
    using grow_fails [OF assms(4), of realloc] by argo
  show ?thesis unfolding if_not_P [OF n] using delay_insert [OF assms False] by blast
qed

lemma pqueue_insert_adds_witness:
  "\<exists>q' h'. pqueue_insert (\<lambda>_. False) (Some sample_queue) sample_heap 40 = Some (0, Some q', h') \<and>
     mset (elems q') = {#40, 10, 20, 30#}"
  using pqueue_insert_adds [OF sample_inv, of 40 "\<lambda>_. False"] sample_elems
  by (auto simp: sample_heap_def sample_queue_def max_slots_def pos_limit_def)

text \<open>
  C4: Removing a queued task, wherever it is in the heap, succeeds with result 0 and takes out
  exactly that task; the queue keeps its invariant and no task's \<open>expire\<close> or \<open>coroutine\<close>
  changes.
\<close>

theorem pqueue_remove_drops:
  assumes "delay_inv q h" and "a \<in> set (elems q)"
  shows "\<exists>q' h'. pqueue_remove q h a = Some (0, q', h') \<and> delay_inv q' h' \<and>
    mset (elems q) = add_mset a (mset (elems q')) \<and> same_tasks h h'"
  using delay_remove [OF assms] by blast

lemma pqueue_remove_drops_witness:
  "\<exists>q' h'. pqueue_remove sample_queue sample_heap 20 = Some (0, q', h') \<and>
     mset (elems q') = {#10, 30#}"
  using pqueue_remove_drops [OF sample_inv, of 20] by (fastforce simp: sample_elems add_mset_commute)

text \<open>
  C5: Changing the priority of a queued task, up or down, stores it as the task's \<open>expire\<close> and
  restores the queue's invariant; the queue holds the same tasks and every other task's
  \<open>expire\<close> and every task's \<open>coroutine\<close> are unchanged.
\<close>

theorem pqueue_change_priority_moves:
  assumes "delay_inv q h" and "a \<in> set (elems q)"
  shows "\<exists>q' h'. pqueue_change_priority q h p a = Some (q', h') \<and> delay_inv q' h' \<and>
    mset (elems q') = mset (elems q) \<and>
    same_tasks (h(a := map_option (\<lambda>t. t\<lparr>expire := p\<rparr>) (h a))) h'"
  using delay_change_priority [OF assms, of p] by blast

lemma pqueue_change_priority_moves_witness:
  "\<exists>q' h'. pqueue_change_priority sample_queue sample_heap 100 10 = Some (q', h') \<and>
     delay_inv q' h' \<and> mset (elems q') = {#10, 20, 30#}"
  using pqueue_change_priority_moves [OF sample_inv, of 10 100] by (auto simp: sample_elems)

text \<open>
  If its two allocations succeed, \<open>pqueue_print\<close> passes every queued task to \<open>print\<close> exactly
  once, in increasing order of \<open>expire\<close>; it terminates and makes no bad access although its copy
  claims the capacity of the original.
\<close>

theorem pqueue_print_sorted:
  assumes "delay_inv q h" and "alloc sizeof_pqueue" and "alloc (8 * (q_size q + 1))"
    and "q_size q + 1 < max_slots"
  shows "\<exists>xs. pqueue_print alloc q h = Some xs \<and> mset xs = mset (elems q) \<and>
    sorted_wrt (task_before h) xs"
proof -
  have c: "delay_queue.client q" and inv: "client_inv pos_limit task_live q h"
    using assms(1) by (simp_all add: delay_inv_client)
  obtain xs where xs: "pqueue_print alloc q h = Some xs" "mset xs = mset (elems q)"
    "sorted_wrt (\<lambda>x y. \<not> cmp_pri (the (get_pri h x)) (the (get_pri h y))) xs"
    using delay_queue.pqueue_print_order [OF delay_queue.client_uses [OF c]
        client_inv_parts(1,2) [OF inv] assms(2-4)] by blast
  have "set xs = set (elems q)" using xs(2) by (rule mset_eq_setD)
  then have "sorted_wrt (task_before h) xs"
    using xs(3) not_cmp_before [OF inv] by (auto intro: sorted_wrt_mono_rel [rotated])
  then show ?thesis using xs(1,2) by blast
qed

lemma pqueue_print_sorted_witness:
  "pqueue_print (\<lambda>_. True) sample_queue sample_heap = Some [10, 30, 20]"
proof -
  obtain xs where xs: "pqueue_print (\<lambda>_. True) sample_queue sample_heap = Some xs"
    "mset xs = {#10, 20, 30#}" "sorted_wrt (task_before sample_heap) xs"
    using pqueue_print_sorted [OF sample_inv, of "\<lambda>_. True"] sample_elems
    by (auto simp: sample_size max_slots_def)
  have "size (mset xs) = 3" using xs(2) by simp
  then obtain a b c where abc: "xs = [a, b, c]" by (auto simp: numeral_eq_Suc length_Suc_conv)
  have "{a, b, c} = {10, 20, 30}" using arg_cong [OF xs(2), of set_mset] abc by auto
  then have "a \<in> {10, 20, 30}" "b \<in> {10, 20, 30}" "c \<in> {10, 20, 30}" by auto
  moreover have "distinct xs" using xs(2) mset_eq_imp_distinct_iff [of xs "[10, 20, 30]"] by simp
  ultimately have "a = 10 \<and> b = 30 \<and> c = 20"
    using xs(3) abc by (auto simp: task_before_def sample_heap_def)
  then show ?thesis using xs(1) abc by simp
qed

text \<open>
  C7: \<open>pqueue_is_valid\<close> decides heap order: on an array of live tasks of any order, as long as the
  \<open>int\<close> indices do not overflow, it terminates and returns 1 exactly when the heap order holds.
\<close>

theorem pqueue_is_valid_decides:
  assumes "delay_callbacks q" and "slots_ok task_live q h" and "2 * q_size q + 1 < int_max1"
  shows "pqueue_is_valid q h = Some (heap_ordered q h)"
  using delay_queue.pqueue_is_valid_order [OF delay_queue.client_uses assms(2,3)] assms(1)
  by (simp add: delay_callbacks_client)

lemma pqueue_is_valid_decides_witness:
  "pqueue_is_valid sample_queue sample_heap = Some True \<and>
   pqueue_is_valid (sample_queue\<lparr>q_d := [None, Some 20, Some 10, Some 30, None]\<rparr>) sample_heap = Some False"
proof -
  have s: "slots_ok task_live sample_queue sample_heap" "heap_ordered sample_queue sample_heap"
    using sample_inv client_inv_parts by (auto simp: delay_inv_def)
  have r: "{Suc 0..<4} = {1, 2, 3}" "{2..<4::nat} = {2, 3}" by auto
  let ?q = "sample_queue\<lparr>q_d := [None, Some 20, Some 10, Some 30, None]\<rparr>"
  have "slots_ok task_live ?q sample_heap" "\<not> heap_ordered ?q sample_heap"
    unfolding slots_ok_def arr_live_def heap_ordered_def heap_on_def
    by (simp_all add: sample_queue_def sample_heap_def task_live_def max_slots_def r pkey_def
        get_pri_def cmp_pri_def)
  moreover have "delay_callbacks sample_queue" "delay_callbacks ?q"
    "2 * q_size sample_queue + 1 < int_max1"
    by (simp_all add: delay_callbacks_def sample_queue_def int_max1_def)
  ultimately show ?thesis
    using pqueue_is_valid_decides [of sample_queue sample_heap] s
      pqueue_is_valid_decides [of ?q sample_heap] by simp
qed

section \<open>Sorting through the queue\<close>

text \<open>A client that inserts the tasks of a list one after the other, looking at every result.\<close>

fun insert_all :: "(nat \<Rightarrow> bool) \<Rightarrow> (task_heap, nat) pqueue_t option \<Rightarrow> task_heap \<Rightarrow> nat list \<Rightarrow>
    ((task_heap, nat) pqueue_t option \<times> task_heap) option" where
  "insert_all realloc q h [] = Some (q, h)"
| "insert_all realloc q h (a # as) = do {
     (r, q', h') \<leftarrow> pqueue_insert realloc q h a;
     if r = 0 then insert_all realloc q' h' as else None
   }"

lemma same_tasks_trans: "same_tasks h h1 \<Longrightarrow> same_tasks h1 h2 \<Longrightarrow> same_tasks h h2"
  by (simp add: same_tasks_def)

lemma same_tasks_None: "same_tasks h h' \<Longrightarrow> h' a = None \<longleftrightarrow> h a = None"
  by (cases "h a"; cases "h' a") (auto simp: same_tasks_def dest!: spec [of _ a])

lemma same_tasks_expire:
  assumes "same_tasks h h'" and "h a \<noteq> None"
  shows "expire (the (h' a)) = expire (the (h a))"
proof -
  obtain t where t: "h a = Some t" using assms(2) by blast
  then have "map_option (\<lambda>t. (expire t, coroutine t)) (h' a) = Some (expire t, coroutine t)"
    using assms(1) by (simp add: same_tasks_def)
  then show ?thesis using t by auto
qed

lemma insert_all_ok:
  assumes "delay_inv q h" and "distinct as" and "\<forall>a\<in>set as. h a \<noteq> None \<and> a \<notin> set (elems q)"
    and "q_size q + length as \<le> q_avail q"
    and "q_avail q + q_step q < max_slots" and "q_avail q \<le> pos_limit"
  shows "\<exists>q' h'. insert_all realloc (Some q) h as = Some (Some q', h') \<and> delay_inv q' h' \<and>
    mset (elems q') = mset as + mset (elems q) \<and> same_tasks h h'"
  using assms
proof (induction as arbitrary: q h)
  case Nil
  then show ?case by (simp add: same_tasks_def)
next
  case (Cons a as)
  obtain q1 h1 where q1: "pqueue_insert realloc (Some q) h a = Some (0, Some q1, h1)" "delay_inv q1 h1"
    "mset (elems q1) = add_mset a (mset (elems q))" "same_tasks h h1"
    "q_avail q1 = q_avail q" "q_step q1 = q_step q" "q_size q1 = q_size q + 1"
    using delay_insert [OF Cons.prems(1), of a realloc] Cons.prems(3-6) by (auto simp: pqueue_grow_def)
  have "set (elems q1) = insert a (set (elems q))" using arg_cong [OF q1(3), of set_mset] by simp
  then have fresh: "\<forall>b\<in>set as. h1 b \<noteq> None \<and> b \<notin> set (elems q1)"
    using Cons.prems(2,3) same_tasks_None [OF q1(4)] by auto
  obtain q' h' where "insert_all realloc (Some q1) h1 as = Some (Some q', h')" "delay_inv q' h'"
    "mset (elems q') = mset as + mset (elems q1)" "same_tasks h1 h'"
    using Cons.IH [OF q1(2) _ fresh] Cons.prems(2,4-6) q1(5-7) by auto
  then show ?case using q1(1,3) same_tasks_trans [OF q1(4)] by auto
qed

text \<open>
  C6: Heap sort.  A queue made for \<open>n\<close> tasks takes any \<open>n\<close> different live tasks without a
  \<open>realloc\<close>, every insert succeeding, and popping until it is empty returns exactly those tasks in
  increasing order of \<open>expire\<close>.
\<close>

theorem pqueue_sorts:
  assumes "alloc sizeof_pqueue" and "alloc (8 * (n + 1))" and "n < pos_limit"
    and "distinct as" and "length as \<le> n" and "\<forall>a\<in>set as. h a \<noteq> None"
  shows "\<exists>q0 q h' ys. pqueue_init alloc n cmp_pri get_pri set_pri get_pos set_pos = Some q0 \<and>
    insert_all (\<lambda>_. False) (Some q0) h as = Some (q, h') \<and> pop_all q h' = Some ys \<and>
    mset ys = mset as \<and> sorted_wrt (task_before h) ys"
proof -
  have n: "n + 1 < max_slots" "n + 1 + (n + 1) < max_slots" "1 \<le> pos_limit"
    using assms(3) by (simp_all add: max_slots_def pos_limit_def)
  obtain q0 where q0: "pqueue_init alloc n cmp_pri get_pri set_pri get_pos set_pos = Some q0"
    "delay_queue.client q0" "client_inv pos_limit task_live q0 h" "elems q0 = []" "q_size q0 = 1"
    "q_avail q0 = n + 1" "q_step q0 = n + 1"
    using delay_queue.pqueue_init_client [where m = h, OF assms(1,2) n(1,3)] by blast
  have inv0: "delay_inv q0 h" using q0(2,3) by (simp add: delay_inv_client)
  obtain q h' where q: "insert_all (\<lambda>_. False) (Some q0) h as = Some (Some q, h')" "delay_inv q h'"
    "mset (elems q) = mset as" "same_tasks h h'"
    using insert_all_ok [OF inv0 assms(4), of "\<lambda>_. False"] assms(3,5,6) n q0(4-7) by auto
  have c: "delay_queue.client q" and inv: "client_inv pos_limit task_live q h'"
    using q(2) by (simp_all add: delay_inv_client)
  obtain ys where ys: "pop_all (Some q) h' = Some ys" "mset ys = mset (elems q)"
    "sorted_wrt (\<lambda>x y. \<not> cmp_pri (the (get_pri h' x)) (the (get_pri h' y))) ys"
    using delay_queue.pop_all_order [OF delay_queue.client_uses [OF c] client_inv_parts(1,2) [OF inv]]
    by blast
  have sets: "set ys = set (elems q)" "set (elems q) = set as"
    using mset_eq_setD [OF ys(2)] mset_eq_setD [OF q(3)] by simp_all
  have "task_before h x y" if "x \<in> set ys" "y \<in> set ys"
    "\<not> cmp_pri (the (get_pri h' x)) (the (get_pri h' y))" for x y
    using not_cmp_before [OF inv, of x y] that sets assms(6) same_tasks_expire [OF q(4)]
    by (simp add: task_before_def)
  then have "sorted_wrt (task_before h) ys"
    by (rule sorted_wrt_mono_rel [OF _ ys(3)])
  then show ?thesis using q0(1) q(1,3) ys(1,2) by auto
qed

lemma pqueue_sorts_witness:
  "\<exists>q0 q h' ys. pqueue_init (\<lambda>_. True) 3 cmp_pri get_pri set_pri get_pos set_pos = Some q0 \<and>
    insert_all (\<lambda>_. False) (Some q0) sample_heap [20, 40, 30] = Some (q, h') \<and>
    pop_all q h' = Some ys \<and> mset ys = {#20, 40, 30#} \<and> sorted_wrt (task_before sample_heap) ys"
  using pqueue_sorts [of "\<lambda>_. True" 3 "[20, 40, 30]" sample_heap]
  by (auto simp: sample_heap_def pos_limit_def)

section \<open>Bounds\<close>

text \<open>
  \<open>pqueue_init\<close> does not check its size for wrap-around: asked for \<open>2 ^ 61 - 1\<close> elements it
  allocates zero bytes and records a capacity of \<open>2 ^ 61\<close>, and the first insert, whatever the
  allocator does, writes outside the array.
\<close>

theorem pqueue_init_wraps:
  assumes "alloc sizeof_pqueue" and "alloc 0"
  shows "\<exists>q. pqueue_init alloc (2 ^ 61 - 1) cmp_pri get_pri set_pri get_pos set_pos = Some q \<and>
    q_avail q = 2 ^ 61 \<and> q_d q = [] \<and> (\<forall>realloc h a. pqueue_insert realloc (Some q) h a = None)"
  using assms by (simp add: pqueue_init_def size_modulus_def Let_def pqueue_insert_def
      pqueue_grow_def arr_set_def)

lemma pqueue_init_wraps_witness:
  "\<exists>q. pqueue_init (\<lambda>_. True) (2 ^ 61 - 1) cmp_pri get_pri set_pri get_pos set_pos = Some q \<and> q_d q = []"
  using pqueue_init_wraps [of "\<lambda>_. True"] by auto

text \<open>Sign extension of a 32-bit position, as arithmetic.\<close>

lemma sign_extend_eq:
  fixes p :: int
  assumes "0 \<le> p" and "p < 2 ^ 64"
  shows "((p + 2 ^ 31) mod 2 ^ 32 - 2 ^ 31) mod 2 ^ 64 = p \<longleftrightarrow> p < 2 ^ 31 \<or> 2 ^ 64 - 2 ^ 31 \<le> p"
proof
  define r where "r = (p + 2 ^ 31) mod 2 ^ 32 - 2 ^ 31"
  assume "((p + 2 ^ 31) mod 2 ^ 32 - 2 ^ 31) mod 2 ^ 64 = p"
  then have eq: "r mod 2 ^ 64 = p" by (simp only: r_def)
  have "0 \<le> (p + 2 ^ 31) mod 2 ^ 32" "(p + 2 ^ 31) mod 2 ^ 32 < 2 ^ 32" by simp_all
  then have r: "- (2 ^ 31) \<le> r" "r < 2 ^ 31" by (simp_all add: r_def)
  show "p < 2 ^ 31 \<or> 2 ^ 64 - 2 ^ 31 \<le> p"
  proof (cases "0 \<le> r")
    case True
    then have "r mod 2 ^ 64 = r" using r by (intro mod_pos_pos_trivial) simp_all
    then show ?thesis using eq r by simp
  next
    case False
    have "(r + 2 ^ 64) mod 2 ^ 64 = r + 2 ^ 64" using False r by (intro mod_pos_pos_trivial) simp_all
    then show ?thesis using eq r by simp
  qed
next
  assume "p < 2 ^ 31 \<or> 2 ^ 64 - 2 ^ 31 \<le> p"
  then show "((p + 2 ^ 31) mod 2 ^ 32 - 2 ^ 31) mod 2 ^ 64 = p"
  proof
    assume "p < 2 ^ 31"
    then have "(p + 2 ^ 31) mod 2 ^ 32 = p + 2 ^ 31" using assms by (intro mod_pos_pos_trivial) simp_all
    then show ?thesis using assms by simp
  next
    assume p: "2 ^ 64 - 2 ^ 31 \<le> p"
    define e where "e = p + 2 ^ 31 - 2 ^ 64"
    have e: "0 \<le> e" "e < 2 ^ 31" using p assms by (simp_all add: e_def)
    have "(p + 2 ^ 31) mod 2 ^ 32 = (e + 2 ^ 32 * 2 ^ 32) mod 2 ^ 32" by (simp add: e_def add.commute)
    also have "\<dots> = e mod 2 ^ 32" by (rule mod_mult_self2)
    also have "\<dots> = e" using e by (intro mod_pos_pos_trivial) simp_all
    finally have "((p + 2 ^ 31) mod 2 ^ 32 - 2 ^ 31) mod 2 ^ 64 = (p + (- 1) * 2 ^ 64) mod 2 ^ 64"
      by (simp add: e_def)
    also have "\<dots> = p mod 2 ^ 64" by simp
    also have "\<dots> = p" using assms by (intro mod_pos_pos_trivial) simp_all
    finally show ?thesis .
  qed
qed

lemma int_pos_read:
  assumes "p < size_modulus"
  shows "unat (scast (word_of_nat p :: u32) :: u64) = p \<longleftrightarrow> p < 2 ^ 31 \<or> 2 ^ 64 - 2 ^ 31 \<le> p"
proof -
  have s: "signed_take_bit 31 (int p) = (int p + 2 ^ 31) mod 2 ^ 32 - 2 ^ 31"
    by (simp add: signed_take_bit_eq_take_bit_shift take_bit_eq_mod)
  have "(scast (word_of_nat p :: u32) :: u64) = word_of_int (signed_take_bit 31 (int p))"
    by (simp add: scast_eq signed_of_nat)
  then have "uint (scast (word_of_nat p :: u32) :: u64) = signed_take_bit 31 (int p) mod 2 ^ 64"
    by (simp only: uint_word_of_int) simp
  then have "int (unat (scast (word_of_nat p :: u32) :: u64)) =
      ((int p + 2 ^ 31) mod 2 ^ 32 - 2 ^ 31) mod 2 ^ 64"
    unfolding s by simp
  moreover have "((int p + 2 ^ 31) mod 2 ^ 32 - 2 ^ 31) mod 2 ^ 64 = int p \<longleftrightarrow>
      int p < 2 ^ 31 \<or> 2 ^ 64 - 2 ^ 31 \<le> int p"
    by (rule sign_extend_eq) (use assms in \<open>simp_all add: size_modulus_def\<close>)
  ultimately have "int (unat (scast (word_of_nat p :: u32) :: u64)) = int p \<longleftrightarrow>
      int p < 2 ^ 31 \<or> 2 ^ 64 - 2 ^ 31 \<le> int p" by simp
  moreover have "int p < 2 ^ 31 \<longleftrightarrow> p < 2 ^ 31" "2 ^ 64 - 2 ^ 31 \<le> int p \<longleftrightarrow> 2 ^ 64 - 2 ^ 31 \<le> p" by simp_all
  ultimately show ?thesis by (simp only: of_nat_eq_iff)
qed

text \<open>
  The \<open>int\<close> field \<open>pos\<close> holds the positions below \<open>2 ^ 31\<close>: a position written by \<open>set_pos\<close>
  is read back by \<open>get_pos\<close> exactly when it is below \<open>2 ^ 31\<close> (or so close to \<open>SIZE_MAX\<close> that its
  sign extension restores it).
\<close>

theorem pos_roundtrip:
  assumes "h a \<noteq> None" and "p < size_modulus"
  shows "\<exists>h'. set_pos h a p = Some h' \<and>
    (get_pos h' a = Some p \<longleftrightarrow> p < 2 ^ 31 \<or> 2 ^ 64 - 2 ^ 31 \<le> p)"
  using assms int_pos_read [OF assms(2)] by (auto simp: set_pos_def get_pos_def)

lemma pos_roundtrip_witness:
  "(\<exists>h'. set_pos sample_heap 10 77 = Some h' \<and> get_pos h' 10 = Some 77) \<and>
   (\<exists>h'. set_pos sample_heap 10 (2 ^ 31) = Some h' \<and> get_pos h' 10 \<noteq> Some (2 ^ 31))"
  using pos_roundtrip [of sample_heap 10 77] pos_roundtrip [of sample_heap 10 "2 ^ 31"]
  by (simp add: sample_heap_def size_modulus_def)

end
