(* ===== verification/Refinement.thy ===== *)
theory Refinement
  imports Main "HOL-Library.Monad_Syntax"
begin

text \<open>
  Sequences of calls that refine an abstract specification.  A call of type \<open>'c\<close> on a state \<open>'s\<close> gives an
  answer \<open>'r\<close>; \<open>None\<close> is undefined behaviour.  The specification works on abstract states \<open>'a\<close>: for a call
  and the answer that was given it says whether the answer is allowed, and what the next state is.
\<close>

section \<open>Runs\<close>

fun run_calls :: "('c \<Rightarrow> 's \<Rightarrow> ('r \<times> 's) option) \<Rightarrow> 'c list \<Rightarrow> 's \<Rightarrow> ('r list \<times> 's) option" where
  "run_calls call [] s = Some ([], s)"
| "run_calls call (c # cs) s = do {
     (r, s1) \<leftarrow> call c s;
     (rs, s2) \<leftarrow> run_calls call cs s1;
     Some (r # rs, s2)
   }"

fun run_spec :: "('c \<Rightarrow> 'a \<Rightarrow> 'r \<Rightarrow> 'a option) \<Rightarrow> 'c list \<Rightarrow> 'a \<Rightarrow> 'r list \<Rightarrow> 'a option" where
  "run_spec spec [] a [] = Some a"
| "run_spec spec (c # cs) a (r # rs) = do { a1 \<leftarrow> spec c a r; run_spec spec cs a1 rs }"
| "run_spec spec _ _ _ = None"

text \<open>The client's calls are permitted whatever answers the specification allows it to get.\<close>

fun keeps_contract :: "('c \<Rightarrow> 'a \<Rightarrow> 'r \<Rightarrow> 'a option) \<Rightarrow> ('c \<Rightarrow> 'a \<Rightarrow> bool) \<Rightarrow> 'c list \<Rightarrow> 'a \<Rightarrow> bool" where
  "keeps_contract spec permitted [] a = True"
| "keeps_contract spec permitted (c # cs) a =
     (permitted c a \<and> (\<forall>r. case spec c a r of None \<Rightarrow> True | Some a1 \<Rightarrow> keeps_contract spec permitted cs a1))"

section \<open>From one call to all\<close>

text \<open>
  \<open>inv n s\<close>: the state is well formed and has room for \<open>n\<close> more calls.
\<close>

locale call_refinement =
  fixes call :: "'c \<Rightarrow> 's \<Rightarrow> ('r \<times> 's) option"
    and spec :: "'c \<Rightarrow> 'a \<Rightarrow> 'r \<Rightarrow> 'a option"
    and permitted :: "'c \<Rightarrow> 'a \<Rightarrow> bool"
    and abs_state :: "'s \<Rightarrow> 'a"
    and inv :: "nat \<Rightarrow> 's \<Rightarrow> bool"
  assumes call_refines: "inv (Suc n) s \<Longrightarrow> permitted c (abs_state s) \<Longrightarrow>
    \<exists>r s'. call c s = Some (r, s') \<and> spec c (abs_state s) r = Some (abs_state s') \<and> inv n s'"
begin

lemma run_refines:
  assumes "inv (n + length cs) s" and "keeps_contract spec permitted cs (abs_state s)"
  shows "\<exists>rs s'. run_calls call cs s = Some (rs, s') \<and> run_spec spec cs (abs_state s) rs = Some (abs_state s') \<and> inv n s'"
  using assms
proof (induction cs arbitrary: s)
  case Nil
  then show ?case by simp
next
  case (Cons c cs)
  obtain r s1 where c: "call c s = Some (r, s1)" "spec c (abs_state s) r = Some (abs_state s1)" "inv (n + length cs) s1"
    using call_refines [of "n + length cs" s c] Cons.prems by auto
  have "keeps_contract spec permitted cs (abs_state s1)"
    using Cons.prems(2) c(2) by (auto split: option.splits)
  then obtain rs s' where "run_calls call cs s1 = Some (rs, s')" "run_spec spec cs (abs_state s1) rs = Some (abs_state s')" "inv n s'"
    using Cons.IH [OF c(3)] by blast
  then show ?case using c(1,2) by (intro exI [of _ "r # rs"] exI [of _ s']) simp
qed

end

end
