(* ===== verification/QueueRuns.thy ===== *)
theory QueueRuns
  imports DelayQueue Refinement
begin

text \<open>
  The abstract specification of \<open>cpu/pqueue.c\<close>, and its refinement: a client that issues any sequence of
  calls sees a set of tasks from which the pop takes one that expires first.  The abstract queue knows
  neither the heap nor the stored positions nor the capacity; where the C code may answer in several
  ways (which of two equal tasks is popped, whether an allocation fails) it accepts each.
\<close>

section \<open>Calls and answers\<close>

text \<open>\<open>Insert a ok\<close> is the insert of \<open>a\<close>; \<open>ok\<close> tells whether a \<open>realloc\<close> succeeds at this call.\<close>

datatype queue_op =
    Insert nat bool | Pop | Peek | Remove nat | Change nat pqueue_pri_t | Size

datatype answer = Code nat | Node "nat option" | Count nat | Void

type_synonym queue_state = "(task_heap, nat) pqueue_t \<times> task_heap"

fun queue_call :: "queue_op \<Rightarrow> queue_state \<Rightarrow> (answer \<times> queue_state) option" where
  "queue_call (Insert a ok) (q, h) = do {
     (r, q', h') \<leftarrow> pqueue_insert (\<lambda>_. ok) (Some q) h a;
     q1 \<leftarrow> q';
     Some (Code r, q1, h')
   }"
| "queue_call Pop (q, h) = do {
     (e, q', h') \<leftarrow> pqueue_pop (Some q) h;
     q1 \<leftarrow> q';
     Some (Node e, q1, h')
   }"
| "queue_call Peek (q, h) = do { e \<leftarrow> pqueue_peek (Some q); Some (Node e, q, h) }"
| "queue_call (Remove a) (q, h) = do { (r, q', h') \<leftarrow> pqueue_remove q h a; Some (Code r, q', h') }"
| "queue_call (Change a p) (q, h) = do { (q', h') \<leftarrow> pqueue_change_priority q h p a; Some (Void, q', h') }"
| "queue_call Size (q, h) = Some (Count (pqueue_size q), q, h)"

section \<open>The abstract queue\<close>

text \<open>
  The set of queued tasks and, for every task of the heap, when it expires and the coroutine it wakes.
\<close>

type_synonym task_set = "nat set \<times> (nat \<Rightarrow> (pqueue_pri_t \<times> nat) option)"

definition tasks_of :: "task_heap \<Rightarrow> nat \<Rightarrow> (pqueue_pri_t \<times> nat) option" where
  "tasks_of h a = map_option (\<lambda>t. (expire t, coroutine t)) (h a)"

definition abs_queue :: "queue_state \<Rightarrow> task_set" where
  "abs_queue s = (case s of (q, h) \<Rightarrow> (set (elems q), tasks_of h))"

definition is_first :: "task_set \<Rightarrow> nat \<Rightarrow> bool" where
  "is_first S a \<longleftrightarrow> a \<in> fst S \<and> (\<forall>b\<in>fst S. fst (the (snd S a)) \<le> fst (the (snd S b)))"

text \<open>The next abstract state after an answer that the specification accepts.\<close>

fun set_call :: "queue_op \<Rightarrow> task_set \<Rightarrow> answer \<Rightarrow> task_set option" where
  "set_call (Insert a ok) (Q, E) r =
     (if r = Code 0 then Some (insert a Q, E) else if r = Code 1 \<and> \<not> ok then Some (Q, E) else None)"
| "set_call Pop (Q, E) r =
     (case r of
        Node None \<Rightarrow> if Q = {} then Some (Q, E) else None
      | Node (Some a) \<Rightarrow> if is_first (Q, E) a then Some (Q - {a}, E) else None
      | _ \<Rightarrow> None)"
| "set_call Peek (Q, E) r =
     (case r of
        Node None \<Rightarrow> if Q = {} then Some (Q, E) else None
      | Node (Some a) \<Rightarrow> if is_first (Q, E) a then Some (Q, E) else None
      | _ \<Rightarrow> None)"
| "set_call (Remove a) (Q, E) r = (if r = Code 0 then Some (Q - {a}, E) else None)"
| "set_call (Change a p) (Q, E) r =
     (if r = Void then Some (Q, E(a := map_option (\<lambda>(_, c). (p, c)) (E a))) else None)"
| "set_call Size (Q, E) r = (if r = Count (card Q) then Some (Q, E) else None)"

text \<open>
  The client's side of the contract: it inserts live tasks that are not queued, and removes or
  changes queued ones only, whatever answers the specification allows it to get.
\<close>

fun permitted :: "queue_op \<Rightarrow> task_set \<Rightarrow> bool" where
  "permitted (Insert a ok) (Q, E) = (a \<notin> Q \<and> E a \<noteq> None)"
| "permitted (Remove a) (Q, E) = (a \<in> Q)"
| "permitted (Change a p) (Q, E) = (a \<in> Q)"
| "permitted _ _ = True"

section \<open>One call\<close>

lemma same_tasks_of: "same_tasks h h' \<longleftrightarrow> tasks_of h' = tasks_of h"
  by (simp add: same_tasks_def tasks_of_def fun_eq_iff)

lemma tasks_of_None: "tasks_of h a = None \<longleftrightarrow> h a = None"
  by (simp add: tasks_of_def)

lemma tasks_of_change:
  "tasks_of (h(a := map_option (\<lambda>t. t\<lparr>expire := p\<rparr>) (h a))) =
     (tasks_of h)(a := map_option (\<lambda>(_, c). (p, c)) (tasks_of h a))"
  by (auto simp: tasks_of_def fun_eq_iff option.map_comp comp_def)

lemma elems_distinct: "delay_inv q h \<Longrightarrow> distinct (elems q)"
  by (simp add: delay_inv_def client_inv_def positions_ok_def)

lemma set_add_mset: "mset xs = add_mset a (mset ys) \<Longrightarrow> set xs = insert a (set ys)"
  by (metis set_mset_add_mset_insert set_mset_mset)

lemma set_drop_mset:
  assumes "mset xs = add_mset a (mset ys)" and "distinct xs"
  shows "set ys = set xs - {a}"
proof -
  have "mset xs = mset (a # ys)" using assms(1) by simp
  then have "distinct (a # ys)" using assms(2) mset_eq_imp_distinct_iff by blast
  then have "a \<notin> set ys" by simp
  then show ?thesis using set_add_mset [OF assms(1)] by simp
qed

lemma first_task:
  assumes "delay_inv q h" and "a \<in> set (elems q)" and "\<forall>b\<in>set (elems q). task_before h a b"
  shows "is_first (abs_queue (q, h)) a"
proof -
  have "tasks_of h b = Some (expire (the (h b)), coroutine (the (h b)))" if b: "b \<in> set (elems q)" for b
  proof -
    obtain t where "h b = Some t" using elem_task [OF _ b] assms(1) delay_inv_def by blast
    then show ?thesis by (simp add: tasks_of_def)
  qed
  then show ?thesis using assms(2,3) by (simp add: is_first_def abs_queue_def task_before_def)
qed

lemma size_elems: "delay_inv q h \<Longrightarrow> pqueue_size q = card (set (elems q))"
proof -
  assume i: "delay_inv q h"
  then have p: "slots_ok task_live q h" "1 \<le> q_size q"
    using client_inv_parts by (auto simp: delay_inv_def)
  then have "q_size q \<le> max_slots" by (simp add: slots_ok_def arr_live_def)
  then show ?thesis
    using distinct_card [OF elems_distinct [OF i]] length_elems [OF p(1)] size_pred [OF p(2)]
    by (simp add: pqueue_size_def)
qed

text \<open>
  Each call on a well-formed queue that the client may issue ends, answers as the specification allows
  and leaves a well-formed queue that stands for the next abstract state.
\<close>

definition simulates :: "queue_op \<Rightarrow> (task_heap, nat) pqueue_t \<Rightarrow> task_heap \<Rightarrow> bool" where
  "simulates c q h \<longleftrightarrow> (\<exists>r q' h'. queue_call c (q, h) = Some (r, q', h') \<and>
     set_call c (abs_queue (q, h)) r = Some (abs_queue (q', h')) \<and> delay_inv q' h' \<and>
     q_size q' \<le> q_size q + 1 \<and> q_step q' = q_step q)"

lemma simulatesI:
  assumes "queue_call c (q, h) = Some (r, q', h')" and "set_call c (abs_queue (q, h)) r = Some (abs_queue (q', h'))"
    and "delay_inv q' h'" and "q_size q' \<le> q_size q + 1" and "q_step q' = q_step q"
  shows "simulates c q h"
  using assms unfolding simulates_def by blast

lemma insert_simulates:
  assumes "delay_inv q h" and "permitted (Insert a ok) (abs_queue (q, h))"
    and "q_size q + q_step q < max_slots" and "q_size q < pos_limit"
  shows "simulates (Insert a ok) q h"
proof -
  have a: "a \<notin> set (elems q)" "h a \<noteq> None" using assms(2) by (auto simp: abs_queue_def tasks_of_None)
  show ?thesis
  proof (cases "pqueue_grow (\<lambda>_. ok) q = None")
    case True
    then have "\<not> ok" using grow_fails [OF assms(3), of "\<lambda>_. ok"] by simp
    then show ?thesis using insert_fails [OF True] assms(1)
      by (intro simulatesI [of _ _ _ "Code 1" q h]) (auto simp: abs_queue_def)
  next
    case False
    from delay_insert [OF assms(1) a(2,1) assms(3,4) False] obtain q' h' where
      i: "pqueue_insert (\<lambda>_. ok) (Some q) h a = Some (0, Some q', h')" "delay_inv q' h'"
        "mset (elems q') = add_mset a (mset (elems q))" "same_tasks h h'"
        "q_step q' = q_step q" "q_size q' = q_size q + 1" by blast
    then show ?thesis using set_add_mset [OF i(3)]
      by (intro simulatesI [of _ _ _ "Code 0" q' h']) (simp_all add: abs_queue_def same_tasks_of)
  qed
qed

lemma empty_queue:
  assumes "delay_inv q h" and "elems q = []"
  shows "pqueue_pop (Some q) h = Some (None, Some q, h)" "pqueue_peek (Some q) = Some None"
proof -
  have "q_size q = 1"
    using elems_nonempty [OF assms(1)] assms client_inv_parts(3) by (fastforce simp: delay_inv_def)
  then show "pqueue_pop (Some q) h = Some (None, Some q, h)" "pqueue_peek (Some q) = Some None"
    by (simp_all add: pqueue_pop_def pqueue_peek_def)
qed

lemma pop_peek_simulates:
  assumes "delay_inv q h"
  shows "simulates Pop q h" and "simulates Peek q h"
proof -
  have "simulates Pop q h \<and> simulates Peek q h"
  proof (cases "elems q = []")
    case True
    from empty_queue [OF assms True] show ?thesis using assms True
        simulatesI [of Pop q h "Node None" q h] simulatesI [of Peek q h "Node None" q h]
      by (simp add: abs_queue_def)
  next
    case False
    from delay_pop [OF assms False] obtain a q' h' where
      p: "pqueue_pop (Some q) h = Some (Some a, Some q', h')" "pqueue_peek (Some q) = Some (Some a)"
        "\<forall>b\<in>set (elems q). task_before h a b" "mset (elems q) = add_mset a (mset (elems q'))"
        "delay_inv q' h'" "same_tasks h h'" "q_size q' \<le> q_size q" "q_step q' = q_step q" by blast
    have "a \<in> set (elems q)" using set_add_mset [OF p(4)] by simp
    then have f: "is_first (set (elems q), tasks_of h) a"
      using first_task [OF assms _ p(3)] by (simp add: abs_queue_def)
    have "set (elems q') = set (elems q) - {a}" using set_drop_mset [OF p(4) elems_distinct [OF assms]] .
    then show ?thesis using p f assms
        simulatesI [of Pop q h "Node (Some a)" q' h'] simulatesI [of Peek q h "Node (Some a)" q h]
      by (simp add: abs_queue_def same_tasks_of)
  qed
  then show "simulates Pop q h" "simulates Peek q h" by blast+
qed

lemma remove_simulates:
  assumes "delay_inv q h" and "permitted (Remove a) (abs_queue (q, h))"
  shows "simulates (Remove a) q h"
proof -
  have "a \<in> set (elems q)" using assms(2) by (simp add: abs_queue_def)
  from delay_remove [OF assms(1) this] obtain q' h' where
    p: "pqueue_remove q h a = Some (0, q', h')" "delay_inv q' h'"
      "mset (elems q) = add_mset a (mset (elems q'))" "same_tasks h h'"
      "q_size q' \<le> q_size q" "q_step q' = q_step q" by blast
  have "set (elems q') = set (elems q) - {a}" using set_drop_mset [OF p(3) elems_distinct [OF assms(1)]] .
  then show ?thesis using p
    by (intro simulatesI [of _ _ _ "Code 0" q' h']) (simp_all add: abs_queue_def same_tasks_of)
qed

lemma change_simulates:
  assumes "delay_inv q h" and "permitted (Change a p) (abs_queue (q, h))"
  shows "simulates (Change a p) q h"
proof -
  have "a \<in> set (elems q)" using assms(2) by (simp add: abs_queue_def)
  from delay_change_priority [OF assms(1) this, of p] obtain q' h' where
    r: "pqueue_change_priority q h p a = Some (q', h')" "delay_inv q' h'" "mset (elems q') = mset (elems q)"
      "same_tasks (h(a := map_option (\<lambda>t. t\<lparr>expire := p\<rparr>) (h a))) h'" "q_size q' = q_size q" "q_step q' = q_step q"
    by blast
  have "set (elems q') = set (elems q)" using r(3) by (rule mset_eq_setD)
  then show ?thesis using r
    by (intro simulatesI [of _ _ _ Void q' h']) (simp_all add: abs_queue_def same_tasks_of tasks_of_change)
qed

lemma call_simulates:
  assumes "delay_inv q h" and "permitted c (abs_queue (q, h))"
    and "q_size q + q_step q < max_slots" and "q_size q < pos_limit"
  shows "simulates c q h"
proof (cases c)
  case Size
  then show ?thesis using size_elems [OF assms(1)] assms(1)
    by (intro simulatesI [of _ _ _ "Count (pqueue_size q)" q h]) (simp_all add: abs_queue_def)
qed (use assms in \<open>auto intro: insert_simulates pop_peek_simulates remove_simulates change_simulates\<close>)

section \<open>Runs\<close>

text \<open>A well-formed queue with room for \<open>n\<close> more inserts.\<close>

definition queue_room :: "nat \<Rightarrow> queue_state \<Rightarrow> bool" where
  "queue_room n s \<longleftrightarrow> (case s of (q, h) \<Rightarrow>
     delay_inv q h \<and> q_size q + q_step q + n \<le> max_slots \<and> q_size q + n \<le> pos_limit)"

interpretation queue_set: call_refinement queue_call set_call permitted abs_queue queue_room
proof
  fix n s c
  assume s: "queue_room (Suc n) s" "permitted c (abs_queue s)"
  obtain q h where qh: "s = (q, h)" by (cases s)
  then have "simulates c q h" using s by (intro call_simulates) (auto simp: queue_room_def)
  then show "\<exists>r s'. queue_call c s = Some (r, s') \<and> set_call c (abs_queue s) r = Some (abs_queue s') \<and> queue_room n s'"
    using s(1) unfolding simulates_def qh by (fastforce simp: queue_room_def)
qed

text \<open>
  C1: The queue is a set.  A queue made for \<open>n\<close> tasks serves every sequence of inserts, pops, peeks,
  removals, changes of priority and size queries whose client inserts only live tasks that are not
  queued and removes or changes only queued ones, whichever allocations fail: no call makes a bad access,
  every answer is one the abstract set of tasks allows (a pop takes a task that expires first, an insert
  fails only if a \<open>realloc\<close> does), and in the end the handle holds exactly the tasks of the abstract set,
  well-formed.
\<close>

theorem queue_refines_set:
  assumes "alloc sizeof_pqueue" and "alloc (8 * (n + 1))" and "n + length cs + 2 \<le> max_slots"
    and "length cs + 1 \<le> pos_limit" and "keeps_contract set_call permitted cs ({}, tasks_of h)"
  shows "\<exists>q0 rs q h'. pqueue_init alloc n cmp_pri get_pri set_pri get_pos set_pos = Some q0 \<and>
    run_calls queue_call cs (q0, h) = Some (rs, q, h') \<and> delay_inv q h' \<and>
    run_spec set_call cs ({}, tasks_of h) rs = Some (set (elems q), tasks_of h')"
proof -
  have n: "n + 1 < max_slots" "1 \<le> pos_limit" using assms(3) by (simp_all add: pos_limit_def)
  obtain q0 where q0: "pqueue_init alloc n cmp_pri get_pri set_pri get_pos set_pos = Some q0"
    "delay_queue.client q0" "client_inv pos_limit task_live q0 h" "elems q0 = []" "q_size q0 = 1" "q_step q0 = n + 1"
    using delay_queue.pqueue_init_client [where m = h, OF assms(1,2) n] by blast
  then have "queue_room (0 + length cs) (q0, h)" "abs_queue (q0, h) = ({}, tasks_of h)"
    using assms(3,4) by (simp_all add: queue_room_def delay_inv_client abs_queue_def)
  from queue_set.run_refines [OF this(1)] this(2) assms(5) obtain rs s where
    "run_calls queue_call cs (q0, h) = Some (rs, s)" "run_spec set_call cs ({}, tasks_of h) rs = Some (abs_queue s)"
    "queue_room 0 s" by auto
  then show ?thesis using q0(1) by (cases s) (auto simp: queue_room_def abs_queue_def)
qed

text \<open>A client of the sample heap: two inserts, a pop and the size.\<close>

definition sample_calls :: "queue_op list" where
  "sample_calls = [Insert 10 True, Insert 40 True, Pop, Size]"

lemma sample_keeps: "keeps_contract set_call permitted sample_calls ({}, tasks_of sample_heap)"
  by (auto simp: sample_calls_def tasks_of_def sample_heap_def split: option.splits answer.splits if_splits)

lemma sample_answers:
  assumes "run_spec set_call sample_calls ({}, tasks_of sample_heap) rs = Some S"
  shows "rs = [Code 0, Code 0, Node (Some 40), Count 1] \<and> fst S = {10}"
proof -
  have "length rs = 4" using assms
    by (cases rs; cases "tl rs"; cases "tl (tl rs)"; cases "tl (tl (tl rs))"; cases "tl (tl (tl (tl rs)))")
      (simp_all add: sample_calls_def bind_eq_Some_conv)
  then obtain a b c d where rs: "rs = [a, b, c, d]" by (auto simp: numeral_eq_Suc length_Suc_conv)
  have "a = Code 0" "b = Code 0" using assms unfolding rs by (auto simp: sample_calls_def bind_eq_Some_conv split: if_splits)
  then show ?thesis using assms unfolding rs
    by (auto simp: sample_calls_def bind_eq_Some_conv is_first_def tasks_of_def sample_heap_def word_le_nat_alt
        split: if_splits answer.splits option.splits)
qed

lemma queue_refines_set_witness:
  "\<exists>q0 q h'. pqueue_init (\<lambda>_. True) 5 cmp_pri get_pri set_pri get_pos set_pos = Some q0 \<and>
    run_calls queue_call sample_calls (q0, sample_heap) = Some ([Code 0, Code 0, Node (Some 40), Count 1], q, h') \<and>
    set (elems q) = {10}"
proof -
  obtain q0 rs q h' where r: "pqueue_init (\<lambda>_. True) 5 cmp_pri get_pri set_pri get_pos set_pos = Some q0"
    "run_calls queue_call sample_calls (q0, sample_heap) = Some (rs, q, h')"
    "run_spec set_call sample_calls ({}, tasks_of sample_heap) rs = Some (set (elems q), tasks_of h')"
    using queue_refines_set [of "\<lambda>_. True" 5 sample_calls sample_heap, OF _ _ _ _ sample_keeps]
    by (auto simp: sample_calls_def max_slots_def pos_limit_def)
  then show ?thesis using sample_answers [OF r(3)] by auto
qed

end
