(* ===== verification/Scheduler.thy ===== *)
theory Scheduler
  imports Coroutine
begin

text \<open>
  What the scheduler of \<open>cpu/my_coroutine.c\<close> does over time, when the clock does not go back: the
  coroutines wake in the order of their deadlines, and every one that sleeps is woken once the clock
  has passed its deadline, within a number of turns that is given.
\<close>

section \<open>The clock\<close>

text \<open>The \<open>k\<close>-th reading in milliseconds; a clock that is not negative, does not go back and stays far
  from the end of \<open>long\<close>.\<close>

definition clk :: "environment \<Rightarrow> nat \<Rightarrow> int" where
  "clk env k = (case e_time env k of (tv_sec, tv_usec) \<Rightarrow> tv_sec * 1000 + tv_usec sdiv 1000)"

definition steady_clock :: "environment \<Rightarrow> bool" where
  "steady_clock env \<longleftrightarrow> (\<forall>k. 0 \<le> clk env k \<and> clk env k < 2 ^ 62) \<and> (\<forall>j k. j \<le> k \<longrightarrow> clk env j \<le> clk env k)"

lemma steady_clock_mono: "steady_clock env \<Longrightarrow> j \<le> k \<Longrightarrow> clk env j \<le> clk env k"
  by (simp add: steady_clock_def)

lemma uint_small: "0 \<le> i \<Longrightarrow> i < 2 ^ 63 \<Longrightarrow> uint (word_of_int i :: u64) = i"
  by (simp add: take_bit_int_eq_self unsigned_of_int)

lemma sint_small: "uint (w :: u64) < 2 ^ 63 \<Longrightarrow> sint w = uint w"
proof -
  assume w: "uint w < 2 ^ 63"
  have "(0 :: int) \<le> uint w" by (rule unsigned_greater_eq)
  then have "- (2 ^ 63) \<le> uint w" by (rule order_trans [rotated]) simp
  then have "signed_take_bit 63 (uint w) = uint w" using w by (rule signed_take_bit_int_eq_self)
  then show ?thesis by (simp add: sint_uint)
qed

lemma uint_deadline:
  assumes "steady_clock env" "0 \<le> ms" "ms \<le> 3000"
  shows "uint (word_of_int ms + reading env k) = ms + clk env k"
proof -
  have sum: "word_of_int ms + reading env k = word_of_int (ms + clk env k)"
    by (simp add: reading_def clk_def split: prod.splits)
  have "0 \<le> ms + clk env k" "ms + clk env k < 2 ^ 63"
    using assms by (auto simp: steady_clock_def dest: spec [of _ k])
  then show ?thesis unfolding sum by (rule uint_small)
qed

lemma sint_reading: "steady_clock env \<Longrightarrow> sint (reading env k) = clk env k"
proof -
  assume c: "steady_clock env"
  then have "uint (reading env k) = clk env k" using uint_deadline [of env 0 k] by simp
  moreover have "clk env k < 2 ^ 63" using c by (auto simp: steady_clock_def dest: spec [of _ k])
  ultimately show ?thesis using sint_small by simp
qed

section \<open>Deadlines\<close>

definition sleeping :: "world \<Rightarrow> nat \<Rightarrow> u64 option" where
  "sleeping w = asleep Map.empty (log w)"

text \<open>The deadlines of the wakes of a log, in their order.\<close>

fun wakes :: "event list \<Rightarrow> int list" where
  "wakes [] = []"
| "wakes (Woke c ex t # es) = uint ex # wakes es"
| "wakes (e # es) = wakes es"

lemma wakes_append [simp]: "wakes (xs @ ys) = wakes xs @ wakes ys"
  by (induction xs rule: wakes.induct) auto

definition time_inv :: "environment \<Rightarrow> world \<Rightarrow> bool" where
  "time_inv env w \<longleftrightarrow> sorted (wakes (log w)) \<and>
     (\<forall>c ex. sleeping w c = Some ex \<longrightarrow> uint ex < 2 ^ 63 \<and> uint ex \<le> clk env (readings w) + 3000 \<and>
        (\<forall>e \<in> set (wakes (log w)). e \<le> uint ex))"

text \<open>A resumed coroutine's entries: it sleeps until one of its two times after the reading.\<close>

lemma slice_log_time:
  assumes "steady_clock env" "slice_log env k c es"
  obtains ex where "asleep m es = m(c \<mapsto> ex)" "wakes es = []" "clk env k < uint ex" "uint ex < 2 ^ 63"
    "uint ex \<le> clk env (k + 1) + 3000"
proof -
  obtain p ms where es: "es = [p, Slept c (word_of_int ms + reading env (k + 1))]" "ms = 1000 \<or> ms = 3000"
    "(\<exists>s i. p = PrintFoo s i) \<or> (\<exists>s. p = PrintBar s)"
    using assms(2) unfolding slice_log_def by blast
  have "uint (word_of_int ms + reading env (k + 1)) = ms + clk env (k + 1)"
    using uint_deadline [OF assms(1), of ms "k + 1"] es(2) by auto
  moreover have "clk env k \<le> clk env (k + 1)" "clk env (k + 1) < 2 ^ 62"
    using assms(1) by (auto simp: steady_clock_def)
  ultimately show thesis
    using es by (intro that [of "word_of_int ms + reading env (k + 1)"]) auto
qed

text \<open>Tasks and the log agree; the least task is a least deadline.\<close>

lemma least_task_sleeping:
  assumes "log_inv w" "least_task w a" "tasks w a = Some t"
  shows "sleeping w (coroutine t) = Some (expire t)" "sleeping w c = Some ex \<Longrightarrow> uint (expire t) \<le> uint ex"
proof -
  show "sleeping w (coroutine t) = Some (expire t)"
    using assms unfolding log_inv_def sleeping_def by blast
  assume "sleeping w c = Some ex"
  then obtain b u where "tasks w b = Some u" "expire u = ex"
    using assms(1) unfolding log_inv_def sleeping_def by blast
  then show "uint (expire t) \<le> uint ex"
    using assms(2,3) by (auto simp: least_task_def word_le_def dest!: bspec [of _ _ b])
qed

lemma ex_least_task:
  assumes "finite (dom (tasks w))" "tasks w \<noteq> Map.empty"
  shows "\<exists>a. least_task w a"
proof -
  have "dom (tasks w) \<noteq> {}" using assms(2) by simp
  then obtain a where "is_arg_min (\<lambda>a. expire (the (tasks w a))) (\<lambda>a. a \<in> dom (tasks w)) a"
    using ex_is_arg_min_if_finite [OF assms(1)] by blast
  then show ?thesis by (auto simp: least_task_def is_arg_min_linorder)
qed

lemma finite_tasks: "world_ok X w \<Longrightarrow> finite (dom (tasks w))"
  by (auto simp: world_ok_def sched_inv_def split: option.splits)

text \<open>A wake-up of the coroutine with the least deadline keeps the order of the wake-ups.\<close>

lemma wake_time_inv:
  assumes inv: "time_inv env w" and clock: "steady_clock env" and r: "readings w' = readings w + 3"
    and least: "sleeping w c0 = Some ex" "\<And>c e. sleeping w c = Some e \<Longrightarrow> uint ex \<le> uint e"
    and passed: "uint ex < clk env (readings w)"
    and ex': "clk env (readings w) < uint ex'" "uint ex' < 2 ^ 63" "uint ex' \<le> clk env (readings w + 1 + 1) + 3000"
    and w': "sleeping w' = (sleeping w)(c0 \<mapsto> ex')" "wakes (log w') = wakes (log w) @ [uint ex]"
  shows "time_inv env w'"
proof -
  have before: "e \<le> uint ex" if "e \<in> set (wakes (log w))" for e
    using inv least(1) that unfolding time_inv_def by blast
  show ?thesis
    unfolding time_inv_def w'
  proof (intro conjI allI impI)
    show "sorted (wakes (log w) @ [uint ex])"
      using inv before by (simp add: time_inv_def sorted_append)
    fix c e assume ce: "((sleeping w)(c0 \<mapsto> ex')) c = Some e"
    have "clk env (readings w) \<le> clk env (readings w')" "clk env (readings w + 1 + 1) \<le> clk env (readings w')"
      using steady_clock_mono [OF clock] r by simp_all
    moreover have "uint e \<le> clk env (readings w) + 3000 \<or> e = ex'"
      using ce inv by (auto simp: time_inv_def split: if_splits)
    ultimately show "uint e \<le> clk env (readings w') + 3000" using ex'(3) by auto
    show "uint e < 2 ^ 63" using ce ex'(2) inv by (auto simp: time_inv_def split: if_splits)
    have "uint ex \<le> uint e" using ce ex'(1) passed least(2) by (auto split: if_splits)
    then show "\<forall>x\<in>set (wakes (log w) @ [uint ex]). x \<le> uint e" using before by fastforce
  qed
qed

text \<open>
  One turn in terms of deadlines: nothing changes and none has passed, or a coroutine with the least
  deadline, which has passed, gets a later one.
\<close>

lemma turn_deadlines:
  assumes ok: "world_ok {#} w" and env: "good_env env" and clock: "steady_clock env" and inv: "time_inv env w"
    and some: "sleeping w c0 = Some ex0"
  shows "\<exists>w'. eventloop_step env w = Some w' \<and> world_ok {#} w' \<and> time_inv env w' \<and> readings w < readings w' \<and>
    (log w' = log w \<and> (\<forall>c ex. sleeping w c = Some ex \<longrightarrow> clk env (readings w) \<le> uint ex) \<or>
     (\<exists>c ex ex' t es. log w' = log w @ Woke c ex t # es \<and> sleeping w c = Some ex \<and>
        (\<forall>c' e. sleeping w c' = Some e \<longrightarrow> uint ex \<le> uint e) \<and>
        sleeping w' = (sleeping w)(c \<mapsto> ex') \<and> clk env (readings w) < uint ex'))"
proof -
  have log: "log_inv w" using ok by (simp add: world_ok_def)
  have ne: "tasks w \<noteq> Map.empty" using log some unfolding log_inv_def sleeping_def by force
  obtain w' where w': "eventloop_step env w = Some w'" "world_ok {#} w'" "readings w < readings w'"
    "turn_due env w \<longrightarrow> readings w' = readings w + 3" "if turn_due env w then \<exists>a. turn_wakes env w w' a else turn_idle w w'"
    using eventloop_step_ok [OF ok env] ne by force
  obtain a where "least_task w a" using ex_least_task [OF finite_tasks [OF ok] ne] by blast
  then obtain t where a: "least_task w a" "tasks w a = Some t" by (auto simp: least_task_def)
  have range: "uint (expire u) < 2 ^ 63" if "tasks w b = Some u" for b u
    using inv log that unfolding time_inv_def log_inv_def sleeping_def by blast
  have due: "sint (expire u) < sint (fst (now env w)) \<longleftrightarrow> uint (expire u) < clk env (readings w)"
    if "tasks w b = Some u" for b u
    using sint_small [OF range [OF that]] sint_reading [OF clock] by (simp add: now_reading)
  show ?thesis
  proof (cases "turn_due env w")
    case False
    then have idle: "log w' = log w" using w'(5) by (simp add: turn_idle_def)
    then have same: "sleeping w' = sleeping w" by (simp add: sleeping_def)
    have "clk env (readings w) \<le> uint ex" if "sleeping w c = Some ex" for c ex
    proof -
      have "clk env (readings w) \<le> uint (expire t)"
        using False a due [OF a(2)] unfolding turn_due_def by force
      then show ?thesis using least_task_sleeping(2) [OF log a that] by simp
    qed
    moreover have "clk env (readings w) \<le> clk env (readings w')" using steady_clock_mono [OF clock] w'(3) by simp
    then have "time_inv env w'" using inv idle same unfolding time_inv_def by (metis add_right_mono order_trans)
    ultimately show ?thesis using w'(1-3) idle by blast
  next
    case True
    then obtain b u es where b: "least_task w b" "tasks w b = Some u"
      "sint (expire u) < sint (fst (now env w))"
      "log w' = log w @ Woke (coroutine u) (expire u) (fst (now env w)) # es"
      "slice_log env (readings w + 1) (coroutine u) es"
      using w'(5) by (auto simp: turn_wakes_def)
    have passed: "uint (expire u) < clk env (readings w)" using b(3) due [OF b(2)] by simp
    obtain ex' where ex': "asleep ((sleeping w)(coroutine u := None)) es = (sleeping w)(coroutine u := None, coroutine u \<mapsto> ex')"
      "wakes es = []" "clk env (readings w + 1) < uint ex'" "uint ex' < 2 ^ 63"
      "uint ex' \<le> clk env (readings w + 1 + 1) + 3000"
      by (rule slice_log_time [OF clock b(5)])
    have later: "clk env (readings w) < uint ex'"
      using ex'(3) steady_clock_mono [OF clock, of "readings w" "readings w + 1"] by simp
    have sl: "sleeping w' = (sleeping w)(coroutine u \<mapsto> ex')" using b(4) ex'(1) by (simp add: sleeping_def)
    have least: "sleeping w (coroutine u) = Some (expire u)"
      "\<And>c e. sleeping w c = Some e \<Longrightarrow> uint (expire u) \<le> uint e"
      using least_task_sleeping [OF log b(1,2)] by blast+
    have wk: "wakes (log w') = wakes (log w) @ [uint (expire u)]" using b(4) ex'(2) by simp
    have "time_inv env w'"
      by (rule wake_time_inv [OF inv clock _ least passed later ex'(4,5) sl wk]) (use w'(4) True in simp_all)
    then show ?thesis using w'(1-3) b(4) least sl later by blast
  qed
qed

section \<open>Waking\<close>

lemma eventloop_turns_add: "eventloop_turns env (m + n) w = do { w' \<leftarrow> eventloop_turns env m w; eventloop_turns env n w' }"
  by (induction n) (simp_all add: bind_assoc)

text \<open>The coroutines that are to be woken before or with a deadline \<open>d\<close>.\<close>

definition rivals :: "world \<Rightarrow> u64 \<Rightarrow> nat set" where
  "rivals w d = {c. \<exists>ex. sleeping w c = Some ex \<and> uint ex \<le> uint d}"

lemma finite_rivals: "world_ok {#} w \<Longrightarrow> finite (rivals w d)"
proof -
  assume ok: "world_ok {#} w"
  then have "log_inv w" by (simp add: world_ok_def)
  then have "rivals w d \<subseteq> (\<lambda>a. coroutine (the (tasks w a))) ` dom (tasks w)"
    unfolding rivals_def log_inv_def sleeping_def by force
  then show ?thesis using finite_tasks [OF ok] finite_surj by blast
qed

lemma wake_decreases:
  assumes clock: "steady_clock env" and m: "uint ex < clk env m" and r: "readings w < readings w'"
    and fin: "finite (rivals w ex)" and c: "c \<in> rivals w ex"
    and w': "sleeping w' = (sleeping w)(c \<mapsto> ex')" "clk env (readings w) < uint ex'"
  shows "(m - readings w') + card (rivals w' ex) < (m - readings w) + card (rivals w ex)"
proof -
  have sub: "rivals w' ex \<subseteq> rivals w ex" using c by (auto simp: rivals_def w'(1) split: if_splits)
  show ?thesis
  proof (cases "readings w < m")
    case True
    then show ?thesis using card_mono [OF fin sub] r by linarith
  next
    case False
    then have "clk env m \<le> clk env (readings w)" using steady_clock_mono [OF clock] by simp
    then have "c \<notin> rivals w' ex" using w' m by (auto simp: rivals_def)
    then have "rivals w' ex \<subset> rivals w ex" using sub c by blast
    then have "card (rivals w' ex) < card (rivals w ex)" using fin by (rule psubset_card_mono [rotated])
    then show ?thesis using False r by linarith
  qed
qed

text \<open>
  From a state in which \<open>c\<close> sleeps until \<open>ex\<close>, with \<open>N\<close> the readings the clock still needs to pass
  \<open>ex\<close> and the coroutines before \<open>c\<close>: it is woken within \<open>N\<close> turns.
\<close>

lemma woken_within:
  assumes env: "good_env env" and clock: "steady_clock env" and m: "uint ex < clk env m"
  shows "world_ok {#} w \<Longrightarrow> time_inv env w \<Longrightarrow> sleeping w c = Some ex \<Longrightarrow>
    (m - readings w) + card (rivals w ex) = N \<Longrightarrow>
    \<exists>n w' es t. n \<le> N \<and> eventloop_turns env n w = Some w' \<and> log w' = log w @ es \<and> Woke c ex t \<in> set es"
proof (induction N arbitrary: w rule: less_induct)
  case (less N)
  obtain w' where w': "eventloop_step env w = Some w'" "world_ok {#} w'" "time_inv env w'" "readings w < readings w'"
    and cases: "log w' = log w \<and> (\<forall>c ex. sleeping w c = Some ex \<longrightarrow> clk env (readings w) \<le> uint ex) \<or>
     (\<exists>c ex ex' t es. log w' = log w @ Woke c ex t # es \<and> sleeping w c = Some ex \<and>
        (\<forall>c' e. sleeping w c' = Some e \<longrightarrow> uint ex \<le> uint e) \<and>
        sleeping w' = (sleeping w)(c \<mapsto> ex') \<and> clk env (readings w) < uint ex')"
    using turn_deadlines [OF less.prems(1) env clock less.prems(2,3)] by blast
  have one: "eventloop_turns env 1 w = Some w'" using w'(1) by simp
  have c: "c \<in> rivals w ex" using less.prems(3) by (auto simp: rivals_def)
  have fin: "finite (rivals w ex)" by (rule finite_rivals [OF less.prems(1)])
  have go_on: ?case if h: "sleeping w' c = Some ex" "(m - readings w') + card (rivals w' ex) < N" "log w' = log w @ es" for es
  proof -
    obtain n w2 es2 t where "n \<le> (m - readings w') + card (rivals w' ex)" "eventloop_turns env n w' = Some w2"
      "log w2 = log w' @ es2" "Woke c ex t \<in> set es2"
      using less.IH [OF h(2) w'(2,3) h(1) refl] by blast
    then show ?thesis
      using h(2,3) one eventloop_turns_add [of env 1 n w]
      by (intro exI [of _ "1 + n"] exI [of _ w2] exI [of _ "es @ es2"] exI [of _ t]) auto
  qed
  from cases show ?case
  proof (elim disjE exE conjE)
    assume idle: "log w' = log w" and late: "\<forall>c ex. sleeping w c = Some ex \<longrightarrow> clk env (readings w) \<le> uint ex"
    have "readings w < m"
    proof (rule ccontr)
      assume "\<not> readings w < m"
      then have "clk env m \<le> clk env (readings w)" using steady_clock_mono [OF clock] by simp
      then show False using late less.prems(3) m by force
    qed
    moreover have "sleeping w' = sleeping w" using idle by (simp add: sleeping_def)
    moreover from this have "rivals w' ex = rivals w ex" by (simp add: rivals_def)
    ultimately show ?case using less.prems(3,4) w'(4) idle by (intro go_on [of "[]"]) auto
  next
    fix c1 ex1 ex1' t es
    assume wake: "log w' = log w @ Woke c1 ex1 t # es" "sleeping w c1 = Some ex1"
      "\<forall>c' e. sleeping w c' = Some e \<longrightarrow> uint ex1 \<le> uint e" "sleeping w' = (sleeping w)(c1 \<mapsto> ex1')"
      "clk env (readings w) < uint ex1'"
    show ?case
    proof (cases "c1 = c")
      case True
      have "1 \<le> N" using c fin less.prems(4) by (metis add_leD2 card_gt_0_iff empty_iff less_one linorder_not_less le_refl)
      then show ?thesis using True wake(1,2) less.prems(3) one
        by (intro exI [of _ 1] exI [of _ w'] exI [of _ "Woke c1 ex1 t # es"] exI [of _ t]) auto
    next
      case False
      have c1: "c1 \<in> rivals w ex" using wake(2,3) less.prems(3) by (auto simp: rivals_def)
      have "(m - readings w') + card (rivals w' ex) < N"
        using wake_decreases [OF clock m w'(4) fin c1 wake(4,5)] less.prems(4) by simp
      then show ?thesis using False wake(1,4) less.prems(3) by (intro go_on) auto
    qed
  qed
qed

section \<open>The whole program\<close>

definition clocked :: "environment \<Rightarrow> world \<Rightarrow> bool" where
  "clocked env w \<longleftrightarrow> world_ok {#} w \<and> time_inv env w \<and> card (dom (sleeping w)) = 2"

lemma main_clocked:
  assumes "good_env env" "steady_clock env"
  shows "\<exists>w. main_start env = Some w \<and> clocked env w \<and> readings w = 4"
proof -
  obtain w c1 c2 es1 es2 where w: "main_start env = Some w" "world_ok {#} w" "readings w = 4"
    "log w = es1 @ es2" "slice_log env 0 c1 es1" "slice_log env 2 c2 es2"
    using main_start_ok [OF assms(1)] by blast
  obtain e1 where e1: "asleep Map.empty es1 = [c1 \<mapsto> e1]" "wakes es1 = []" "uint e1 < 2 ^ 63"
    "uint e1 \<le> clk env (0 + 1) + 3000"
    by (rule slice_log_time [OF assms(2) w(5)])
  obtain e2 where e2: "asleep [c1 \<mapsto> e1] es2 = [c1 \<mapsto> e1, c2 \<mapsto> e2]" "wakes es2 = []" "uint e2 < 2 ^ 63"
    "uint e2 \<le> clk env (2 + 1) + 3000"
    by (rule slice_log_time [OF assms(2) w(6)])
  have "log_ok (asleep Map.empty es1) es2" using w(2,4) by (simp add: world_ok_def log_inv_def)
  then have "c1 \<noteq> c2" using w(6) by (auto simp: slice_log_def e1(1) split: if_splits)
  moreover have "clk env (0 + 1) \<le> clk env 4" "clk env (2 + 1) \<le> clk env 4"
    using steady_clock_mono [OF assms(2)] by simp_all
  ultimately have "clocked env w"
    using w(2-4) e1 e2 by (auto simp: clocked_def time_inv_def sleeping_def)
  then show ?thesis using w by blast
qed

lemma turns_clocked:
  assumes env: "good_env env" "steady_clock env" and w: "clocked env w"
  shows "\<exists>w'. eventloop_turns env n w = Some w' \<and> clocked env w'"
proof (induction n)
  case 0
  then show ?case using w by simp
next
  case (Suc n)
  then obtain w1 where w1: "eventloop_turns env n w = Some w1" "clocked env w1" by blast
  have "dom (sleeping w1) \<noteq> {}" using w1(2) unfolding clocked_def by (metis card.empty zero_neq_numeral)
  then obtain c0 ex0 where "sleeping w1 c0 = Some ex0" by blast
  then obtain w2 where w2: "eventloop_step env w1 = Some w2" "world_ok {#} w2" "time_inv env w2"
    and cases: "log w2 = log w1 \<or> (\<exists>c ex ex'. sleeping w1 c = Some ex \<and> sleeping w2 = (sleeping w1)(c \<mapsto> ex'))"
    using turn_deadlines [OF _ env, of w1 c0 ex0] w1(2) unfolding clocked_def by blast
  from cases have "dom (sleeping w2) = dom (sleeping w1)"
  proof
    assume "log w2 = log w1"
    then show ?thesis by (simp add: sleeping_def)
  qed (auto split: if_splits)
  then show ?case using w1 w2 by (simp add: clocked_def)
qed

text \<open>
  C8: With a steady clock no sleep lasts for ever and no deadline is overtaken.  After any number of
  turns both coroutines sleep, until at most 3 seconds after the clock's next reading, the wakes so far were in
  the order of their deadlines, and a sleeping coroutine whose deadline the \<open>m\<close>-th reading passes is
  woken for it in no more turns than the readings up to the \<open>m\<close>-th and two.
\<close>

theorem sleepers_wake:
  assumes "good_env env" and "steady_clock env"
  shows "\<exists>w0 w. main_start env = Some w0 \<and> eventloop_turns env n w0 = Some w \<and>
    card (dom (sleeping w)) = 2 \<and> sorted (wakes (log w)) \<and>
    (\<forall>c ex. sleeping w c = Some ex \<longrightarrow> uint ex \<le> clk env (readings w) + 3000 \<and>
      (\<forall>m. uint ex < clk env m \<longrightarrow>
        (\<exists>k w' es t. k \<le> (m - readings w) + 2 \<and> eventloop_turns env (n + k) w0 = Some w' \<and>
           log w' = log w @ es \<and> Woke c ex t \<in> set es)))"
proof -
  obtain w0 where w0: "main_start env = Some w0" "clocked env w0" using main_clocked [OF assms] by blast
  obtain w where w: "eventloop_turns env n w0 = Some w" "clocked env w" using turns_clocked [OF assms w0(2)] by blast
  have ok: "world_ok {#} w" "time_inv env w" "card (dom (sleeping w)) = 2" using w(2) by (simp_all add: clocked_def)
  have two: "card (rivals w ex) \<le> 2" for ex
  proof -
    have "rivals w ex \<subseteq> dom (sleeping w)" by (auto simp: rivals_def)
    moreover have "finite (dom (sleeping w))" using ok(3) card.infinite by fastforce
    ultimately show ?thesis using ok(3) card_mono by metis
  qed
  have "\<exists>k w' es t. k \<le> (m - readings w) + 2 \<and> eventloop_turns env (n + k) w0 = Some w' \<and>
      log w' = log w @ es \<and> Woke c ex t \<in> set es" if h: "sleeping w c = Some ex" "uint ex < clk env m" for c ex m
  proof -
    obtain k w' es t where k: "k \<le> (m - readings w) + card (rivals w ex)" "eventloop_turns env k w = Some w'"
      "log w' = log w @ es" "Woke c ex t \<in> set es"
      using woken_within [OF assms h(2) ok(1,2) h(1) refl] by blast
    then show ?thesis using two [of ex] w(1) eventloop_turns_add [of env n k w0]
      by (intro exI [of _ k] exI [of _ w'] exI [of _ es] exI [of _ t]) auto
  qed
  then show ?thesis using w0(1) w(1) ok(2,3) unfolding time_inv_def by blast
qed

text \<open>A clock that advances by a second with every reading, until it stops: both coroutines are woken.\<close>

definition steady_env :: environment where
  "steady_env = sample_env\<lparr>e_time := (\<lambda>n. (int (min n 100), 0))\<rparr>"

lemma sleepers_wake_witness:
  "\<exists>w0. main_start steady_env = Some w0 \<and> (\<forall>c ex. sleeping w0 c = Some ex \<longrightarrow>
     (\<exists>k w es t. k \<le> 8 \<and> eventloop_turns steady_env k w0 = Some w \<and> log w = log w0 @ es \<and> Woke c ex t \<in> set es))"
proof -
  have good: "good_env steady_env" using sample_env_good by (simp add: good_env_def steady_env_def)
  have clk: "clk steady_env k = int (min k 100) * 1000" for k by (simp add: clk_def steady_env_def)
  have steady: "steady_clock steady_env" by (auto simp: steady_clock_def clk)
  obtain w0 where w0: "main_start steady_env = Some w0" "readings w0 = 4" using main_clocked [OF good steady] by blast
  have all: "\<forall>c ex. sleeping w0 c = Some ex \<longrightarrow> uint ex \<le> clk steady_env (readings w0) + 3000 \<and>
      (\<forall>m. uint ex < clk steady_env m \<longrightarrow>
        (\<exists>k w' es t. k \<le> (m - readings w0) + 2 \<and> eventloop_turns steady_env (0 + k) w0 = Some w' \<and>
           log w' = log w0 @ es \<and> Woke c ex t \<in> set es))"
    using sleepers_wake [OF good steady, of 0] w0(1) by auto
  have "\<exists>k w es t. k \<le> 8 \<and> eventloop_turns steady_env k w0 = Some w \<and> log w = log w0 @ es \<and> Woke c ex t \<in> set es"
    if "sleeping w0 c = Some ex" for c ex
  proof -
    have "uint ex < clk steady_env 10" using all that w0(2) by (force simp: clk)
    then show ?thesis using all that w0(2) by fastforce
  qed
  then show ?thesis using w0(1) by blast
qed

end
