(* ===== verification/Switching.thy ===== *)
theory Switching
  imports SwapContext
begin

text \<open>
  \<open>coroutine_new\<close>, \<open>coroutine_resume\<close> and \<open>coroutine_yield\<close> of \<open>cpu/my_coroutine.c\<close> on the machine of
  \<open>SwapContext\<close>: the main program (number 0) and the coroutines 1 to \<open>n\<close> share one processor and one memory.
  The specification is a processor for each of them, one of which runs; the code refines it as long as no
  context and no stack overlaps another.
\<close>

section \<open>Where things lie\<close>

record layout =
  ly_sched :: u64               \<comment> \<open>\<open>_sched\<close>, which begins with \<open>main_context\<close>\<close>
  ly_stack :: "nat \<times> nat"       \<comment> \<open>the main program's stack, from and to\<close>
  ly_co :: "nat \<Rightarrow> u64"         \<comment> \<open>the \<open>struct coroutine\<close>, which begins with its context\<close>

definition CO_STACK_SIZE :: nat where "CO_STACK_SIZE = 32 * 1024"

definition ctx_at :: "layout \<Rightarrow> nat \<Rightarrow> u64" where
  "ctx_at L t = (if t = 0 then ly_sched L else ly_co L t)"

text \<open>Ranges of addresses: a context of 64 bytes, and the array \<open>stack\<close> behind it.\<close>

definition ctx_range :: "layout \<Rightarrow> nat \<Rightarrow> nat \<times> nat" where
  "ctx_range L t = (unat (ctx_at L t), unat (ctx_at L t) + 64)"

definition stack_range :: "layout \<Rightarrow> nat \<Rightarrow> nat \<times> nat" where
  "stack_range L t =
     (if t = 0 then ly_stack L else (unat (ly_co L t) + 64, unat (ly_co L t) + 64 + CO_STACK_SIZE))"

definition within :: "u64 \<Rightarrow> nat \<times> nat \<Rightarrow> bool" where
  "within p r \<longleftrightarrow> fst r \<le> unat p \<and> unat p < snd r"

definition apart :: "nat \<times> nat \<Rightarrow> nat \<times> nat \<Rightarrow> bool" where
  "apart r q \<longleftrightarrow> snd r \<le> fst q \<or> snd q \<le> fst r"

definition layout_ok :: "nat \<Rightarrow> layout \<Rightarrow> bool" where
  "layout_ok n L \<longleftrightarrow> (\<forall>t \<le> n. aligned8 (ctx_at L t) \<and> snd (ctx_range L t) \<le> 2 ^ 64 \<and> snd (stack_range L t) < 2 ^ 64 \<and>
     (\<forall>u \<le> n. apart (ctx_range L t) (stack_range L u) \<and>
       (t \<noteq> u \<longrightarrow> apart (ctx_range L t) (ctx_range L u) \<and> apart (stack_range L t) (stack_range L u))))"

section \<open>The code\<close>

text \<open>The processor, who runs on it, and \<open>sched->current\<close> (0 before the first resume).\<close>

record machine =
  m_cpu :: cpu
  m_run :: nat
  m_current :: nat

text \<open>Registers 4 and 5 of a new context are set; the others keep what \<open>malloc\<close> has left in them.\<close>

definition new_context :: "u64 \<Rightarrow> u64 \<Rightarrow> cpu \<Rightarrow> cpu" where
  "new_context func c s = s\<lparr>mem := (mem s)(c + 8 * 4 := func, c + 8 * 5 := c + 64 + of_nat CO_STACK_SIZE)\<rparr>"

definition resume_switch :: "layout \<Rightarrow> u64 \<Rightarrow> nat \<Rightarrow> machine \<Rightarrow> machine option" where
  "resume_switch L ret co x = do {
     s \<leftarrow> swap_context ret (ly_sched L) (ly_co L co) (m_cpu x);
     Some \<lparr>m_cpu = s, m_run = co, m_current = co\<rparr>
   }"

definition yield_switch :: "layout \<Rightarrow> u64 \<Rightarrow> machine \<Rightarrow> machine option" where
  "yield_switch L ret x = do {
     s \<leftarrow> swap_context ret (ly_co L (m_current x)) (ly_sched L) (m_cpu x);
     Some (x\<lparr>m_cpu := s, m_run := 0\<rparr>)
   }"

text \<open>
  What can happen: the running program computes, on its registers, its own stack and any memory that is no
  context and no stack, or it calls one of the two functions with room for the return address.
\<close>

definition own_work :: "nat \<Rightarrow> layout \<Rightarrow> nat \<Rightarrow> cpu \<Rightarrow> cpu \<Rightarrow> bool" where
  "own_work n L t s s' \<longleftrightarrow> (\<forall>p. mem s' p \<noteq> mem s p \<longrightarrow>
     (\<forall>u \<le> n. \<not> within p (ctx_range L u) \<and> (u \<noteq> t \<longrightarrow> \<not> within p (stack_range L u))))"

definition room :: "layout \<Rightarrow> machine \<Rightarrow> bool" where
  "room L x \<longleftrightarrow> aligned8 (regs (m_cpu x) RSP - 8) \<and> within (regs (m_cpu x) RSP - 8) (stack_range L (m_run x))"

inductive machine_step :: "nat \<Rightarrow> layout \<Rightarrow> machine \<Rightarrow> machine \<Rightarrow> bool" for n L where
  work: "own_work n L (m_run x) (m_cpu x) s \<Longrightarrow> machine_step n L x (x\<lparr>m_cpu := s\<rparr>)"
| resume: "m_run x = 0 \<Longrightarrow> 1 \<le> co \<Longrightarrow> co \<le> n \<Longrightarrow> room L x \<Longrightarrow> resume_switch L ret co x = Some y \<Longrightarrow> machine_step n L x y"
| yield: "m_run x \<noteq> 0 \<Longrightarrow> room L x \<Longrightarrow> yield_switch L ret x = Some y \<Longrightarrow> machine_step n L x y"

inductive_cases machine_stepE: "machine_step n L x y"

section \<open>The specification\<close>

text \<open>
  A processor of one's own: the eight registers in the order of a context (the instruction pointer is number
  4, the stack pointer number 5) and a stack.
\<close>

type_synonym processor = "u64 list \<times> (u64 \<Rightarrow> u64 option)"

text \<open>Calling a function that returns later: its return address is pushed and popped.\<close>

definition after_call :: "u64 \<Rightarrow> processor \<Rightarrow> processor" where
  "after_call ret v = (case v of (rs, stk) \<Rightarrow> (rs[4 := ret], stk(rs ! 5 - 8 \<mapsto> ret)))"

text \<open>One runs; a switch changes nothing but who does, up to the call itself.\<close>

inductive processor_step :: "nat \<times> processor list \<Rightarrow> nat \<times> processor list \<Rightarrow> bool" where
  run: "processor_step (t, vs) (t, vs[t := v])"
| hand_over: "1 \<le> co \<Longrightarrow> co < length vs \<Longrightarrow> processor_step (0, vs) (co, vs[0 := after_call ret (vs ! 0)])"
| hand_back: "t \<noteq> 0 \<Longrightarrow> processor_step (t, vs) (0, vs[t := after_call ret (vs ! t)])"

text \<open>The abstraction: the registers are the real ones for who runs, and what the context holds for others.\<close>

definition live_regs :: "cpu \<Rightarrow> u64 list" where
  "live_regs s = [regs s R12, regs s R13, regs s R14, regs s R15, rip s, regs s RSP, regs s RBX, regs s RBP]"

definition saved_regs :: "cpu \<Rightarrow> u64 \<Rightarrow> u64 list" where
  "saved_regs s a = map (ctx_reg s a) [0..<8]"

definition view :: "layout \<Rightarrow> machine \<Rightarrow> nat \<Rightarrow> processor" where
  "view L x t =
     (if t = m_run x then live_regs (m_cpu x) else saved_regs (m_cpu x) (ctx_at L t),
      \<lambda>p. if within p (stack_range L t) then Some (mem (m_cpu x) p) else None)"

definition views :: "nat \<Rightarrow> layout \<Rightarrow> machine \<Rightarrow> processor list" where
  "views n L x = map (view L x) [0..<n + 1]"

definition machine_ok :: "nat \<Rightarrow> machine \<Rightarrow> bool" where
  "machine_ok n x \<longleftrightarrow> m_run x \<le> n \<and> (m_run x \<noteq> 0 \<longrightarrow> m_current x = m_run x)"

section \<open>One switch\<close>

lemma ctx_cell_within:
  assumes "layout_ok n L" "t \<le> n" "i < 8"
  shows "within (ctx_at L t + 8 * of_nat i) (ctx_range L t)"
proof -
  have le: "unat (ctx_at L t) + 64 \<le> 2 ^ 64" using assms(1,2) by (auto simp: layout_ok_def ctx_range_def)
  have "unat (8 * of_nat i :: u64) = 8 * i" using assms(3) by (simp add: unat_word_ariths unat_of_nat)
  then have "unat (ctx_at L t + 8 * of_nat i) = unat (ctx_at L t) + 8 * i"
    using le assms(3) by (simp add: unat_word_ariths)
  then show ?thesis using assms(3) by (simp add: within_def ctx_range_def)
qed

lemma within_apart: "within p r \<Longrightarrow> apart r q \<Longrightarrow> \<not> within p q"
  by (auto simp: within_def apart_def)

lemma outside_ctx:
  assumes "layout_ok n L" "t \<le> n" "\<not> within p (ctx_range L t)"
  shows "ctx_off (ctx_at L t) p"
  using assms ctx_cell_within by (auto simp: ctx_off_def ctx_cells_def)

lemma switch_effect:
  assumes ok: "layout_ok n L" and tu: "t \<le> n" "u \<le> n" "t \<noteq> u"
    and room: "aligned8 (regs s RSP - 8)" "within (regs s RSP - 8) (stack_range L t)"
  shows "\<exists>s'. swap_context ret (ctx_at L t) (ctx_at L u) s = Some s' \<and>
    live_regs s' = saved_regs s (ctx_at L u) \<and> saved_regs s' (ctx_at L t) = (live_regs s)[4 := ret] \<and>
    (\<forall>v \<le> n. v \<noteq> t \<longrightarrow> saved_regs s' (ctx_at L v) = saved_regs s (ctx_at L v)) \<and>
    (\<forall>v \<le> n. \<forall>p. within p (stack_range L v) \<longrightarrow> mem s' p = (if p = regs s RSP - 8 then ret else mem s p))"
proof -
  let ?a = "ctx_at L t" and ?b = "ctx_at L u" and ?sp = "regs s RSP - 8"
  have al: "aligned8 ?a" "aligned8 ?b" using ok tu by (auto simp: layout_ok_def)
  obtain s' where s': "swap_context ret ?a ?b s = Some s'" "mem s' = saved_mem ret ?a s"
    "rip s' = mem s' (?b + 32) \<and> regs s' RSP = mem s' (?b + 40) \<and> regs s' R12 = mem s' ?b \<and>
     regs s' R13 = mem s' (?b + 8) \<and> regs s' R14 = mem s' (?b + 16) \<and> regs s' R15 = mem s' (?b + 24) \<and>
     regs s' RBX = mem s' (?b + 48) \<and> regs s' RBP = mem s' (?b + 56)"
    using swap_context_eq [OF room(1) al, of ret] by blast
  note save = swap_context_save [OF s'(1) room(1) al]
  have sp_off: "\<not> within ?sp (ctx_range L v)" if "v \<le> n" for v
    using ok that tu room(2) within_apart [of ?sp "stack_range L t" "ctx_range L v"]
    by (auto simp: layout_ok_def apart_def)
  have others: "saved_regs s' (ctx_at L v) = saved_regs s (ctx_at L v)" if v: "v \<le> n" "v \<noteq> t" for v
  proof -
    have "mem s' (ctx_at L v + 8 * of_nat i) = mem s (ctx_at L v + 8 * of_nat i)" if "i < 8" for i
    proof (rule save(2))
      let ?p = "ctx_at L v + 8 * of_nat i"
      have p: "within ?p (ctx_range L v)" using ctx_cell_within [OF ok v(1) that] .
      show "?p \<noteq> ?sp" using p sp_off [OF v(1)] by auto
      have "apart (ctx_range L v) (ctx_range L t)" using ok v tu by (auto simp: layout_ok_def)
      then show "ctx_off ?a ?p" using outside_ctx [OF ok tu(1)] within_apart [OF p] by blast
    qed
    then show ?thesis by (simp add: saved_regs_def ctx_reg_def)
  qed
  have "live_regs s' = saved_regs s' ?b" using s'(3) by (simp add: live_regs_def saved_regs_def ctx_regs_eq)
  then have "live_regs s' = saved_regs s ?b" using others [OF tu(2)] tu(3) by simp
  moreover have "saved_regs s' ?a = (live_regs s)[4 := ret]"
    using save(1) by (simp add: ctx_of_caller_def saved_regs_def live_regs_def numeral_eq_Suc)
  moreover have "mem s' p = (if p = ?sp then ret else mem s p)" if v: "v \<le> n" "within p (stack_range L v)" for v p
  proof -
    have off: "\<not> within p (ctx_range L t)"
      using ok v tu(1) within_apart [OF v(2), of "ctx_range L t"] by (auto simp: layout_ok_def apart_def)
    then have off: "ctx_off ?a p" by (rule outside_ctx [OF ok tu(1)])
    show ?thesis
    proof (cases "p = ?sp")
      case True
      then show ?thesis using off s'(2) by (simp add: saved_mem_def ctx_off_def ctx_cells_eq)
    next
      case False
      then show ?thesis using save(2) off by simp
    qed
  qed
  ultimately show ?thesis using s'(1) others by blast
qed

text \<open>So a switch from \<open>t\<close> to \<open>u\<close> is one from \<open>t\<close>'s processor to \<open>u\<close>'s.\<close>

lemma views_nth [simp]: "t \<le> n \<Longrightarrow> views n L x ! t = view L x t"
  by (simp add: views_def nth_append del: upt_Suc)

lemma length_views [simp]: "length (views n L x) = n + 1"
  by (simp add: views_def)

lemma switch_views:
  assumes ok: "layout_ok n L" and tu: "t \<le> n" "u \<le> n" "t \<noteq> u" and x: "m_run x = t" "room L x"
  shows "\<exists>s. swap_context ret (ctx_at L t) (ctx_at L u) (m_cpu x) = Some s \<and>
    (\<forall>y. m_cpu y = s \<and> m_run y = u \<longrightarrow> views n L y = (views n L x)[t := after_call ret (views n L x ! t)])"
proof -
  let ?s = "m_cpu x" and ?sp = "regs (m_cpu x) RSP - 8"
  have room: "aligned8 ?sp" "within ?sp (stack_range L t)" using x by (auto simp: room_def)
  obtain s where s: "swap_context ret (ctx_at L t) (ctx_at L u) ?s = Some s"
    "live_regs s = saved_regs ?s (ctx_at L u)" "saved_regs s (ctx_at L t) = (live_regs ?s)[4 := ret]"
    "\<forall>v \<le> n. v \<noteq> t \<longrightarrow> saved_regs s (ctx_at L v) = saved_regs ?s (ctx_at L v)"
    "\<forall>v \<le> n. \<forall>p. within p (stack_range L v) \<longrightarrow> mem s p = (if p = ?sp then ret else mem ?s p)"
    using switch_effect [OF ok tu room, of ret] by blast
  have "view L y v = (if v = t then after_call ret (view L x t) else view L x v)"
    if y: "m_cpu y = s" "m_run y = u" and v: "v \<le> n" for y v
  proof -
    have "live_regs ?s ! 5 = regs ?s RSP" by (simp add: live_regs_def)
    moreover have "\<not> within ?sp (stack_range L v)" if "v \<noteq> t"
      using ok tu(1) v that within_apart [OF room(2), of "stack_range L v"] by (auto simp: layout_ok_def)
    ultimately show ?thesis
      using s(2-5) v tu y x(1) room(2) by (auto simp: view_def after_call_def fun_eq_iff)
  qed
  then have "views n L y = (views n L x)[t := after_call ret (views n L x ! t)]" if "m_cpu y = s" "m_run y = u" for y
    using that tu(1) by (intro nth_equalityI) (auto simp: nth_list_update less_Suc_eq_le)
  then show ?thesis using s(1) by blast
qed

lemma work_views:
  assumes "layout_ok n L" and "own_work n L (m_run x) (m_cpu x) s" and "m_run x \<le> n"
  shows "\<exists>v. views n L (x\<lparr>m_cpu := s\<rparr>) = (views n L x)[m_run x := v]"
proof -
  let ?y = "x\<lparr>m_cpu := s\<rparr>"
  have same: "mem s p = mem (m_cpu x) p" if "u \<le> n" "within p (ctx_range L u) \<or> u \<noteq> m_run x \<and> within p (stack_range L u)" for p u
    using assms(2) that by (auto simp: own_work_def)
  have "view L ?y u = view L x u" if "u \<le> n" "u \<noteq> m_run x" for u
    using that same ctx_cell_within [OF assms(1) that(1)]
    by (auto simp: view_def saved_regs_def ctx_reg_def fun_eq_iff)
  then have "views n L ?y = (views n L x)[m_run x := view L ?y (m_run x)]"
    using assms(3) by (intro nth_equalityI) (auto simp: nth_list_update less_Suc_eq_le)
  then show ?thesis ..
qed

section \<open>Runs\<close>

lemma resume_switch_views:
  assumes "layout_ok n L" "m_run x = 0" "1 \<le> co" "co \<le> n" "room L x"
  shows "\<exists>y. resume_switch L ret co x = Some y \<and> m_run y = co \<and> m_current y = co \<and>
    views n L y = (views n L x)[0 := after_call ret (views n L x ! 0)]"
  using switch_views [OF assms(1), of 0 co x ret] assms(2-5) by (auto simp: resume_switch_def ctx_at_def)

lemma yield_switch_views:
  assumes "layout_ok n L" "m_run x \<noteq> 0" "machine_ok n x" "room L x"
  shows "\<exists>y. yield_switch L ret x = Some y \<and> m_run y = 0 \<and>
    views n L y = (views n L x)[m_run x := after_call ret (views n L x ! m_run x)]"
  using switch_views [OF assms(1), of "m_run x" 0 x ret] assms(2-4) by (auto simp: yield_switch_def ctx_at_def machine_ok_def)

lemma machine_step_refines:
  assumes "machine_step n L x y" and "layout_ok n L" and "machine_ok n x"
  shows "processor_step (m_run x, views n L x) (m_run y, views n L y) \<and> machine_ok n y"
  using assms(1)
proof cases
  case (work s)
  then obtain v where "views n L y = (views n L x)[m_run x := v]" "m_run y = m_run x"
    using work_views [OF assms(2), of x s] assms(3) by (auto simp: machine_ok_def)
  then show ?thesis using processor_step.run assms(3) work by (auto simp: machine_ok_def)
next
  case (resume co ret)
  then show ?thesis
    using resume_switch_views [OF assms(2), of x co ret] processor_step.hand_over [of co "views n L x" ret]
    by (auto simp: machine_ok_def)
next
  case (yield ret)
  then show ?thesis
    using yield_switch_views [OF assms(2) _ assms(3), of ret] processor_step.hand_back [of "m_run x" "views n L x" ret]
    by (auto simp: machine_ok_def)
qed

lemma machine_steps_ok: "(machine_step n L)\<^sup>*\<^sup>* x y \<Longrightarrow> layout_ok n L \<Longrightarrow> machine_ok n x \<Longrightarrow>
    processor_step\<^sup>*\<^sup>* (m_run x, views n L x) (m_run y, views n L y) \<and> machine_ok n y"
proof (induction rule: rtranclp_induct)
  case (step y z)
  then show ?case using machine_step_refines by (meson rtranclp.rtrancl_into_rtrancl)
qed simp

lemma processor_step_frame: "processor_step (t, vs) (u, ws) \<Longrightarrow> j \<noteq> t \<Longrightarrow> ws ! j = vs ! j"
  by (erule processor_step.cases) auto

text \<open>Who does not run keeps its processor.\<close>

lemma idle_view:
  assumes "(\<lambda>a b. machine_step n L a b \<and> m_run a \<noteq> j)\<^sup>*\<^sup>* y z" and "layout_ok n L" and "machine_ok n y" and "j \<le> n"
  shows "view L z j = view L y j \<and> machine_ok n z"
  using assms(1)
proof (induction rule: rtranclp_induct)
  case (step a b)
  then have r: "processor_step (m_run a, views n L a) (m_run b, views n L b)" "machine_ok n b"
    using machine_step_refines [OF _ assms(2), of a b] by auto
  then have "views n L b ! j = views n L a ! j" using step.hyps(2) by (intro processor_step_frame [OF r(1)]) simp
  then show ?case using step.IH r(2) assms(4) by simp
qed (use assms in simp)

text \<open>A switch to \<open>j\<close> puts \<open>j\<close>'s registers on the processor.\<close>

lemma resume_regs:
  assumes "layout_ok n L" "m_run z = 0" "1 \<le> j" "j \<le> n" "room L z"
  shows "\<exists>w. resume_switch L ret j z = Some w \<and> m_run w = j \<and> live_regs (m_cpu w) = fst (view L z j)"
proof -
  obtain w where w: "resume_switch L ret j z = Some w" "m_run w = j"
    "views n L w = (views n L z)[0 := after_call ret (views n L z ! 0)]"
    using resume_switch_views [OF assms, of ret] by blast
  then have "views n L w ! j = views n L z ! j" using assms(3) by simp
  then have "view L w j = view L z j" using assms(4) by simp
  moreover have "live_regs (m_cpu w) = fst (view L w j)" using w(2) by (simp add: view_def)
  ultimately show ?thesis using w(1,2) by auto
qed

lemma yield_regs:
  assumes "layout_ok n L" "m_run z \<noteq> 0" "machine_ok n z" "room L z"
  shows "\<exists>w. yield_switch L ret z = Some w \<and> m_run w = 0 \<and> live_regs (m_cpu w) = fst (view L z 0)"
proof -
  obtain w where w: "yield_switch L ret z = Some w" "m_run w = 0"
    "views n L w = (views n L z)[m_run z := after_call ret (views n L z ! m_run z)]"
    using yield_switch_views [OF assms, of ret] by blast
  then have "views n L w ! 0 = views n L z ! 0" using assms(2) by simp
  then have "view L w 0 = view L z 0" by simp
  moreover have "live_regs (m_cpu w) = fst (view L w 0)" using w(2) by (simp add: view_def)
  ultimately show ?thesis using w(1,2) by auto
qed

text \<open>A new coroutine starts at its function, on its own stack, which is empty.\<close>

lemma new_context_view:
  assumes "layout_ok n L" "1 \<le> co" "co \<le> n" "m_run x \<noteq> co"
  shows "case view L (x\<lparr>m_cpu := new_context func (ly_co L co) (m_cpu x)\<rparr>) co of (rs, _) \<Rightarrow>
    rs ! 4 = func \<and> unat (rs ! 5) = snd (stack_range L co)"
proof -
  have "unat (ly_co L co) + 64 + CO_STACK_SIZE < 2 ^ 64"
    using assms(1-3) by (auto simp: layout_ok_def stack_range_def)
  then have "unat (ly_co L co + (64 + of_nat CO_STACK_SIZE)) = unat (ly_co L co) + (64 + CO_STACK_SIZE)"
    by (simp add: unat_word_ariths CO_STACK_SIZE_def)
  then show ?thesis using assms(2,4)
    by (simp add: view_def new_context_def saved_regs_def ctx_reg_def ctx_at_def stack_range_def add.assoc)
qed


text \<open>Two coroutines; the main program resumes the first, which yields.\<close>

definition sample_layout :: layout where
  "sample_layout = \<lparr>ly_sched = 0x1000, ly_stack = (0x7000, 0x9000), ly_co = (\<lambda>t. if t = 1 then 0x10000 else 0x20000)\<rparr>"

definition sample_machine :: machine where
  "sample_machine = \<lparr>m_cpu = new_context 0x400600 0x20000 (new_context 0x400500 0x10000 (sample_cpu 0x8008)),
     m_run = 0, m_current = 0\<rparr>"

lemma sample_layout_ok: "layout_ok 2 sample_layout"
proof -
  have "t \<le> 2 \<longleftrightarrow> t = 0 \<or> t = 1 \<or> t = 2" for t :: nat by auto
  then show ?thesis
    by (auto simp: layout_ok_def sample_layout_def ctx_at_def ctx_range_def stack_range_def apart_def aligned8_def CO_STACK_SIZE_def)
qed


end
