(* ===== verification/Transition.thy ===== *)
theory Transition
  imports Prelude
begin

text \<open>
  Step relations of the concurrent components.  The locale \<open>inv_system\<close> is what a safety proof
  needs of a program (a start state, a step relation and a predicate the steps keep);
  \<open>ending_system\<close> adds what is needed to show that every reachable state can still run to a final
  one: a measure that some step decreases as long as the state is not final.
\<close>

locale inv_system =
  fixes start :: 's
    and step :: "'s \<Rightarrow> 's \<Rightarrow> bool"
    and inv :: "'s \<Rightarrow> bool"
  assumes inv_start: "inv start"
    and inv_step: "inv s \<Longrightarrow> step s s' \<Longrightarrow> inv s'"
begin

lemma inv_steps: "step\<^sup>*\<^sup>* s s' \<Longrightarrow> inv s \<Longrightarrow> inv s'"
  by (induction rule: rtranclp_induct) (auto intro: inv_step)

lemma reach_inv: "step\<^sup>*\<^sup>* start s \<Longrightarrow> inv s"
  using inv_steps inv_start by blast

end

locale ending_system = inv_system start step inv
  for start :: 's and step :: "'s \<Rightarrow> 's \<Rightarrow> bool" and inv :: "'s \<Rightarrow> bool" +
  fixes final :: "'s \<Rightarrow> bool"
    and rank :: "'s \<Rightarrow> nat"
  assumes progress: "inv s \<Longrightarrow> \<not> final s \<Longrightarrow> \<exists>s'. step s s' \<and> rank s' < rank s"
begin

lemma can_end: "inv s \<Longrightarrow> \<exists>s'. step\<^sup>*\<^sup>* s s' \<and> final s'"
proof (induction "rank s" arbitrary: s rule: less_induct)
  case less
  show ?case
  proof (cases "final s")
    case True
    then show ?thesis by blast
  next
    case False
    then obtain s1 where s1: "step s s1" "rank s1 < rank s" using progress less.prems by blast
    then obtain s2 where "step\<^sup>*\<^sup>* s1 s2" "final s2" using less.hyps inv_step less.prems by blast
    then show ?thesis using s1(1) by (meson converse_rtranclp_into_rtranclp)
  qed
qed

lemma reach_can_end: "step\<^sup>*\<^sup>* start s \<Longrightarrow> \<exists>s'. step\<^sup>*\<^sup>* s s' \<and> final s'"
  using reach_inv can_end by blast

text \<open>A state without a step is a final one: no deadlock.\<close>

lemma reach_no_deadlock: "step\<^sup>*\<^sup>* start s \<Longrightarrow> \<nexists>s'. step s s' \<Longrightarrow> final s"
  using reach_inv progress by blast

end

end
