(* ===== verification/LockImpl.thy ===== *)
theory LockImpl
  imports Transition
begin

text \<open>
  The futex lock of \<open>thread/lock-impl/lock_impl.c\<close> and its test program.

  Every access to shared memory is one step: the atomic instructions on the futex word, the plain
  read of it in \<open>__lll_lock_wait_private\<close>, the read and the write of \<open>sum\<close> in the critical
  section, and the two system calls, which the kernel serves atomically.  A thread's state is its
  program point and its loop counter; \<open>thread_steps t s\<close> lists what thread \<open>t\<close> can do next,
  \<open>main_steps s\<close> what \<open>main\<close> can, and the step relation interleaves them in any order and lets
  the kernel wake a sleeper for no reason (a signal).
\<close>

section \<open>System calls\<close>

text \<open>
  \<open>INTERNAL_SYSCALL\<close> with four arguments: the macros load the arguments into \<open>rdi\<close>, \<open>rsi\<close>,
  \<open>rdx\<close> and \<open>r10\<close>, each level one register and then the level below it.
\<close>

datatype sysreg = Rdi | Rsi | Rdx | R10

type_synonym sysregs = "sysreg \<Rightarrow> u64"

definition LOAD_REGS_1 :: "u64 \<Rightarrow> sysregs \<Rightarrow> sysregs" where
  "LOAD_REGS_1 a1 r = r(Rdi := a1)"

definition LOAD_REGS_2 :: "u64 \<Rightarrow> u64 \<Rightarrow> sysregs \<Rightarrow> sysregs" where
  "LOAD_REGS_2 a1 a2 r = LOAD_REGS_1 a1 (r(Rsi := a2))"

definition LOAD_REGS_3 :: "u64 \<Rightarrow> u64 \<Rightarrow> u64 \<Rightarrow> sysregs \<Rightarrow> sysregs" where
  "LOAD_REGS_3 a1 a2 a3 r = LOAD_REGS_2 a1 a2 (r(Rdx := a3))"

definition LOAD_REGS_4 :: "u64 \<Rightarrow> u64 \<Rightarrow> u64 \<Rightarrow> u64 \<Rightarrow> sysregs \<Rightarrow> sysregs" where
  "LOAD_REGS_4 a1 a2 a3 a4 r = LOAD_REGS_3 a1 a2 a3 (r(R10 := a4))"

record syscall =
  sys_nr :: u64
  sys_regs :: sysregs

definition NR_futex :: u64 where
  "NR_futex = 202"

definition INTERNAL_SYSCALL_4 :: "u64 \<Rightarrow> u64 \<Rightarrow> u64 \<Rightarrow> u64 \<Rightarrow> u64 \<Rightarrow> syscall" where
  "INTERNAL_SYSCALL_4 nr a1 a2 a3 a4 = \<lparr>sys_nr = nr, sys_regs = LOAD_REGS_4 a1 a2 a3 a4 (\<lambda>_. 0)\<rparr>"

definition FUTEX_WAIT :: u64 where "FUTEX_WAIT = 0"

definition FUTEX_WAKE :: u64 where "FUTEX_WAKE = 1"

definition LLL_PRIVATE :: u64 where "LLL_PRIVATE = 0"

text \<open>The argument \<open>private\<close> of the macros is not used in them.\<close>

definition lll_futex_wait :: "u64 \<Rightarrow> u64 \<Rightarrow> u64 \<Rightarrow> syscall" where
  "lll_futex_wait futexp val private = INTERNAL_SYSCALL_4 NR_futex futexp FUTEX_WAIT val 0"

definition lll_futex_wake :: "u64 \<Rightarrow> u64 \<Rightarrow> u64 \<Rightarrow> syscall" where
  "lll_futex_wake futexp nr private = INTERNAL_SYSCALL_4 NR_futex futexp FUTEX_WAKE nr 0"

section \<open>Atomic operations\<close>

text \<open>Each takes the word and gives the C result and the new word.\<close>

definition atomic_exchange_rel :: "u32 \<Rightarrow> u32 \<Rightarrow> u32 \<times> u32" where
  "atomic_exchange_rel m val = (m, val)"

definition atomic_exchange_acq :: "u32 \<Rightarrow> u32 \<Rightarrow> u32 \<times> u32" where
  "atomic_exchange_acq m val = (m, val)"

definition atomic_compare_and_exchange_bool_acq :: "u32 \<Rightarrow> u32 \<Rightarrow> u32 \<Rightarrow> bool \<times> u32" where
  "atomic_compare_and_exchange_bool_acq m newval oldval =
     (if m = oldval then (False, newval) else (True, m))"

section \<open>The state\<close>

definition TASK_NUM :: nat where "TASK_NUM = 20"

definition COUNT :: nat where "COUNT = 100"

datatype thread_pc =
    Fresh           \<comment> \<open>not created yet\<close>
  | Spin            \<comment> \<open>\<open>while (!go);\<close>\<close>
  | Loop            \<comment> \<open>\<open>i < COUNT\<close>\<close>
  | Cas             \<comment> \<open>\<open>lll_lock\<close>: the compare and swap\<close>
  | ReadFutex       \<comment> \<open>\<open>__lll_lock_wait_private\<close>: \<open>*futex == 2\<close>\<close>
  | Wait            \<comment> \<open>about to make the wait system call\<close>
  | Asleep          \<comment> \<open>in the kernel, waiting on the futex\<close>
  | Xchg            \<comment> \<open>the exchange of the \<open>while\<close> condition\<close>
  | CritRead        \<comment> \<open>\<open>sum++\<close>: the read\<close>
  | CritWrite u32   \<comment> \<open>\<open>sum++\<close>: the write, with what was read\<close>
  | Unlock          \<comment> \<open>\<open>__lll_unlock\<close>: the exchange\<close>
  | Wake            \<comment> \<open>about to make the wake system call\<close>
  | Finished

datatype main_pc =
    MCreate nat
  | MGo
  | MJoin nat
  | MPrint
  | MExit

record lock_state =
  l_futex :: u32
  l_sum :: u32
  l_go :: bool
  l_pc :: "nat \<Rightarrow> thread_pc"
  l_iter :: "nat \<Rightarrow> nat"
  l_main :: main_pc
  l_out :: "(int \<times> bool) option"   \<comment> \<open>what \<open>main\<close> printed: the sum, and PASS or FAIL\<close>

definition goto :: "nat \<Rightarrow> thread_pc \<Rightarrow> lock_state \<Rightarrow> lock_state" where
  "goto t p s = s\<lparr>l_pc := (l_pc s)(t := p)\<rparr>"

text \<open>The end of a loop body: \<open>i++\<close> and back to the condition.\<close>

definition next_iter :: "nat \<Rightarrow> lock_state \<Rightarrow> lock_state" where
  "next_iter t s = goto t Loop (s\<lparr>l_iter := (l_iter s)(t := l_iter s t + 1)\<rparr>)"

text \<open>
  What the kernel does with a futex call of thread \<open>t\<close>, which goes on with \<open>ret\<close> when it returns:
  a wait sleeps if the word still has the value and returns at once otherwise; a wake (of at most
  one waiter here) wakes some sleeper if there is one.
\<close>

definition sleepers :: "lock_state \<Rightarrow> nat list" where
  "sleepers s = filter (\<lambda>u. l_pc s u = Asleep) [0..<TASK_NUM]"

definition sys_futex :: "syscall \<Rightarrow> nat \<Rightarrow> (lock_state \<Rightarrow> lock_state) \<Rightarrow> lock_state \<Rightarrow> lock_state list" where
  "sys_futex c t ret s =
     (if sys_nr c \<noteq> NR_futex then []
      else if sys_regs c Rsi = FUTEX_WAIT then
        (if ucast (l_futex s) = sys_regs c Rdx then [goto t Asleep s] else [ret s])
      else if sys_regs c Rsi = FUTEX_WAKE \<and> sys_regs c Rdx = 1 then
        (if sleepers s = [] then [ret s] else map (\<lambda>u. ret (goto u Xchg s)) (sleepers s))
      else [])"

section \<open>Steps\<close>

text \<open>The address of the futex word.\<close>

definition futex_addr :: u64 where "futex_addr = 0x4040"

definition thread_steps :: "nat \<Rightarrow> lock_state \<Rightarrow> lock_state list" where
  "thread_steps t s =
     (case l_pc s t of
        Fresh \<Rightarrow> []
      | Spin \<Rightarrow> [goto t (if l_go s then Loop else Spin) s]
      | Loop \<Rightarrow> [goto t (if l_iter s t < COUNT then Cas else Finished) s]
      | Cas \<Rightarrow>
          (let (failed, f) = atomic_compare_and_exchange_bool_acq (l_futex s) 1 0
           in [goto t (if failed then ReadFutex else CritRead) (s\<lparr>l_futex := f\<rparr>)])
      | ReadFutex \<Rightarrow> [goto t (if l_futex s = 2 then Wait else Xchg) s]
      | Wait \<Rightarrow> sys_futex (lll_futex_wait futex_addr 2 LLL_PRIVATE) t (goto t Xchg) s
      | Asleep \<Rightarrow> []
      | Xchg \<Rightarrow>
          (let (old, f) = atomic_exchange_acq (l_futex s) 2
           in [goto t (if old \<noteq> 0 then Wait else CritRead) (s\<lparr>l_futex := f\<rparr>)])
      | CritRead \<Rightarrow> [goto t (CritWrite (l_sum s)) s]
      | CritWrite v \<Rightarrow> [goto t Unlock (s\<lparr>l_sum := v + 1\<rparr>)]
      | Unlock \<Rightarrow>
          (let (old, f) = atomic_exchange_rel (l_futex s) 0; s' = s\<lparr>l_futex := f\<rparr>
           in [if sint old > 1 then goto t Wake s' else next_iter t s'])
      | Wake \<Rightarrow> sys_futex (lll_futex_wake futex_addr 1 LLL_PRIVATE) t (next_iter t) s
      | Finished \<Rightarrow> [])"

text \<open>\<open>main\<close>: it does not check whether \<open>pthread_create\<close> succeeds; here it does.\<close>

definition main_steps :: "lock_state \<Rightarrow> lock_state list" where
  "main_steps s =
     (case l_main s of
        MCreate k \<Rightarrow>
          if k < TASK_NUM then [goto k Spin (s\<lparr>l_main := MCreate (k + 1)\<rparr>)] else [s\<lparr>l_main := MGo\<rparr>]
      | MGo \<Rightarrow> [s\<lparr>l_go := True, l_main := MJoin 0\<rparr>]
      | MJoin k \<Rightarrow>
          if k < TASK_NUM then (if l_pc s k = Finished then [s\<lparr>l_main := MJoin (k + 1)\<rparr>] else [])
          else [s\<lparr>l_main := MPrint\<rparr>]
      | MPrint \<Rightarrow>
          [s\<lparr>l_main := MExit, l_out := Some (sint (l_sum s), sint (l_sum s) = int (TASK_NUM * COUNT))\<rparr>]
      | MExit \<Rightarrow> [])"

definition lock_start :: lock_state where
  "lock_start = \<lparr>l_futex = 0, l_sum = 0, l_go = False, l_pc = (\<lambda>_. Fresh), l_iter = (\<lambda>_. 0),
     l_main = MCreate 0, l_out = None\<rparr>"

inductive prog_step :: "lock_state \<Rightarrow> lock_state \<Rightarrow> bool" where
  thread: "s' \<in> set (thread_steps t s) \<Longrightarrow> prog_step s s'"
| main: "s' \<in> set (main_steps s) \<Longrightarrow> prog_step s s'"

inductive lock_step :: "lock_state \<Rightarrow> lock_state \<Rightarrow> bool" where
  prog: "prog_step s s' \<Longrightarrow> lock_step s s'"
| spurious: "l_pc s t = Asleep \<Longrightarrow> lock_step s (goto t Xchg s)"

inductive_cases prog_stepE: "prog_step s s'"
inductive_cases lock_stepE: "lock_step s s'"

abbreviation lock_reach :: "lock_state \<Rightarrow> bool" where
  "lock_reach s \<equiv> lock_step\<^sup>*\<^sup>* lock_start s"

section \<open>The invariant\<close>

text \<open>A thread holds the lock from its successful atomic to the exchange of its unlock.\<close>

fun holding :: "thread_pc \<Rightarrow> bool" where
  "holding CritRead = True"
| "holding (CritWrite v) = True"
| "holding Unlock = True"
| "holding p = False"

text \<open>The increments of \<open>sum\<close> made by a thread at \<open>p\<close> in iteration \<open>i\<close>.\<close>

definition made :: "thread_pc \<Rightarrow> nat \<Rightarrow> nat" where
  "made p i = i + (if p \<in> {Unlock, Wake} then 1 else 0)"

definition excl :: "u32 \<Rightarrow> (nat \<Rightarrow> thread_pc) \<Rightarrow> bool" where
  "excl f P \<longleftrightarrow> (\<forall>t u. holding (P t) \<and> holding (P u) \<longrightarrow> t = u) \<and>
     (f = 0 \<longleftrightarrow> (\<forall>t. \<not> holding (P t))) \<and> f \<in> {0, 1, 2}"

definition excl_inv :: "lock_state \<Rightarrow> bool" where
  "excl_inv s \<longleftrightarrow> excl (l_futex s) (l_pc s)"

definition no_lost :: "u32 \<Rightarrow> (nat \<Rightarrow> thread_pc) \<Rightarrow> bool" where
  "no_lost f P \<longleftrightarrow> (\<forall>t. P t = Asleep \<longrightarrow> f = 2 \<or> (\<exists>u. P u = Wake \<or> P u = Xchg))"

definition wake_inv :: "lock_state \<Rightarrow> bool" where
  "wake_inv s \<longleftrightarrow> no_lost (l_futex s) (l_pc s)"

definition count_inv :: "lock_state \<Rightarrow> bool" where
  "count_inv s \<longleftrightarrow>
     (\<forall>t v. l_pc s t = CritWrite v \<longrightarrow> v = l_sum s) \<and>
     l_sum s = of_nat (\<Sum>t<TASK_NUM. made (l_pc s t) (l_iter s t))"

definition iter_ok :: "thread_pc \<Rightarrow> nat \<Rightarrow> bool" where
  "iter_ok p i \<longleftrightarrow> (case p of Fresh \<Rightarrow> i = 0 | Spin \<Rightarrow> i = 0 | Loop \<Rightarrow> i \<le> COUNT
     | Finished \<Rightarrow> i = COUNT | _ \<Rightarrow> i < COUNT)"

definition iter_inv :: "lock_state \<Rightarrow> bool" where
  "iter_inv s \<longleftrightarrow> (\<forall>t. iter_ok (l_pc s t) (l_iter s t))"

definition main_inv :: "lock_state \<Rightarrow> bool" where
  "main_inv s \<longleftrightarrow>
     (\<forall>t. l_pc s t = Fresh \<longleftrightarrow> (case l_main s of MCreate k \<Rightarrow> k \<le> t | _ \<Rightarrow> TASK_NUM \<le> t)) \<and>
     (case l_main s of
        MCreate k \<Rightarrow> k \<le> TASK_NUM
      | MGo \<Rightarrow> True
      | MJoin k \<Rightarrow> l_go s \<and> k \<le> TASK_NUM \<and> (\<forall>t<k. l_pc s t = Finished)
      | MPrint \<Rightarrow> \<forall>t<TASK_NUM. l_pc s t = Finished
      | MExit \<Rightarrow> (\<forall>t<TASK_NUM. l_pc s t = Finished) \<and>
          l_out s = Some (int (TASK_NUM * COUNT), True))"

lemma sum_upd:
  assumes "(t::nat) < n" and "\<And>u. u \<noteq> t \<Longrightarrow> f' u = f u"
  shows "(\<Sum>u<n. f' u) + f t = (\<Sum>u<n. f u) + (f' t :: nat)"
proof -
  have "(\<Sum>u<n. f' u) = f' t + (\<Sum>u\<in>{..<n} - {t}. f' u)"
    "(\<Sum>u<n. f u) = f t + (\<Sum>u\<in>{..<n} - {t}. f u)"
    using assms(1) by (simp_all add: sum.remove)
  moreover have "(\<Sum>u\<in>{..<n} - {t}. f' u) = (\<Sum>u\<in>{..<n} - {t}. f u)"
    by (rule sum.cong) (use assms(2) in auto)
  ultimately show ?thesis by simp
qed

lemmas lock_defs = goto_def next_iter_def atomic_exchange_acq_def atomic_exchange_rel_def
  atomic_compare_and_exchange_bool_acq_def

text \<open>What the two system calls come to.\<close>

lemma sleepers_set: "u \<in> set (sleepers s) \<longleftrightarrow> l_pc s u = Asleep \<and> u < TASK_NUM"
  by (auto simp: sleepers_def)

lemma futex_wait_steps:
  "sys_futex (lll_futex_wait a 2 p) t ret s = (if l_futex s = 2 then [goto t Asleep s] else [ret s])"
proof -
  have "uint (l_futex s) < 2 ^ 32" using uint_lt2p [of "l_futex s"] by simp
  then have "(ucast (l_futex s) :: u64) = 2 \<longleftrightarrow> l_futex s = 2"
    by (simp add: word_uint_eq_iff unsigned_ucast_eq take_bit_int_eq_self)
  then show ?thesis
    by (simp add: sys_futex_def lll_futex_wait_def INTERNAL_SYSCALL_4_def LOAD_REGS_4_def
        LOAD_REGS_3_def LOAD_REGS_2_def LOAD_REGS_1_def NR_futex_def)
qed

lemma futex_wake_steps:
  "sys_futex (lll_futex_wake a 1 p) t ret s =
     (if sleepers s = [] then [ret s] else map (\<lambda>u. ret (goto u Xchg s)) (sleepers s))"
  by (simp add: sys_futex_def lll_futex_wake_def INTERNAL_SYSCALL_4_def LOAD_REGS_4_def
      LOAD_REGS_3_def LOAD_REGS_2_def LOAD_REGS_1_def FUTEX_WAKE_def FUTEX_WAIT_def)

lemmas thread_cases = futex_wait_steps futex_wake_steps sleepers_set

text \<open>The steps of a thread one by one.\<close>

lemma thread_stepE:
  assumes "s' \<in> set (thread_steps t s)"
  obtains (spin) "l_pc s t = Spin" "s' = goto t (if l_go s then Loop else Spin) s"
  | (loop) "l_pc s t = Loop" "s' = goto t (if l_iter s t < COUNT then Cas else Finished) s"
  | (cas_ok) "l_pc s t = Cas" "l_futex s = 0" "s' = goto t CritRead (s\<lparr>l_futex := 1\<rparr>)"
  | (cas_fail) "l_pc s t = Cas" "l_futex s \<noteq> 0" "s' = goto t ReadFutex s"
  | (read) "l_pc s t = ReadFutex" "s' = goto t (if l_futex s = 2 then Wait else Xchg) s"
  | (sleep) "l_pc s t = Wait" "l_futex s = 2" "s' = goto t Asleep s"
  | (no_sleep) "l_pc s t = Wait" "l_futex s \<noteq> 2" "s' = goto t Xchg s"
  | (xchg_ok) "l_pc s t = Xchg" "l_futex s = 0" "s' = goto t CritRead (s\<lparr>l_futex := 2\<rparr>)"
  | (xchg_fail) "l_pc s t = Xchg" "l_futex s \<noteq> 0" "s' = goto t Wait (s\<lparr>l_futex := 2\<rparr>)"
  | (crit_read) "l_pc s t = CritRead" "s' = goto t (CritWrite (l_sum s)) s"
  | (crit_write) v where "l_pc s t = CritWrite v" "s' = goto t Unlock (s\<lparr>l_sum := v + 1\<rparr>)"
  | (unlock_wake) "l_pc s t = Unlock" "sint (l_futex s) > 1" "s' = goto t Wake (s\<lparr>l_futex := 0\<rparr>)"
  | (unlock) "l_pc s t = Unlock" "\<not> sint (l_futex s) > 1" "s' = next_iter t (s\<lparr>l_futex := 0\<rparr>)"
  | (wake_none) "l_pc s t = Wake" "\<forall>u<TASK_NUM. l_pc s u \<noteq> Asleep" "s' = next_iter t s"
  | (wake) u where "l_pc s t = Wake" "l_pc s u = Asleep" "u < TASK_NUM" "s' = next_iter t (goto u Xchg s)"
proof (cases "l_pc s t = Wake")
  case True
  then show thesis
  proof (cases "sleepers s = []")
    case none: True
    then have "\<forall>u<TASK_NUM. l_pc s u \<noteq> Asleep" using sleepers_set [of _ s] by auto
    then show thesis using True none assms that by (simp add: thread_steps_def futex_wake_steps)
  next
    case False
    then show thesis using True assms that by (auto simp: thread_steps_def thread_cases)
  qed
next
  case False
  have same: "s\<lparr>l_futex := l_futex s\<rparr> = s" by simp
  show thesis using False assms that
    by (cases "l_pc s t")
      (auto simp: thread_steps_def futex_wait_steps atomic_exchange_acq_def
        atomic_exchange_rel_def atomic_compare_and_exchange_bool_acq_def Let_def same split: if_splits)
qed

lemma goto_simps [simp]:
  "l_pc (goto t p s) = (l_pc s)(t := p)" "l_futex (goto t p s) = l_futex s"
  "l_sum (goto t p s) = l_sum s" "l_go (goto t p s) = l_go s" "l_iter (goto t p s) = l_iter s"
  "l_main (goto t p s) = l_main s" "l_out (goto t p s) = l_out s"
  by (simp_all add: goto_def)

lemma next_iter_simps [simp]:
  "l_pc (next_iter t s) = (l_pc s)(t := Loop)" "l_futex (next_iter t s) = l_futex s"
  "l_sum (next_iter t s) = l_sum s" "l_go (next_iter t s) = l_go s"
  "l_iter (next_iter t s) = (l_iter s)(t := l_iter s t + 1)"
  "l_main (next_iter t s) = l_main s" "l_out (next_iter t s) = l_out s"
  by (simp_all add: next_iter_def)

text \<open>Mutual exclusion.\<close>

lemma excl_move: "excl f P \<Longrightarrow> holding p = holding (P t) \<Longrightarrow> excl f (P(t := p))"
  unfolding excl_def by (metis fun_upd_apply)

lemma excl_lock: "excl 0 P \<Longrightarrow> f \<in> {1, 2} \<Longrightarrow> holding p \<Longrightarrow> excl f (P(t := p))"
  unfolding excl_def by auto

lemma excl_contended: "excl f P \<Longrightarrow> f \<noteq> 0 \<Longrightarrow> excl 2 P"
  unfolding excl_def by simp

lemma excl_unlock: "excl f P \<Longrightarrow> holding (P t) \<Longrightarrow> \<not> holding p \<Longrightarrow> excl 0 (P(t := p))"
  unfolding excl_def by (auto split: if_splits)

lemma excl_start: "excl_inv lock_start"
  by (simp add: excl_inv_def excl_def lock_start_def)

lemma excl_thread:
  assumes "excl_inv s" and "s' \<in> set (thread_steps t s)"
  shows "excl_inv s'"
  using assms(2)
proof (cases rule: thread_stepE)
  case cas_ok
  then show ?thesis using assms(1) by (simp add: excl_inv_def excl_lock)
next
  case xchg_ok
  then show ?thesis using assms(1) by (simp add: excl_inv_def excl_lock)
next
  case xchg_fail
  then show ?thesis using assms(1)
    by (auto simp: excl_inv_def intro!: excl_move intro: excl_contended)
next
  case unlock_wake
  then show ?thesis using assms(1) by (simp add: excl_inv_def excl_unlock)
next
  case unlock
  then show ?thesis using assms(1) by (simp add: excl_inv_def excl_unlock)
next
  case (wake u)
  then have "t \<noteq> u" by auto
  then show ?thesis using wake assms(1) by (simp add: excl_inv_def excl_move)
qed (use assms(1) in \<open>auto simp: excl_inv_def intro!: excl_move\<close>)

text \<open>A step of \<open>main\<close> creates a thread or leaves the threads alone.\<close>

lemma main_stepE:
  assumes "s' \<in> set (main_steps s)" and "main_inv s"
  obtains (create) k where "l_main s = MCreate k" "k < TASK_NUM" "l_pc s k = Fresh"
      "s' = goto k Spin (s\<lparr>l_main := MCreate (k + 1)\<rparr>)"
  | (other) "l_pc s' = l_pc s" "l_iter s' = l_iter s" "l_futex s' = l_futex s" "l_sum s' = l_sum s"
proof (cases "\<exists>k<TASK_NUM. l_main s = MCreate k")
  case True
  then obtain k where k: "l_main s = MCreate k" "k < TASK_NUM" by blast
  then have "l_pc s k = Fresh" using assms(2) by (simp add: main_inv_def)
  then show thesis using k assms(1) create by (simp add: main_steps_def)
next
  case False
  then show thesis using assms(1) other
    by (auto simp: main_steps_def split: main_pc.splits if_splits)
qed

lemma excl_main:
  assumes "excl_inv s" and "s' \<in> set (main_steps s)" and "main_inv s"
  shows "excl_inv s'"
  using assms(2,3)
proof (cases rule: main_stepE)
  case (create k)
  then show ?thesis using assms(1) by (simp add: excl_inv_def excl_move)
qed (use assms(1) in \<open>simp add: excl_inv_def\<close>)

text \<open>No lost wake-up.\<close>

lemma no_lost_move:
  "no_lost f P \<Longrightarrow> P t \<noteq> Wake \<Longrightarrow> P t \<noteq> Xchg \<Longrightarrow> p \<noteq> Asleep \<Longrightarrow> f' = f \<or> f \<noteq> 2 \<Longrightarrow> no_lost f' (P(t := p))"
  unfolding no_lost_def by (metis fun_upd_apply)

lemma no_lost_here: "p = Wake \<or> p = Xchg \<Longrightarrow> no_lost f (P(t := p))"
  unfolding no_lost_def by (metis fun_upd_same)

lemma no_lost_two: "no_lost 2 P"
  by (simp add: no_lost_def)

lemma wake_start: "wake_inv lock_start"
  by (simp add: wake_inv_def no_lost_def lock_start_def)

lemma wake_thread:
  assumes "wake_inv s" and "s' \<in> set (thread_steps t s)" and "main_inv s"
  shows "wake_inv s'"
  using assms(2)
proof (cases rule: thread_stepE)
  case wake_none
  have "l_pc s u \<noteq> Asleep" for u
  proof (cases "u < TASK_NUM")
    case False
    then have "l_pc s u = Fresh" using assms(3) by (auto simp: main_inv_def split: main_pc.splits)
    then show ?thesis by simp
  qed (use wake_none in simp)
  then show ?thesis using wake_none by (simp add: wake_inv_def no_lost_def)
next
  case (wake u)
  then have "u \<noteq> t" by auto
  then have "(l_pc s)(u := Xchg, t := Loop) = (l_pc s)(t := Loop, u := Xchg)"
    by (rule fun_upd_twist)
  then show ?thesis using wake by (simp add: wake_inv_def no_lost_here)
next
  case unlock
  then have "l_futex s \<noteq> 2" by auto
  then show ?thesis using unlock assms(1) by (simp add: wake_inv_def no_lost_move)
next
  case cas_ok
  then show ?thesis using assms(1) by (simp add: wake_inv_def no_lost_move)
qed (use assms(1) in \<open>simp_all add: wake_inv_def no_lost_move no_lost_here no_lost_two\<close>)

lemma wake_main:
  assumes "wake_inv s" and "s' \<in> set (main_steps s)" and "main_inv s"
  shows "wake_inv s'"
  using assms(2,3)
proof (cases rule: main_stepE)
  case (create k)
  then show ?thesis using assms(1) by (simp add: wake_inv_def no_lost_move)
qed (use assms(1) in \<open>simp add: wake_inv_def\<close>)

text \<open>Loop counters.\<close>

lemma iter_start: "iter_inv lock_start"
  by (simp add: iter_inv_def lock_start_def iter_ok_def)

lemma iter_move:
  "\<forall>t. iter_ok (P t) (I t) \<Longrightarrow> iter_ok p (I t) \<Longrightarrow> \<forall>u. iter_ok ((P(t := p)) u) (I u)"
  by simp

lemma iter_next:
  "\<forall>t. iter_ok (P t) (I t) \<Longrightarrow> I t < COUNT \<Longrightarrow> \<forall>u. iter_ok ((P(t := Loop)) u) ((I(t := Suc (I t))) u)"
  by (simp add: iter_ok_def)

lemma iter_thread:
  assumes "iter_inv s" and "s' \<in> set (thread_steps t s)"
  shows "iter_inv s'"
proof -
  have t: "iter_ok (l_pc s t) (l_iter s t)" using assms(1) by (simp add: iter_inv_def)
  from assms(2) show ?thesis
  proof (cases rule: thread_stepE)
    case (wake u)
    have u: "iter_ok (l_pc s u) (l_iter s u)" using assms(1) by (simp add: iter_inv_def)
    then show ?thesis using wake t assms(1) by (auto simp: iter_inv_def iter_ok_def)
  qed (use assms(1) t in \<open>auto simp: iter_inv_def iter_ok_def\<close>)
qed

lemma iter_main:
  assumes "iter_inv s" and "s' \<in> set (main_steps s)" and "main_inv s"
  shows "iter_inv s'"
  using assms(2,3)
proof (cases rule: main_stepE)
  case (create k)
  have "iter_ok (l_pc s k) (l_iter s k)" using assms(1) by (simp add: iter_inv_def)
  then show ?thesis using create assms(1) by (simp add: iter_inv_def iter_ok_def)
qed (use assms(1) in \<open>simp add: iter_inv_def\<close>)

text \<open>What was added to \<open>sum\<close>.\<close>

lemma made_same:
  assumes "\<And>u. u < n \<Longrightarrow> made (P' u) (I' u) = made (P u) (I u)"
  shows "(\<Sum>u<n. made (P' u) (I' u)) = (\<Sum>u<n. made (P u) (I u))"
  by (rule sum.cong) (use assms in auto)

lemma count_thread:
  assumes "count_inv s" and "s' \<in> set (thread_steps t s)" and "excl_inv s" and "t < TASK_NUM"
  shows "count_inv s'"
proof -
  have vals: "v = l_sum s" if "l_pc s u = CritWrite v" for u v
    using assms(1) that unfolding count_inv_def by blast
  have total: "l_sum s = of_nat (\<Sum>t<TASK_NUM. made (l_pc s t) (l_iter s t))"
    using assms(1) by (simp add: count_inv_def)
  have keep: "count_inv s'"
    if "\<And>u. made (l_pc s' u) (l_iter s' u) = made (l_pc s u) (l_iter s u)" "l_sum s' = l_sum s"
      "\<And>u v. l_pc s' u = CritWrite v \<Longrightarrow> v = l_sum s"
    using that total by (simp add: count_inv_def)
  from assms(2) show ?thesis
  proof (cases rule: thread_stepE)
    case (crit_write v)
    have other: "l_pc s u \<noteq> CritWrite w" if "u \<noteq> t" for u w
    proof
      assume "l_pc s u = CritWrite w"
      then have "holding (l_pc s u)" "holding (l_pc s t)" using crit_write(1) by simp_all
      then show False using that assms(3) unfolding excl_inv_def excl_def by blast
    qed
    let ?m = "\<lambda>s u. made (l_pc s u) (l_iter s u)"
    have "(\<Sum>u<TASK_NUM. ?m s' u) + ?m s t = (\<Sum>u<TASK_NUM. ?m s u) + ?m s' t"
      by (rule sum_upd [OF assms(4)]) (simp add: crit_write(2))
    moreover have "?m s' t = ?m s t + 1" using crit_write by (simp add: made_def)
    ultimately have "(\<Sum>u<TASK_NUM. ?m s' u) = (\<Sum>u<TASK_NUM. ?m s u) + 1" by simp
    moreover have "l_sum s' = l_sum s + 1" using crit_write vals by simp
    moreover have "l_pc s' u \<noteq> CritWrite w" for u w using crit_write other by auto
    ultimately show ?thesis using total by (simp add: count_inv_def)
  next
    case (wake u)
    then have "t \<noteq> u" by auto
    then show ?thesis using wake by (intro keep) (auto simp: made_def vals split: if_splits)
  qed (intro keep; auto simp: made_def vals split: if_splits)+
qed

lemma count_main:
  assumes "count_inv s" and "s' \<in> set (main_steps s)" and "main_inv s"
  shows "count_inv s'"
  using assms(2,3)
proof (cases rule: main_stepE)
  case (create k)
  have "(\<Sum>u<TASK_NUM. made (l_pc s' u) (l_iter s' u)) = (\<Sum>u<TASK_NUM. made (l_pc s u) (l_iter s u))"
    by (rule made_same) (use create in \<open>auto simp: made_def\<close>)
  then show ?thesis using create assms(1) by (auto simp: count_inv_def split: if_splits)
next
  case other
  show ?thesis using assms(1) unfolding count_inv_def other .
qed

text \<open>\<open>main\<close>.\<close>

lemma main_inv_cong:
  assumes "main_inv s" and "l_main s' = l_main s" and "l_go s' = l_go s" and "l_out s' = l_out s"
    and "\<And>u. l_pc s' u = Fresh \<longleftrightarrow> l_pc s u = Fresh"
    and "\<And>u. l_pc s u = Finished \<Longrightarrow> l_pc s' u = Finished"
  shows "main_inv s'"
  using assms(1,6) unfolding main_inv_def assms(2-5) by (auto split: main_pc.splits)

lemma main_thread:
  assumes "main_inv s" and "s' \<in> set (thread_steps t s)"
  shows "main_inv s'"
  using assms(2)
  by (cases rule: thread_stepE) (auto intro!: main_inv_cong [OF assms(1)] split: if_splits)

lemma all_finished_sum:
  assumes "count_inv s" and "iter_inv s" and "\<forall>t<TASK_NUM. l_pc s t = Finished"
  shows "sint (l_sum s) = int (TASK_NUM * COUNT)"
proof -
  have "made (l_pc s t) (l_iter s t) = COUNT" if "t < TASK_NUM" for t
  proof -
    have "l_pc s t = Finished" using assms(3) that by blast
    moreover have "iter_ok (l_pc s t) (l_iter s t)" using assms(2) unfolding iter_inv_def by blast
    ultimately have "iter_ok Finished (l_iter s t)" "l_pc s t = Finished" by simp_all
    then show ?thesis by (simp add: made_def iter_ok_def)
  qed
  then have "(\<Sum>t<TASK_NUM. made (l_pc s t) (l_iter s t)) = TASK_NUM * COUNT" by simp
  then have "l_sum s = of_nat (TASK_NUM * COUNT)" using assms(1) by (simp only: count_inv_def)
  then show ?thesis by (simp add: TASK_NUM_def COUNT_def)
qed

lemma main_main:
  assumes "main_inv s" and "s' \<in> set (main_steps s)" and "count_inv s" and "iter_inv s"
  shows "main_inv s'"
proof (cases "l_main s")
  case (MCreate k)
  have fresh: "l_pc s t = Fresh \<longleftrightarrow> k \<le> t" for t using assms(1) MCreate by (simp add: main_inv_def)
  have k: "k \<le> TASK_NUM" using assms(1) MCreate by (simp add: main_inv_def)
  show ?thesis
  proof (cases "k < TASK_NUM")
    case True
    then have "s' = goto k Spin (s\<lparr>l_main := MCreate (k + 1)\<rparr>)"
      using MCreate assms(2) by (simp add: main_steps_def)
    then show ?thesis using True fresh by (simp add: main_inv_def) (metis Suc_le_eq le_less)
  next
    case False
    then have "s' = s\<lparr>l_main := MGo\<rparr>" using MCreate assms(2) by (simp add: main_steps_def)
    then show ?thesis using False k fresh by (simp add: main_inv_def)
  qed
next
  case (MJoin k)
  have j: "\<forall>t. l_pc s t = Fresh \<longleftrightarrow> TASK_NUM \<le> t" "l_go s" "k \<le> TASK_NUM" "\<forall>t<k. l_pc s t = Finished"
    using assms(1) MJoin by (simp_all add: main_inv_def)
  show ?thesis
  proof (cases "k < TASK_NUM")
    case True
    then have "s' = s\<lparr>l_main := MJoin (k + 1)\<rparr>" "l_pc s k = Finished"
      using MJoin assms(2) by (simp_all add: main_steps_def split: if_splits)
    then show ?thesis using True j by (simp add: main_inv_def less_Suc_eq)
  next
    case False
    then have "s' = s\<lparr>l_main := MPrint\<rparr>" using MJoin assms(2) by (simp add: main_steps_def)
    then show ?thesis using False j by (simp add: main_inv_def)
  qed
next
  case MPrint
  then have "sint (l_sum s) = int (TASK_NUM * COUNT)"
    using all_finished_sum [OF assms(3,4)] assms(1) by (simp add: main_inv_def)
  then show ?thesis using MPrint assms(1,2) by (auto simp: main_inv_def main_steps_def)
qed (use assms(1,2) in \<open>auto simp: main_inv_def main_steps_def\<close>)

text \<open>The whole invariant.\<close>

definition lock_inv :: "lock_state \<Rightarrow> bool" where
  "lock_inv s \<longleftrightarrow> excl_inv s \<and> wake_inv s \<and> iter_inv s \<and> count_inv s \<and> main_inv s"

lemma lock_inv_start: "lock_inv lock_start"
  by (simp add: lock_inv_def excl_start wake_start iter_start)
    (simp add: count_inv_def main_inv_def lock_start_def made_def)

lemma thread_real:
  assumes "main_inv s" and "s' \<in> set (thread_steps t s)"
  shows "t < TASK_NUM"
proof (rule ccontr)
  assume "\<not> t < TASK_NUM"
  then have "l_pc s t = Fresh" using assms(1) by (auto simp: main_inv_def split: main_pc.splits)
  then show False using assms(2) by (simp add: thread_steps_def)
qed

lemma spurious_inv:
  assumes "lock_inv s" and "l_pc s t = Asleep"
  shows "lock_inv (goto t Xchg s)"
proof -
  have parts: "excl_inv s" "iter_inv s" "count_inv s" "main_inv s"
    using assms(1) by (simp_all add: lock_inv_def)
  have "iter_ok (l_pc s t) (l_iter s t)" using parts(2) by (simp add: iter_inv_def)
  then have "iter_inv (goto t Xchg s)" using parts(2) assms(2) by (simp add: iter_inv_def iter_ok_def)
  moreover have "count_inv (goto t Xchg s)"
  proof -
    have "(\<Sum>u<TASK_NUM. made (l_pc (goto t Xchg s) u) (l_iter (goto t Xchg s) u)) =
        (\<Sum>u<TASK_NUM. made (l_pc s u) (l_iter s u))"
      by (rule made_same) (use assms(2) in \<open>auto simp: made_def\<close>)
    then show ?thesis using parts(3) by (auto simp: count_inv_def split: if_splits)
  qed
  moreover have "main_inv (goto t Xchg s)"
    by (rule main_inv_cong [OF parts(4)]) (use assms(2) in auto)
  ultimately show ?thesis using parts(1) assms(2)
    by (simp add: lock_inv_def excl_inv_def excl_move wake_inv_def no_lost_here)
qed

lemma lock_inv_prog: "lock_inv s \<Longrightarrow> prog_step s s' \<Longrightarrow> lock_inv s'"
proof (elim prog_stepE)
  fix t assume "lock_inv s" "s' \<in> set (thread_steps t s)"
  then show "lock_inv s'"
    using excl_thread wake_thread iter_thread count_thread main_thread thread_real
    by (auto simp: lock_inv_def)
next
  assume "lock_inv s" "s' \<in> set (main_steps s)"
  then show "lock_inv s'"
    using excl_main wake_main iter_main count_main main_main by (auto simp: lock_inv_def)
qed

lemma lock_inv_step: "lock_inv s \<Longrightarrow> lock_step s s' \<Longrightarrow> lock_inv s'"
  by (elim lock_stepE) (auto intro: lock_inv_prog spurious_inv)

section \<open>Progress\<close>

text \<open>
  How far the program is from its end: every thread counts its remaining iterations and its
  program point, \<open>main\<close> its remaining work.  Steps like a failed exchange do not lower it; the
  lemma \<open>lock_progress\<close> finds one that does.
\<close>

fun pc_rank :: "thread_pc \<Rightarrow> nat" where
  "pc_rank Fresh = 22"
| "pc_rank Spin = 21"
| "pc_rank Loop = 12"
| "pc_rank Cas = 11"
| "pc_rank ReadFutex = 10"
| "pc_rank Asleep = 9"
| "pc_rank Wait = 8"
| "pc_rank Xchg = 7"
| "pc_rank CritRead = 6"
| "pc_rank (CritWrite v) = 5"
| "pc_rank Unlock = 4"
| "pc_rank Wake = 3"
| "pc_rank Finished = 0"

fun main_rank :: "main_pc \<Rightarrow> nat" where
  "main_rank (MCreate k) = TASK_NUM + 4"
| "main_rank MGo = TASK_NUM + 3"
| "main_rank (MJoin k) = TASK_NUM + 2 - k"
| "main_rank MPrint = 1"
| "main_rank MExit = 0"

definition weight :: "thread_pc \<Rightarrow> nat \<Rightarrow> nat" where
  "weight p i = (COUNT - i) * 20 + pc_rank p"

definition lock_rank :: "lock_state \<Rightarrow> nat" where
  "lock_rank s = (\<Sum>t<TASK_NUM. weight (l_pc s t) (l_iter s t)) + main_rank (l_main s)"

lemma lock_rank_less:
  assumes "t < TASK_NUM" and "weight (l_pc s' t) (l_iter s' t) < weight (l_pc s t) (l_iter s t)"
    and "\<And>u. u \<noteq> t \<Longrightarrow> weight (l_pc s' u) (l_iter s' u) \<le> weight (l_pc s u) (l_iter s u)"
    and "main_rank (l_main s') \<le> main_rank (l_main s)"
  shows "lock_rank s' < lock_rank s"
proof -
  have "weight (l_pc s' u) (l_iter s' u) \<le> weight (l_pc s u) (l_iter s u)" for u
    using assms(2,3) by (cases "u = t") auto
  then have "(\<Sum>t<TASK_NUM. weight (l_pc s' t) (l_iter s' t)) < (\<Sum>t<TASK_NUM. weight (l_pc s t) (l_iter s t))"
    using assms(1,2) by (intro sum_strict_mono_ex1) auto
  then show ?thesis using assms(4) by (simp add: lock_rank_def)
qed

lemma lock_rank_move: "t < TASK_NUM \<Longrightarrow> pc_rank p < pc_rank (l_pc s t) \<Longrightarrow>
    lock_rank (goto t p s) < lock_rank s"
  by (rule lock_rank_less [of t]) (simp_all add: weight_def)

lemma lock_rank_next: "t < TASK_NUM \<Longrightarrow> l_iter s t < COUNT \<Longrightarrow>
    lock_rank (next_iter t s) < lock_rank s"
proof (rule lock_rank_less [of t])
  assume "l_iter s t < COUNT"
  then obtain d where "COUNT - l_iter s t = Suc d" by (metis Suc_diff_Suc)
  moreover from this have "COUNT - Suc (l_iter s t) = d" by simp
  ultimately show "weight (l_pc (next_iter t s) t) (l_iter (next_iter t s) t) < weight (l_pc s t) (l_iter s t)"
    by (simp add: weight_def)
qed (simp_all add: weight_def)

lemma lock_rank_update [simp]: "lock_rank (s\<lparr>l_futex := f\<rparr>) = lock_rank s" "lock_rank (s\<lparr>l_sum := v\<rparr>) = lock_rank s"
  by (simp_all add: lock_rank_def)

lemma lock_rank_goto: "t < TASK_NUM \<Longrightarrow> pc_rank p < pc_rank (l_pc s t) \<Longrightarrow>
    lock_rank (goto t p (s\<lparr>l_futex := f\<rparr>)) < lock_rank s"
  using lock_rank_move [of t p "s\<lparr>l_futex := f\<rparr>"] by simp

lemma lock_rank_wake:
  assumes "t < TASK_NUM" and "u < TASK_NUM" and "l_pc s u = Asleep" and "l_iter s t < COUNT" and "t \<noteq> u"
  shows "lock_rank (next_iter t (goto u Xchg s)) < lock_rank s"
proof -
  have "lock_rank (next_iter t (goto u Xchg s)) < lock_rank (goto u Xchg s)"
    by (rule lock_rank_next) (use assms in simp_all)
  also have "\<dots> < lock_rank s" by (rule lock_rank_move) (use assms in simp_all)
  finally show ?thesis .
qed

text \<open>A thread that neither waits for the lock nor has finished can lower the rank.\<close>

lemma thread_progress:
  assumes inv: "lock_inv s" and t: "t < TASK_NUM" and go: "l_go s"
    and p: "l_pc s t \<notin> {Fresh, Asleep, Finished}"
    and free: "l_pc s t \<in> {Cas, Wait, Xchg} \<Longrightarrow> l_futex s = 0"
  shows "\<exists>s'\<in>set (thread_steps t s). lock_rank s' < lock_rank s"
proof -
  have it: "iter_ok (l_pc s t) (l_iter s t)" using inv by (simp add: lock_inv_def iter_inv_def)
  show ?thesis
  proof (cases "l_pc s t")
    case Spin
    then show ?thesis using t go by (simp add: thread_steps_def lock_rank_move)
  next
    case Loop
    then show ?thesis using t by (simp add: thread_steps_def lock_rank_move)
  next
    case Cas
    then show ?thesis using t free
      by (simp add: thread_steps_def atomic_compare_and_exchange_bool_acq_def lock_rank_goto)
  next
    case ReadFutex
    then show ?thesis using t by (simp add: thread_steps_def lock_rank_move)
  next
    case Wait
    then show ?thesis using t free by (simp add: thread_steps_def futex_wait_steps lock_rank_move)
  next
    case Xchg
    then show ?thesis using t free
      by (simp add: thread_steps_def atomic_exchange_acq_def lock_rank_goto)
  next
    case CritRead
    then show ?thesis using t by (simp add: thread_steps_def lock_rank_move)
  next
    case (CritWrite v)
    then show ?thesis using t lock_rank_move [of t Unlock "s\<lparr>l_sum := v + 1\<rparr>"]
      by (simp add: thread_steps_def)
  next
    case Unlock
    then have "l_iter s t < COUNT" using it by (simp add: iter_ok_def)
    then show ?thesis using Unlock t lock_rank_next [of t "s\<lparr>l_futex := 0\<rparr>"]
      by (simp add: thread_steps_def atomic_exchange_rel_def Let_def lock_rank_goto)
  next
    case Wake
    then have i: "l_iter s t < COUNT" using it by (simp add: iter_ok_def)
    show ?thesis
    proof (cases "sleepers s")
      case Nil
      then show ?thesis using Wake t i by (simp add: thread_steps_def futex_wake_steps lock_rank_next)
    next
      case (Cons u us)
      then have u: "l_pc s u = Asleep" "u < TASK_NUM" using sleepers_set [of u s] by auto
      then have "t \<noteq> u" using Wake by auto
      then show ?thesis using Wake Cons lock_rank_wake [OF t u(2,1) i]
        by (simp add: thread_steps_def futex_wake_steps)
    qed
  qed (use p in auto)
qed

lemma join_progress:
  assumes inv: "lock_inv s" and m: "l_main s = MJoin k" and k: "k < TASK_NUM"
    and nf: "l_pc s k \<noteq> Finished"
  shows "\<exists>s'. prog_step s s' \<and> lock_rank s' < lock_rank s"
proof -
  have go: "l_go s" and fresh: "l_pc s t = Fresh \<longleftrightarrow> TASK_NUM \<le> t" for t
    using inv m by (simp_all add: lock_inv_def main_inv_def)
  have excl: "excl (l_futex s) (l_pc s)" and lost: "no_lost (l_futex s) (l_pc s)"
    using inv by (simp_all add: lock_inv_def excl_inv_def wake_inv_def)
  have go_on: ?thesis if "l_pc s t \<notin> {Fresh, Asleep, Finished}"
    "l_pc s t \<in> {Cas, Wait, Xchg} \<longrightarrow> l_futex s = 0" for t
  proof -
    have "t < TASK_NUM" using that(1) fresh by (metis insertI1 not_le)
    then show ?thesis using thread_progress [OF inv _ go that(1)] that(2) by (metis prog_step.thread)
  qed
  show ?thesis
  proof (cases "\<exists>t. holding (l_pc s t)")
    case True
    then obtain t where "holding (l_pc s t)" by blast
    then show ?thesis using go_on [of t] by (cases "l_pc s t") auto
  next
    case False
    then have f: "l_futex s = 0" using excl by (simp add: excl_def)
    show ?thesis
    proof (cases "l_pc s k = Asleep")
      case False
      then show ?thesis using go_on [of k] nf f fresh k by auto
    next
      case True
      then obtain u where "l_pc s u = Wake \<or> l_pc s u = Xchg"
        using lost f unfolding no_lost_def by fastforce
      then show ?thesis using go_on [of u] f by auto
    qed
  qed
qed

lemma lock_progress:
  assumes inv: "lock_inv s" and "l_main s \<noteq> MExit"
  shows "\<exists>s'. prog_step s s' \<and> lock_rank s' < lock_rank s"
proof -
  have m: "main_inv s" using inv by (simp add: lock_inv_def)
  have main: ?thesis if "s' \<in> set (main_steps s)" "lock_rank s' < lock_rank s" for s'
    using that by (blast intro: prog_step.main)
  show ?thesis
  proof (cases "l_main s")
    case (MCreate k)
    then have k: "l_pc s k = Fresh" "k \<le> TASK_NUM" using m by (simp_all add: main_inv_def)
    show ?thesis
    proof (cases "k < TASK_NUM")
      case True
      have "lock_rank (goto k Spin (s\<lparr>l_main := MCreate (k + 1)\<rparr>)) < lock_rank s"
        by (rule lock_rank_less [OF True]) (use k MCreate in \<open>simp_all add: weight_def\<close>)
      then show ?thesis using True MCreate by (intro main) (simp_all add: main_steps_def)
    next
      case False
      then show ?thesis using MCreate k
        by (intro main [of "s\<lparr>l_main := MGo\<rparr>"]) (simp_all add: main_steps_def lock_rank_def)
    qed
  next
    case MGo
    then show ?thesis
      by (intro main [of "s\<lparr>l_go := True, l_main := MJoin 0\<rparr>"]) (simp_all add: main_steps_def lock_rank_def)
  next
    case (MJoin k)
    then have k: "k \<le> TASK_NUM" using m by (simp add: main_inv_def)
    show ?thesis
    proof (cases "k < TASK_NUM \<and> l_pc s k \<noteq> Finished")
      case True
      then show ?thesis using join_progress [OF inv MJoin] by blast
    next
      case False
      then show ?thesis using MJoin k
        by (intro main [of "s\<lparr>l_main := (if k < TASK_NUM then MJoin (k + 1) else MPrint)\<rparr>"])
          (auto simp: main_steps_def lock_rank_def)
    qed
  next
    case MPrint
    then show ?thesis
      by (intro main [of "hd (main_steps s)"]) (simp_all add: main_steps_def lock_rank_def)
  next
    case MExit
    then show ?thesis using assms(2) by simp
  qed
qed

interpretation lock_test: inv_system lock_start lock_step lock_inv
  by unfold_locales (fact lock_inv_start, fact lock_inv_step)

interpretation lock_calm:
  ending_system lock_start prog_step lock_inv "\<lambda>s. l_main s = MExit" lock_rank
  by unfold_locales (fact lock_inv_start, fact lock_inv_prog, fact lock_progress)

section \<open>Properties\<close>

text \<open>Runs for the witnesses: who moves next, \<open>main\<close> (\<open>None\<close>) or a thread, by its first step.\<close>

fun lock_run :: "nat option list \<Rightarrow> lock_state \<Rightarrow> lock_state" where
  "lock_run [] s = s"
| "lock_run (who # ws) s =
     (case (case who of None \<Rightarrow> main_steps s | Some t \<Rightarrow> thread_steps t s) of
        [] \<Rightarrow> s
      | s' # _ \<Rightarrow> lock_run ws s')"

lemma lock_run_steps: "lock_step\<^sup>*\<^sup>* s (lock_run ws s)"
proof (induction ws arbitrary: s)
  case (Cons who ws)
  show ?case
  proof (cases "case who of None \<Rightarrow> main_steps s | Some t \<Rightarrow> thread_steps t s")
    case (Cons s' ss)
    then have "prog_step s s'"
      by (cases who) (auto intro: prog_step.main prog_step.thread [of _ "the who"])
    then show ?thesis using Cons.IH [of s'] Cons
      by (auto intro: converse_rtranclp_into_rtranclp lock_step.prog)
  qed simp
qed simp

text \<open>All threads started; thread 0 took the lock and thread 1 went to sleep on it.\<close>

definition contended :: lock_state where
  "contended = lock_run (replicate 22 None @ replicate 3 (Some 0) @ replicate 6 (Some 1)) lock_start"

lemma contended_reach: "lock_reach contended"
  unfolding contended_def by (rule lock_run_steps)

lemma contended_state: "l_pc contended 0 = CritRead" "l_pc contended 1 = Asleep" "l_futex contended = 2"
  by code_simp+

text \<open>
  C13: Mutual exclusion: in every reachable state, whatever the interleaving and however often the
  kernel wakes sleepers for no reason, at most one thread is between its successful atomic
  instruction and its unlocking exchange, and the futex word is 0 exactly when none is.
\<close>

theorem lock_mutual_exclusion:
  assumes "lock_reach s"
  shows "(\<exists>\<^sub>\<le>\<^sub>1t. holding (l_pc s t)) \<and> (l_futex s = 0 \<longleftrightarrow> (\<forall>t. \<not> holding (l_pc s t))) \<and>
    l_futex s \<in> {0, 1, 2}"
  using lock_test.reach_inv [OF assms] by (auto simp: lock_inv_def excl_inv_def excl_def Uniq_def)

lemma lock_mutual_exclusion_witness:
  "holding (l_pc contended 0) \<and> \<not> holding (l_pc contended 5)"
proof -
  have "holding (l_pc contended 0)" using contended_state(1) by simp
  moreover have "\<exists>\<^sub>\<le>\<^sub>1t. holding (l_pc contended t)"
    using lock_mutual_exclusion [OF contended_reach] by blast
  ultimately show ?thesis by (metis Uniq_D zero_neq_numeral)
qed

text \<open>
  C14: The test program passes: if \<open>main\<close> returns, it has printed the sum \<open>TASK_NUM * COUNT\<close> and
  PASS; no increment of the unprotected \<open>sum++\<close> was lost in any interleaving.
\<close>

theorem lock_test_passes:
  assumes "lock_reach s" and "l_main s = MExit"
  shows "l_out s = Some (int (TASK_NUM * COUNT), True)"
  using lock_test.reach_inv [OF assms(1)] assms(2) by (simp add: lock_inv_def main_inv_def)

lemma lock_test_passes_witness: "\<exists>s. lock_reach s \<and> l_out s = Some (2000, True)"
proof -
  obtain s where "prog_step\<^sup>*\<^sup>* lock_start s" and s: "l_main s = MExit"
    using lock_calm.reach_can_end [OF rtranclp.rtrancl_refl] by blast
  then have r: "lock_reach s"
    by (meson lock_step.prog mono_rtranclp)
  have "int (TASK_NUM * COUNT) = 2000" by (simp add: TASK_NUM_def COUNT_def)
  then show ?thesis using lock_test_passes [OF r s] r by auto
qed

text \<open>
  C15: No lost wake-up: while a thread sleeps in the kernel, the futex word is 2 and its holder,
  whose unlock will then make the wake call, exists, or a thread is about to make the wake call or
  to exchange the word for 2.
\<close>

theorem lock_no_lost_wakeup:
  assumes "lock_reach s" and "l_pc s t = Asleep"
  shows "(l_futex s = 2 \<and> (\<exists>u. holding (l_pc s u))) \<or> (\<exists>u. l_pc s u = Wake \<or> l_pc s u = Xchg)"
proof -
  have inv: "lock_inv s" by (rule lock_test.reach_inv [OF assms(1)])
  then have "l_futex s = 2 \<or> (\<exists>u. l_pc s u = Wake \<or> l_pc s u = Xchg)"
    using assms(2) by (auto simp: lock_inv_def wake_inv_def no_lost_def)
  moreover have "l_futex s \<noteq> 0 \<Longrightarrow> \<exists>u. holding (l_pc s u)"
    using inv by (simp add: lock_inv_def excl_inv_def excl_def)
  ultimately show ?thesis by auto
qed

lemma lock_no_lost_wakeup_witness:
  "l_pc contended 1 = Asleep \<and>
   ((l_futex contended = 2 \<and> (\<exists>u. holding (l_pc contended u))) \<or>
    (\<exists>u. l_pc contended u = Wake \<or> l_pc contended u = Xchg))"
  using lock_no_lost_wakeup [OF contended_reach contended_state(2)] contended_state(2) by blast

text \<open>
  C16: No deadlock, and an end in reach: from every reachable state the program itself (without
  the help of a spurious wake-up) can run on to the exit of \<open>main\<close>, which prints PASS.
\<close>

theorem lock_test_can_end:
  assumes "lock_reach s"
  shows "\<exists>s'. prog_step\<^sup>*\<^sup>* s s' \<and> l_main s' = MExit \<and> l_out s' = Some (int (TASK_NUM * COUNT), True)"
proof -
  have inv: "lock_inv s" by (rule lock_test.reach_inv [OF assms])
  then obtain s' where s': "prog_step\<^sup>*\<^sup>* s s'" "l_main s' = MExit" using lock_calm.can_end by blast
  have "lock_inv s'" by (rule lock_calm.inv_steps [OF s'(1) inv])
  then show ?thesis using s' by (auto simp: lock_inv_def main_inv_def)
qed

lemma lock_test_can_end_witness: "\<exists>s'. prog_step\<^sup>*\<^sup>* contended s' \<and> l_main s' = MExit"
  using lock_test_can_end [OF contended_reach] by blast

end
