(* ===== verification/Bytes.thy ===== *)
theory Bytes
  imports Prelude
begin

text \<open>
  Byte buffers of the C programs that build and read binary messages: little-endian fields, reads
  and writes at an offset (\<open>None\<close> outside the buffer), NUL-terminated strings.
\<close>

section \<open>Little-endian numbers\<close>

fun le_bytes :: "nat \<Rightarrow> nat \<Rightarrow> u8 list" where
  "le_bytes 0 n = []"
| "le_bytes (Suc k) n = word_of_nat n # le_bytes k (n div 256)"

fun le_nat :: "u8 list \<Rightarrow> nat" where
  "le_nat [] = 0"
| "le_nat (b # bs) = unat b + 256 * le_nat bs"

lemma length_le_bytes [simp]: "length (le_bytes k n) = k"
  by (induction k n rule: le_bytes.induct) simp_all

lemma le_nat_le_bytes [simp]: "le_nat (le_bytes k n) = n mod 256 ^ k"
proof (induction k n rule: le_bytes.induct)
  case (2 k n)
  then show ?case by (simp add: unat_of_nat mod_mult2_eq)
qed simp

lemma le_bytes_zero: "le_bytes k 0 = replicate k 0"
  by (induction k) simp_all

lemma le_nat_replicate [simp]: "le_nat (replicate k 0) = 0"
  by (induction k) simp_all

section \<open>Reading and writing\<close>

definition get_bytes :: "nat \<Rightarrow> nat \<Rightarrow> u8 list \<Rightarrow> u8 list option" where
  "get_bytes off n b = (if off + n \<le> length b then Some (take n (drop off b)) else None)"

definition put_bytes :: "nat \<Rightarrow> u8 list \<Rightarrow> u8 list \<Rightarrow> u8 list option" where
  "put_bytes off x b =
     (if off + length x \<le> length b then Some (take off b @ x @ drop (off + length x) b) else None)"

definition get_le :: "nat \<Rightarrow> nat \<Rightarrow> u8 list \<Rightarrow> nat option" where
  "get_le off k b = map_option le_nat (get_bytes off k b)"

definition put_le :: "nat \<Rightarrow> nat \<Rightarrow> nat \<Rightarrow> u8 list \<Rightarrow> u8 list option" where
  "put_le off k v b = put_bytes off (le_bytes k v) b"

lemma length_put_bytes: "put_bytes off x b = Some b' \<Longrightarrow> length b' = length b"
  by (auto simp: put_bytes_def split: if_splits)

lemma get_put_bytes: "put_bytes off x b = Some b' \<Longrightarrow> get_bytes off (length x) b' = Some x"
  by (auto simp: put_bytes_def get_bytes_def split: if_splits)

text \<open>Accesses to a buffer given as a concatenation.\<close>

lemma get_bytes_append:
  "off = length p \<Longrightarrow> n = length x \<Longrightarrow> get_bytes off n (p @ x @ q) = Some x"
  by (simp add: get_bytes_def)

lemma get_le_append: "off = length p \<Longrightarrow> get_le off k (p @ le_bytes k v @ q) = Some (v mod 256 ^ k)"
  by (simp add: get_le_def get_bytes_append)

lemma put_bytes_append:
  "off = length p \<Longrightarrow> length x = length y \<Longrightarrow> put_bytes off x (p @ y @ q) = Some (p @ x @ q)"
  by (simp add: put_bytes_def)

lemma put_le_append:
  "off = length p \<Longrightarrow> length y = k \<Longrightarrow> put_le off k v (p @ y @ q) = Some (p @ le_bytes k v @ q)"
  by (simp add: put_le_def put_bytes_append)

lemma put_bytes_inside:
  assumes "off = length p + i" and "i + length x \<le> length y"
  shows "put_bytes off x (p @ y @ q) = Some (p @ (take i y @ x @ drop (i + length x) y) @ q)"
  using assms by (simp add: put_bytes_def)

section \<open>Strings\<close>

text \<open>A C string is a list of bytes without 0; in memory a 0 follows it.\<close>

type_synonym cstring = "u8 list"

definition cstr_ok :: "cstring \<Rightarrow> bool" where
  "cstr_ok s \<longleftrightarrow> 0 \<notin> set s"

definition ascii :: "string \<Rightarrow> cstring" where
  "ascii s = map (\<lambda>c. word_of_nat (of_char c)) s"

text \<open>The decimal digits of a number.\<close>

fun dec_digits :: "nat \<Rightarrow> cstring" where
  "dec_digits n =
     (if n < 10 then [word_of_nat (48 + n)] else dec_digits (n div 10) @ [word_of_nat (48 + n mod 10)])"

declare dec_digits.simps [simp del]

section \<open>Alignment\<close>

text \<open>
  \<open>NLMSG_ALIGN\<close>, \<open>RTA_ALIGN\<close> and \<open>NLA_ALIGN\<close> round up to a multiple of 4.  Their mask \<open>~3U\<close>
  is 32 bits wide, so a longer length loses its upper half.
\<close>

definition align4 :: "nat \<Rightarrow> nat" where
  "align4 n = (let v = (n + 3) mod 2 ^ 32 in v - v mod 4)"

lemma align4_mod [simp]: "align4 n mod 4 = 0"
  by (simp add: align4_def Let_def)

lemma align4_small: "n + 3 < 2 ^ 32 \<Longrightarrow> align4 n = 4 * ((n + 3) div 4)"
  by (simp add: align4_def Let_def minus_mod_eq_mult_div)

lemma align4_bounds: "n + 3 < 2 ^ 32 \<Longrightarrow> n \<le> align4 n \<and> align4 n < n + 4"
  by (simp only: align4_small) linarith

lemma align4_fix: "n mod 4 = 0 \<Longrightarrow> n + 3 < 2 ^ 32 \<Longrightarrow> align4 n = n"
  by (simp only: align4_small) presburger

lemma align4_add: "n mod 4 = 0 \<Longrightarrow> n + k + 3 < 2 ^ 32 \<Longrightarrow> align4 (n + k) = n + align4 k"
proof -
  assume n: "n mod 4 = 0" "n + k + 3 < 2 ^ 32"
  then obtain j where "n = 4 * j" by (metis mod_0_imp_dvd dvdE)
  moreover have "(4 * j + k + 3) div 4 = j + (k + 3) div 4" by presburger
  ultimately show ?thesis using n(2) by (simp add: align4_small)
qed

end
