(* ===== verification/Netlink.thy ===== *)
theory Netlink
  imports Bytes
begin

text \<open>
  The netlink layer of \<open>toy_docker/step_network/lxc_network\<close>, \<open>nl.h\<close> and \<open>nl.c\<close>: messages as
  byte buffers, attributes, the socket, and the request/answer transaction.

  The process is a record \<open>net\<close>: its open descriptors, the number of its live heap blocks and
  the calls it has made so far.  The kernel and the C library are a record \<open>net_env\<close> of
  functions of that state, so they may answer differently every time.
\<close>

section \<open>The process and its environment\<close>

datatype net_event =
    EvMalloc nat
  | EvSocket nat nat nat              \<comment> \<open>domain, type, protocol\<close>
  | EvSetsockopt nat nat              \<comment> \<open>descriptor, option\<close>
  | EvBind nat
  | EvGetsockname nat
  | EvSend nat "u8 list"
  | EvRecv nat nat                    \<comment> \<open>descriptor, length of the buffer\<close>
  | EvIoctl nat nat "u8 list"         \<comment> \<open>descriptor, request, the \<open>ifreq\<close> before the call\<close>
  | EvClose nat

record net =
  n_fds :: "nat list"
  n_blocks :: nat
  n_trace :: "net_event list"

text \<open>A call that can fail gives \<open>Inl\<close> of the \<open>errno\<close> or \<open>Inr\<close> of its result.\<close>

record net_env =
  k_malloc :: "net \<Rightarrow> nat \<Rightarrow> bool"
  k_socket :: "net \<Rightarrow> nat + nat"
  k_setsockopt :: "net \<Rightarrow> nat option"
  k_bind :: "net \<Rightarrow> nat option"
  k_getsockname :: "net \<Rightarrow> nat + (nat \<times> nat)"   \<comment> \<open>length and family of the address\<close>
  k_time :: "net \<Rightarrow> u32"
  k_sendmsg :: "net \<Rightarrow> nat + nat"
  k_recvmsg :: "net \<Rightarrow> nat + u8 list"             \<comment> \<open>the datagram received\<close>
  k_nametoindex :: "net \<Rightarrow> cstring \<Rightarrow> u32"
  k_ioctl :: "net \<Rightarrow> nat + u8 list"               \<comment> \<open>the \<open>ifreq\<close> after the call\<close>

definition log_event :: "net_event \<Rightarrow> net \<Rightarrow> net" where
  "log_event e s = s\<lparr>n_trace := n_trace s @ [e]\<rparr>"

definition sys_malloc :: "net_env \<Rightarrow> nat \<Rightarrow> net \<Rightarrow> bool \<times> net" where
  "sys_malloc env n s =
     (let s' = log_event (EvMalloc n) s in
      if k_malloc env s n then (True, s'\<lparr>n_blocks := n_blocks s + 1\<rparr>) else (False, s'))"

definition sys_free :: "net \<Rightarrow> net" where
  "sys_free s = s\<lparr>n_blocks := n_blocks s - 1\<rparr>"

definition sys_socket :: "net_env \<Rightarrow> nat \<Rightarrow> nat \<Rightarrow> nat \<Rightarrow> net \<Rightarrow> (nat + nat) \<times> net" where
  "sys_socket env domain type protocol s =
     (let s' = log_event (EvSocket domain type protocol) s in
      case k_socket env s of
        Inl e \<Rightarrow> (Inl e, s')
      | Inr fd \<Rightarrow> (Inr fd, s'\<lparr>n_fds := fd # n_fds s\<rparr>))"

definition sys_close :: "nat \<Rightarrow> net \<Rightarrow> net" where
  "sys_close fd s = (log_event (EvClose fd) s)\<lparr>n_fds := remove1 fd (n_fds s)\<rparr>"

section \<open>Constants\<close>

definition EINTR :: nat where "EINTR = 4"
definition ENOMEM :: nat where "ENOMEM = 12"
definition EINVAL :: nat where "EINVAL = 22"
definition EMSGSIZE :: nat where "EMSGSIZE = 90"
definition AF_NETLINK :: nat where "AF_NETLINK = 16"
definition SOCK_RAW :: nat where "SOCK_RAW = 3"
definition SO_SNDBUF :: nat where "SO_SNDBUF = 7"
definition SO_RCVBUF :: nat where "SO_RCVBUF = 8"
definition sizeof_sockaddr_nl :: nat where "sizeof_sockaddr_nl = 12"
definition NLMSG_ERROR :: nat where "NLMSG_ERROR = 2"
definition NLMSG_HDRLEN :: nat where "NLMSG_HDRLEN = 16"
definition PAGE_SIZE :: nat where "PAGE_SIZE = 4096"
definition NLMSG_GOOD_SIZE :: nat where "NLMSG_GOOD_SIZE = 2 * PAGE_SIZE"

section \<open>Messages\<close>

text \<open>
  A message is its buffer, which starts with the 16 bytes of the \<open>nlmsghdr\<close> (\<open>nlmsg_len\<close> at 0,
  \<open>nlmsg_type\<close> at 4, \<open>nlmsg_flags\<close> at 6), and the capacity.  A pointer into the buffer is an offset.
\<close>

record nlmsg =
  nm_buf :: "u8 list"
  nm_cap :: nat

definition hdr_len :: "nlmsg \<Rightarrow> nat option" where
  "hdr_len m = get_le 0 4 (nm_buf m)"

definition hdr_type :: "nlmsg \<Rightarrow> nat option" where
  "hdr_type m = get_le 4 2 (nm_buf m)"

definition put_field :: "nat \<Rightarrow> nat \<Rightarrow> nat \<Rightarrow> nlmsg \<Rightarrow> nlmsg option" where
  "put_field off k v m = map_option (\<lambda>b. m\<lparr>nm_buf := b\<rparr>) (put_le off k v (nm_buf m))"

definition set_hdr_len :: "nat \<Rightarrow> nlmsg \<Rightarrow> nlmsg option" where
  "set_hdr_len v m = put_field 0 4 v m"

definition set_hdr_type :: "nat \<Rightarrow> nlmsg \<Rightarrow> nlmsg option" where
  "set_hdr_type v m = put_field 4 2 v m"

definition set_hdr_flags :: "nat \<Rightarrow> nlmsg \<Rightarrow> nlmsg option" where
  "set_hdr_flags v m = put_field 6 2 v m"

text \<open>\<open>NLMSG_TAIL\<close>, the offset of the next attribute.\<close>

definition NLMSG_TAIL :: "nlmsg \<Rightarrow> nat option" where
  "NLMSG_TAIL m = map_option align4 (hdr_len m)"

text \<open>The difference is a 32-bit unsigned number.\<close>

definition nlmsg_len :: "nlmsg \<Rightarrow> nat option" where
  "nlmsg_len m = map_option (\<lambda>n. (n + 2 ^ 32 - NLMSG_HDRLEN) mod 2 ^ 32) (hdr_len m)"

text \<open>
  \<open>nlmsg_data\<close> adds the header length to the address of the \<open>struct nlmsg\<close>, not to that of the
  header: the result is an address relative to the structure, of which only \<open>sizeof_nlmsg\<close> bytes
  exist.
\<close>

definition sizeof_nlmsg :: nat where
  "sizeof_nlmsg = 16"

definition nlmsg_data :: "nlmsg \<Rightarrow> nat option option" where
  "nlmsg_data m = do { n \<leftarrow> nlmsg_len m; Some (if n = 0 then None else Some NLMSG_HDRLEN) }"

definition RTA_LENGTH :: "nat \<Rightarrow> nat" where
  "RTA_LENGTH len = 4 + len"

definition nla_put :: "nat \<Rightarrow> u8 list \<Rightarrow> nlmsg \<Rightarrow> (int \<times> nlmsg) option" where
  "nla_put attr data m = do {
     let rtalen = RTA_LENGTH (length data);
     n \<leftarrow> hdr_len m;
     let tlen = (align4 n + align4 rtalen) mod size_modulus;
     if tlen > nm_cap m then Some (- int ENOMEM, m)
     else do {
       rta \<leftarrow> NLMSG_TAIL m;
       m1 \<leftarrow> put_field (rta + 2) 2 attr m;
       m2 \<leftarrow> put_field rta 2 rtalen m1;
       b \<leftarrow> put_bytes (rta + 4) data (nm_buf m2);
       m3 \<leftarrow> set_hdr_len tlen (m2\<lparr>nm_buf := b\<rparr>);
       Some (0, m3)
     }
   }"

definition nla_put_buffer :: "nat \<Rightarrow> u8 list \<Rightarrow> nlmsg \<Rightarrow> (int \<times> nlmsg) option" where
  "nla_put_buffer attr data m = nla_put attr data m"

definition nla_put_string :: "nat \<Rightarrow> cstring \<Rightarrow> nlmsg \<Rightarrow> (int \<times> nlmsg) option" where
  "nla_put_string attr str m = nla_put attr (str @ [0]) m"

definition nla_put_u32 :: "nat \<Rightarrow> u32 \<Rightarrow> nlmsg \<Rightarrow> (int \<times> nlmsg) option" where
  "nla_put_u32 attr val m = nla_put attr (le_bytes 4 (unat val)) m"

definition nla_put_u16 :: "nat \<Rightarrow> u16 \<Rightarrow> nlmsg \<Rightarrow> (int \<times> nlmsg) option" where
  "nla_put_u16 attr val m = nla_put attr (le_bytes 2 (unat val)) m"

definition nla_put_attr :: "nat \<Rightarrow> nlmsg \<Rightarrow> (int \<times> nlmsg) option" where
  "nla_put_attr attr m = nla_put attr [] m"

text \<open>The result is the attribute's offset, \<open>None\<close> for NULL.\<close>

definition nla_begin_nested :: "nat \<Rightarrow> nlmsg \<Rightarrow> (nat option \<times> nlmsg) option" where
  "nla_begin_nested attr m = do {
     rta \<leftarrow> NLMSG_TAIL m;
     (r, m') \<leftarrow> nla_put_attr attr m;
     Some (if r \<noteq> 0 then None else Some rta, m')
   }"

definition nla_end_nested :: "nat \<Rightarrow> nlmsg \<Rightarrow> nlmsg option" where
  "nla_end_nested rta m = do { t \<leftarrow> NLMSG_TAIL m; put_field rta 2 (t - rta) m }"

definition nlmsg_alloc :: "net_env \<Rightarrow> nat \<Rightarrow> net \<Rightarrow> nlmsg option \<times> net" where
  "nlmsg_alloc env sz s =
     (let len = (NLMSG_HDRLEN + align4 sz) mod size_modulus;
          (ok1, s1) = sys_malloc env sizeof_nlmsg s in
      if \<not> ok1 then (None, s1)
      else
        let (ok2, s2) = sys_malloc env len s1 in
        if \<not> ok2 then (None, sys_free s2)
        else (set_hdr_len NLMSG_HDRLEN \<lparr>nm_buf = replicate len 0, nm_cap = len\<rparr>, s2))"

definition nlmsg_reserve :: "nat \<Rightarrow> nlmsg \<Rightarrow> (nat option \<times> nlmsg) option" where
  "nlmsg_reserve len m = do {
     n \<leftarrow> hdr_len m;
     let tlen = align4 len;
     if n + tlen > nm_cap m then Some (None, m)
     else do {
       m1 \<leftarrow> set_hdr_len (n + tlen) m;
       b \<leftarrow> (if tlen > len then put_bytes (n + len) (replicate (tlen - len) 0) (nm_buf m1)
             else Some (nm_buf m1));
       Some (Some n, m1\<lparr>nm_buf := b\<rparr>)
     }
   }"

definition nlmsg_alloc_reserve :: "net_env \<Rightarrow> nat \<Rightarrow> net \<Rightarrow> nlmsg option \<times> net" where
  "nlmsg_alloc_reserve env sz s =
     (case nlmsg_alloc env sz s of
        (None, s') \<Rightarrow> (None, s')
      | (Some m, s') \<Rightarrow> (set_hdr_len (nm_cap m) m, s'))"

definition nlmsg_free :: "nlmsg option \<Rightarrow> net \<Rightarrow> net" where
  "nlmsg_free h s = (case h of None \<Rightarrow> s | Some m \<Rightarrow> sys_free (sys_free s))"

section \<open>The socket\<close>

record nl_handler =
  h_fd :: "nat option"     \<comment> \<open>\<open>None\<close> is -1\<close>
  h_seq :: u32

definition netlink_open :: "net_env \<Rightarrow> nat \<Rightarrow> net \<Rightarrow> int \<times> nl_handler \<times> net" where
  "netlink_open env protocol s =
     (case sys_socket env AF_NETLINK SOCK_RAW protocol s of
        (Inl e, s1) \<Rightarrow> (- int e, \<lparr>h_fd = None, h_seq = 0\<rparr>, s1)
      | (Inr fd, s1) \<Rightarrow>
          let h = \<lparr>h_fd = Some fd, h_seq = 0\<rparr>; s2 = log_event (EvSetsockopt fd SO_SNDBUF) s1 in
          case k_setsockopt env s1 of
            Some e \<Rightarrow> (- int e, h, s2)
          | None \<Rightarrow>
              let s3 = log_event (EvSetsockopt fd SO_RCVBUF) s2 in
              case k_setsockopt env s2 of
                Some e \<Rightarrow> (- int e, h, s3)
              | None \<Rightarrow>
                  let s4 = log_event (EvBind fd) s3 in
                  case k_bind env s3 of
                    Some e \<Rightarrow> (- int e, h, s4)
                  | None \<Rightarrow>
                      let s5 = log_event (EvGetsockname fd) s4 in
                      case k_getsockname env s4 of
                        Inl e \<Rightarrow> (- int e, h, s5)
                      | Inr (socklen, family) \<Rightarrow>
                          if socklen \<noteq> sizeof_sockaddr_nl then (- int EINVAL, h, s5)
                          else if family \<noteq> AF_NETLINK then (- int EINVAL, h, s5)
                          else (0, h\<lparr>h_seq := k_time env s5\<rparr>, s5))"

text \<open>\<open>close(-1)\<close> does nothing.\<close>

definition netlink_close :: "nl_handler \<Rightarrow> net \<Rightarrow> int \<times> nl_handler \<times> net" where
  "netlink_close h s =
     (0, h\<lparr>h_fd := None\<rparr>, case h_fd h of None \<Rightarrow> s | Some fd \<Rightarrow> sys_close fd s)"

text \<open>
  \<open>sendmsg\<close> and \<open>recvmsg\<close> on a closed descriptor are outside the model.  What is sent is the
  buffer up to \<open>nlmsg_len\<close>.  What is received is put at the start of the buffer as far as its
  length, which is \<open>nlmsg_len\<close> before the call, allows, and \<open>MSG_TRUNC\<close> says that it did not fit;
  the test after the call reads \<open>nlmsg_len\<close> again.
\<close>

definition netlink_send :: "net_env \<Rightarrow> nl_handler \<Rightarrow> nlmsg \<Rightarrow> net \<Rightarrow> (int \<times> net) option" where
  "netlink_send env h m s = do {
     n \<leftarrow> hdr_len m;
     bytes \<leftarrow> get_bytes 0 n (nm_buf m);
     fd \<leftarrow> h_fd h;
     let s' = log_event (EvSend fd bytes) s;
     Some (case k_sendmsg env s of Inl e \<Rightarrow> - int e | Inr r \<Rightarrow> int r, s')
   }"

partial_function (option) recv_loop ::
    "net_env \<Rightarrow> nat \<Rightarrow> nat \<Rightarrow> net \<Rightarrow> ((nat + u8 list) \<times> net) option" where
  "recv_loop env fd n s =
     (let s' = log_event (EvRecv fd n) s in
      case k_recvmsg env s of
        Inl e \<Rightarrow> if e = EINTR then recv_loop env fd n s' else Some (Inl e, s')
      | Inr d \<Rightarrow> Some (Inr d, s'))"

definition netlink_rcv :: "net_env \<Rightarrow> nl_handler \<Rightarrow> nlmsg \<Rightarrow> net \<Rightarrow> (int \<times> nlmsg \<times> net) option" where
  "netlink_rcv env h answer s = do {
     iov_len \<leftarrow> hdr_len answer;
     if iov_len > length (nm_buf answer) then None
     else do {
       fd \<leftarrow> h_fd h;
       (r, s') \<leftarrow> recv_loop env fd iov_len s;
       case r of
         Inl e \<Rightarrow> Some (- int e, answer, s')
       | Inr d \<Rightarrow> do {
           b \<leftarrow> put_bytes 0 (take iov_len d) (nm_buf answer);
           let ret = min (length d) iov_len;
           let answer' = answer\<lparr>nm_buf := b\<rparr>;
           if ret = 0 then Some (0, answer', s')
           else do {
             n \<leftarrow> hdr_len answer';
             if length d > iov_len \<and> ret = n then Some (- int EMSGSIZE, answer', s')
             else Some (int ret, answer', s')
           }
         }
     }
   }"

text \<open>The error field of \<open>struct nlmsgerr\<close> is a signed 32-bit number at the start of the payload.\<close>

definition netlink_transaction ::
    "net_env \<Rightarrow> nl_handler \<Rightarrow> nlmsg \<Rightarrow> nlmsg \<Rightarrow> net \<Rightarrow> (int \<times> nlmsg \<times> net) option" where
  "netlink_transaction env h request answer s = do {
     (ret, s1) \<leftarrow> netlink_send env h request s;
     if ret < 0 then Some (ret, answer, s1)
     else do {
       (ret2, answer', s2) \<leftarrow> netlink_rcv env h answer s1;
       if ret2 < 0 then Some (ret2, answer', s2)
       else do {
         ty \<leftarrow> hdr_type answer';
         if ty = NLMSG_ERROR then do {
           e \<leftarrow> get_le NLMSG_HDRLEN 4 (nm_buf answer');
           Some (sint (word_of_nat e :: u32), answer', s2)
         } else Some (0, answer', s2)
       }
     }
   }"

section \<open>Messages as their payload\<close>

text \<open>
  The abstract view of a message under construction: type, flags and payload.  The buffer is the
  header for them, the payload, and zeros up to the capacity.
\<close>

definition nl_header :: "nat \<Rightarrow> nat \<Rightarrow> nat \<Rightarrow> u8 list" where
  "nl_header len ty fl = le_bytes 4 len @ le_bytes 2 ty @ le_bytes 2 fl @ replicate 8 0"

definition msg_repr :: "nlmsg \<Rightarrow> nat \<Rightarrow> nat \<Rightarrow> u8 list \<Rightarrow> bool" where
  "msg_repr m ty fl body \<longleftrightarrow>
     nm_buf m = nl_header (16 + length body) ty fl @ body @ replicate (nm_cap m - 16 - length body) 0 \<and>
     16 + length body \<le> nm_cap m \<and> nm_cap m < 2 ^ 31 \<and> length body mod 4 = 0"

text \<open>An attribute on the wire, and a sequence of them.\<close>

definition pad4 :: "u8 list \<Rightarrow> u8 list" where
  "pad4 d = d @ replicate (align4 (length d) - length d) 0"

definition encode_attr :: "nat \<Rightarrow> u8 list \<Rightarrow> u8 list" where
  "encode_attr ty d = le_bytes 2 (4 + length d) @ le_bytes 2 ty @ pad4 d"

definition encode_attrs :: "(nat \<times> u8 list) list \<Rightarrow> u8 list" where
  "encode_attrs as = concat (map (\<lambda>(ty, d). encode_attr ty d) as)"

lemma length_nl_header [simp]: "length (nl_header n ty fl) = 16"
  by (simp add: nl_header_def)

lemma msg_repr_len:
  "msg_repr m ty fl body \<Longrightarrow> length (nm_buf m) = nm_cap m \<and> 16 + length body < 2 ^ 31"
  by (auto simp: msg_repr_def)

lemma hdr_len_repr:
  assumes "msg_repr m ty fl body"
  shows "hdr_len m = Some (16 + length body)"
proof -
  have "nm_buf m = [] @ le_bytes 4 (16 + length body) @
      (le_bytes 2 ty @ le_bytes 2 fl @ replicate 8 0 @ body @ replicate (nm_cap m - 16 - length body) 0)"
    using assms by (simp add: msg_repr_def nl_header_def)
  then have "hdr_len m = Some ((16 + length body) mod 256 ^ 4)"
    unfolding hdr_len_def by (metis get_le_append list.size(3))
  then show ?thesis using msg_repr_len [OF assms] by simp
qed

lemma tail_repr:
  assumes "msg_repr m ty fl body"
  shows "NLMSG_TAIL m = Some (16 + length body)"
proof -
  have "length body mod 4 = 0" using assms by (simp add: msg_repr_def)
  then have "(16 + length body) mod 4 = 0" by presburger
  then have "align4 (16 + length body) = 16 + length body"
    using msg_repr_len [OF assms] by (intro align4_fix) simp_all
  then show ?thesis by (simp add: NLMSG_TAIL_def hdr_len_repr [OF assms])
qed

lemma length_pad4: "length d + 3 < 2 ^ 32 \<Longrightarrow> length (pad4 d) = align4 (length d)"
  using align4_bounds [of "length d"] by (simp add: pad4_def)

lemma length_encode_attr: "length d + 3 < 2 ^ 32 \<Longrightarrow> length (encode_attr ty d) = 4 + align4 (length d)"
  by (simp add: encode_attr_def length_pad4)

lemma set_hdr_type_repr:
  assumes "msg_repr m ty fl body"
  shows "\<exists>m'. set_hdr_type t m = Some m' \<and> msg_repr m' t fl body \<and> nm_cap m' = nm_cap m"
proof -
  let ?q = "le_bytes 2 fl @ replicate 8 0 @ body @ replicate (nm_cap m - 16 - length body) 0"
  have b: "nm_buf m = le_bytes 4 (16 + length body) @ le_bytes 2 ty @ ?q"
    using assms by (simp add: msg_repr_def nl_header_def)
  have "put_le 4 2 t (nm_buf m) = Some (le_bytes 4 (16 + length body) @ le_bytes 2 t @ ?q)"
    unfolding b by (rule put_le_append) simp_all
  then show ?thesis using assms
    by (simp add: set_hdr_type_def put_field_def msg_repr_def nl_header_def)
qed

lemma set_hdr_flags_repr:
  assumes "msg_repr m ty fl body"
  shows "\<exists>m'. set_hdr_flags f m = Some m' \<and> msg_repr m' ty f body \<and> nm_cap m' = nm_cap m"
proof -
  let ?p = "le_bytes 4 (16 + length body) @ le_bytes 2 ty"
  let ?q = "replicate 8 0 @ body @ replicate (nm_cap m - 16 - length body) 0"
  have b: "nm_buf m = ?p @ le_bytes 2 fl @ ?q"
    using assms by (simp add: msg_repr_def nl_header_def)
  have "put_le 6 2 f (nm_buf m) = Some (?p @ le_bytes 2 f @ ?q)"
    unfolding b by (rule put_le_append) simp_all
  then show ?thesis using assms
    by (simp add: set_hdr_flags_def put_field_def msg_repr_def nl_header_def)
qed

text \<open>Setting the length after the tail of the payload was written.\<close>

lemma set_hdr_len_repr:
  assumes "nm_buf m = nl_header n ty fl @ body @ replicate (nm_cap m - 16 - length body) 0"
    and "16 + length body \<le> nm_cap m" and "nm_cap m < 2 ^ 31" and "length body mod 4 = 0"
    and "k = 16 + length body"
  shows "\<exists>m'. set_hdr_len k m = Some m' \<and> msg_repr m' ty fl body \<and> nm_cap m' = nm_cap m"
proof -
  let ?q = "le_bytes 2 ty @ le_bytes 2 fl @ replicate 8 0 @ body @ replicate (nm_cap m - 16 - length body) 0"
  have b: "nm_buf m = [] @ le_bytes 4 n @ ?q" using assms(1) by (simp add: nl_header_def)
  have "put_le 0 4 k (nm_buf m) = Some ([] @ le_bytes 4 k @ ?q)"
    unfolding b by (rule put_le_append) simp_all
  then show ?thesis using assms(2-5)
    by (simp add: set_hdr_len_def put_field_def msg_repr_def nl_header_def)
qed

lemma nlmsg_alloc_spec:
  assumes "sz + 3 < 2 ^ 30"
  shows "(\<exists>s'. nlmsg_alloc env sz s = (None, s') \<and> n_blocks s' = n_blocks s \<and> n_fds s' = n_fds s) \<or>
    (\<exists>m s'. nlmsg_alloc env sz s = (Some m, s') \<and> msg_repr m 0 0 [] \<and> nm_cap m = 16 + align4 sz \<and>
      n_blocks s' = n_blocks s + 2 \<and> n_fds s' = n_fds s)"
proof -
  let ?len = "16 + align4 sz"
  have b: "align4 sz < sz + 4" using align4_bounds [of sz] assms by simp
  then have mod: "(16 + align4 sz) mod size_modulus = ?len"
    using assms by (simp add: size_modulus_def)
  have z: "replicate ?len 0 = nl_header 0 0 0 @ [] @ replicate (?len - 16 - 0) 0"
    by (simp add: nl_header_def le_bytes_zero replicate_add [symmetric])
  obtain m where m: "set_hdr_len 16 \<lparr>nm_buf = replicate ?len 0, nm_cap = ?len\<rparr> = Some m"
    "msg_repr m 0 0 []" "nm_cap m = ?len"
    using set_hdr_len_repr [of "\<lparr>nm_buf = replicate ?len 0, nm_cap = ?len\<rparr>" 0 0 0 "[]" 16] z assms b
    by auto
  show ?thesis using m
    by (auto simp: nlmsg_alloc_def NLMSG_HDRLEN_def mod Let_def sys_malloc_def sys_free_def log_event_def
        split: if_splits)
qed

text \<open>Writing an attribute into the zeros after the payload.\<close>

lemma nla_put_fits:
  assumes r: "msg_repr m ty fl body" and n: "length data < 2 ^ 31"
    and fits: "16 + length body + 4 + align4 (length data) \<le> nm_cap m"
  shows "\<exists>m'. nla_put attr data m = Some (0, m') \<and> msg_repr m' ty fl (body @ encode_attr attr data) \<and>
    nm_cap m' = nm_cap m"
proof -
  let ?H = "nl_header (16 + length body) ty fl" and ?l = "length data"
  let ?pad = "align4 ?l - ?l" and ?rest = "nm_cap m - (20 + length body + align4 ?l)"
  have al: "?l \<le> align4 ?l" "align4 (4 + ?l) = 4 + align4 ?l"
    using align4_bounds [of ?l] align4_add [of 4 ?l] n by simp_all
  let ?q = "replicate ?pad 0 @ replicate ?rest 0"
  have z: "nm_buf m = (?H @ body) @ replicate 2 0 @ replicate 2 0 @ replicate ?l 0 @ ?q"
  proof -
    have "nm_cap m - 16 - length body = 2 + (2 + (?l + (?pad + ?rest)))" using fits al(1) by simp
    then have "replicate (nm_cap m - 16 - length body) (0::u8) =
        replicate 2 0 @ replicate 2 0 @ replicate ?l 0 @ ?q"
      by (simp only: replicate_add)
    then show ?thesis using r by (simp only: msg_repr_def append_assoc)
  qed
  have lenp: "length (?H @ body) = 16 + length body" by simp
  define b1 where "b1 = (?H @ body) @ replicate 2 0 @ le_bytes 2 attr @ replicate ?l 0 @ ?q"
  define b2 where "b2 = (?H @ body) @ le_bytes 2 (4 + ?l) @ le_bytes 2 attr @ replicate ?l 0 @ ?q"
  define b3 where "b3 = (?H @ body) @ le_bytes 2 (4 + ?l) @ le_bytes 2 attr @ data @ ?q"
  have s1: "put_le (16 + length body + 2) 2 attr (nm_buf m) = Some b1"
  proof -
    have "nm_buf m = ((?H @ body) @ replicate 2 0) @ replicate 2 0 @ replicate ?l 0 @ ?q" using z by simp
    then show ?thesis using put_le_append [of "16 + length body + 2" "(?H @ body) @ replicate 2 0" "replicate 2 0" 2]
      by (simp add: b1_def)
  qed
  have s2: "put_le (16 + length body) 2 (4 + ?l) b1 = Some b2"
    unfolding b1_def b2_def by (rule put_le_append) simp_all
  have s3: "put_bytes (16 + length body + 4) data b2 = Some b3"
  proof -
    have "b2 = ((?H @ body) @ le_bytes 2 (4 + ?l) @ le_bytes 2 attr) @ replicate ?l 0 @ ?q"
      by (simp add: b2_def)
    then show ?thesis
      using put_bytes_append [of "16 + length body + 4" "(?H @ body) @ le_bytes 2 (4 + ?l) @ le_bytes 2 attr"
          data "replicate ?l 0"] by (simp add: b3_def)
  qed
  let ?body' = "body @ encode_attr attr data"
  have len': "length ?body' = length body + 4 + align4 ?l" using n by (simp add: length_encode_attr)
  have cap: "nm_cap m < 2 ^ 31" "length body mod 4 = 0" using r by (simp_all add: msg_repr_def)
  have b3: "b3 = ?H @ ?body' @ replicate (nm_cap m - 16 - length ?body') 0"
    unfolding len' by (simp add: b3_def encode_attr_def pad4_def)
  have mod4: "length ?body' mod 4 = 0"
    unfolding len' using cap(2) align4_mod [of ?l] by presburger
  obtain m' where m': "set_hdr_len (16 + length ?body') (m\<lparr>nm_buf := b3\<rparr>) = Some m'"
    "msg_repr m' ty fl ?body'" "nm_cap m' = nm_cap m"
    using set_hdr_len_repr [of "m\<lparr>nm_buf := b3\<rparr>" "16 + length body" ty fl ?body' "16 + length ?body'"]
      b3 fits len' cap mod4 by auto
  have hl: "hdr_len m = Some (16 + length body)" by (rule hdr_len_repr [OF r])
  have tl: "NLMSG_TAIL m = Some (16 + length body)" by (rule tail_repr [OF r])
  have tl2: "align4 (16 + length body) = 16 + length body" using hl tl by (simp add: NLMSG_TAIL_def)
  have "(align4 (16 + length body) + align4 (RTA_LENGTH ?l)) mod size_modulus = 16 + length ?body'"
    using fits cap(1) len' al(2) tl2 by (simp add: RTA_LENGTH_def size_modulus_def)
  then have "nla_put attr data m = Some (0, m')"
    using hl tl s1 s2 s3 m'(1) fits len'
    by (simp add: nla_put_def Let_def put_field_def RTA_LENGTH_def)
  then show ?thesis using m'(2,3) by blast
qed

lemma nla_put_full:
  assumes r: "msg_repr m ty fl body" and n: "length data < 2 ^ 31"
    and full: "\<not> 16 + length body + 4 + align4 (length data) \<le> nm_cap m"
  shows "nla_put attr data m = Some (- int ENOMEM, m)"
proof -
  let ?l = "length data"
  have al: "align4 (4 + ?l) = 4 + align4 ?l" "align4 ?l < ?l + 4"
    using align4_add [of 4 ?l] align4_bounds [of ?l] n by simp_all
  have hl: "hdr_len m = Some (16 + length body)" by (rule hdr_len_repr [OF r])
  have "align4 (16 + length body) = 16 + length body"
    using hl tail_repr [OF r] by (simp add: NLMSG_TAIL_def)
  then have "(align4 (16 + length body) + align4 (RTA_LENGTH ?l)) mod size_modulus =
      16 + length body + 4 + align4 ?l"
    using al n msg_repr_len [OF r] by (simp add: RTA_LENGTH_def size_modulus_def)
  then show ?thesis using hl full by (simp add: nla_put_def Let_def)
qed

lemma nlmsg_reserve_fits:
  assumes r: "msg_repr m ty fl body" and n: "len < 2 ^ 31"
    and fits: "16 + length body + align4 len \<le> nm_cap m"
  shows "\<exists>m'. nlmsg_reserve len m = Some (Some (16 + length body), m') \<and>
    msg_repr m' ty fl (body @ replicate (align4 len) 0) \<and> nm_cap m' = nm_cap m"
proof -
  let ?H = "nl_header (16 + length body) ty fl" and ?body' = "body @ replicate (align4 len) 0"
  have al: "len \<le> align4 len" using align4_bounds [of len] n by simp
  have hl: "hdr_len m = Some (16 + length body)" by (rule hdr_len_repr [OF r])
  have "nm_cap m - 16 - length body = align4 len + (nm_cap m - 16 - length ?body')" using fits by simp
  then have "nm_buf m = ?H @ ?body' @ replicate (nm_cap m - 16 - length ?body') 0"
    using r by (simp only: msg_repr_def replicate_add append_assoc)
  moreover have "length ?body' mod 4 = 0" using r align4_mod [of len]
    by (simp add: msg_repr_def mod_add_eq [symmetric])
  moreover have "nm_cap m < 2 ^ 31" using r by (simp add: msg_repr_def)
  ultimately obtain m1 where m1: "set_hdr_len (16 + length body + align4 len) m = Some m1"
    "msg_repr m1 ty fl ?body'" "nm_cap m1 = nm_cap m"
    using set_hdr_len_repr [of m "16 + length body" ty fl ?body' "16 + length body + align4 len"] fits
    by auto
  have "put_bytes (16 + length body + len) (replicate (align4 len - len) 0) (nm_buf m1) = Some (nm_buf m1)"
  proof -
    let ?p = "nl_header (16 + length ?body') ty fl @ body @ replicate len 0"
    have "replicate (align4 len) (0::u8) = replicate len 0 @ replicate (align4 len - len) 0"
      using al by (simp add: replicate_add [symmetric])
    then have "nm_buf m1 = ?p @ replicate (align4 len - len) 0 @ replicate (nm_cap m1 - 16 - length ?body') 0"
      using m1(2) by (simp add: msg_repr_def)
    then show ?thesis
      using put_bytes_append [of "16 + length body + len" ?p "replicate (align4 len - len) 0"
          "replicate (align4 len - len) 0"] by (simp add: add.assoc)
  qed
  then have "nlmsg_reserve len m = Some (Some (16 + length body), m1)"
    using hl fits m1(1) by (simp add: nlmsg_reserve_def Let_def)
  then show ?thesis using m1(2,3) by blast
qed

lemma nlmsg_reserve_full:
  assumes "msg_repr m ty fl body" and "\<not> 16 + length body + align4 len \<le> nm_cap m"
  shows "nlmsg_reserve len m = Some (None, m)"
  using assms(2) hdr_len_repr [OF assms(1)] by (simp add: nlmsg_reserve_def Let_def)

text \<open>Writing a field of the payload, and closing a nested attribute.\<close>

lemma put_field_body:
  assumes r: "msg_repr m ty fl body" and i: "i + k \<le> length body"
  shows "\<exists>m'. put_field (16 + i) k v m = Some m' \<and>
    msg_repr m' ty fl (take i body @ le_bytes k v @ drop (i + k) body) \<and> nm_cap m' = nm_cap m"
proof -
  let ?b' = "take i body @ le_bytes k v @ drop (i + k) body"
  have len: "length ?b' = length body" using i by simp
  have "put_bytes (16 + i) (le_bytes k v) (nm_buf m) =
      Some (nl_header (16 + length body) ty fl @ ?b' @ replicate (nm_cap m - 16 - length body) 0)"
    using put_bytes_inside [of "16 + i" "nl_header (16 + length body) ty fl" i "le_bytes k v" body] r i
    by (simp add: msg_repr_def)
  then show ?thesis using r len by (simp add: put_field_def put_le_def msg_repr_def)
qed

lemma nla_begin_nested_repr:
  assumes r: "msg_repr m ty fl body" and "16 + length body + 4 \<le> nm_cap m"
  shows "\<exists>m'. nla_begin_nested attr m = Some (Some (16 + length body), m') \<and>
    msg_repr m' ty fl (body @ encode_attr attr []) \<and> nm_cap m' = nm_cap m"
proof -
  have "align4 0 = 0" by (simp add: align4_def)
  then show ?thesis using nla_put_fits [OF r, of "[]" attr] assms(2) tail_repr [OF r]
    by (auto simp: nla_begin_nested_def nla_put_attr_def)
qed

lemma encode_attr_aligned:
  "length d mod 4 = 0 \<Longrightarrow> length d + 3 < 2 ^ 32 \<Longrightarrow>
     encode_attr ty d = le_bytes 2 (4 + length d) @ le_bytes 2 ty @ d"
  by (simp add: encode_attr_def pad4_def align4_fix)

lemma nla_end_nested_repr:
  assumes r: "msg_repr m ty fl (body @ encode_attr attr [] @ nested)" and al: "length nested mod 4 = 0"
  shows "\<exists>m'. nla_end_nested (16 + length body) m = Some m' \<and>
    msg_repr m' ty fl (body @ encode_attr attr nested) \<and> nm_cap m' = nm_cap m"
proof -
  let ?b = "body @ encode_attr attr [] @ nested"
  have e: "encode_attr attr [] = le_bytes 2 4 @ le_bytes 2 attr"
    by (simp add: encode_attr_aligned)
  have len: "length ?b = length body + 4 + length nested" by (simp add: e)
  have small: "length nested + 3 < 2 ^ 32" using msg_repr_len [OF r] len by simp
  obtain m' where m': "put_field (16 + length body) 2 (4 + length nested) m = Some m'"
    "msg_repr m' ty fl (take (length body) ?b @ le_bytes 2 (4 + length nested) @ drop (length body + 2) ?b)"
    "nm_cap m' = nm_cap m"
    using put_field_body [OF r, of "length body" 2 "4 + length nested"] len by auto
  have "take (length body) ?b @ le_bytes 2 (4 + length nested) @ drop (length body + 2) ?b =
      body @ encode_attr attr nested"
    using encode_attr_aligned [OF al small] by (simp add: e)
  moreover have "16 + length ?b - (16 + length body) = 4 + length nested" using len by simp
  ultimately show ?thesis using m' tail_repr [OF r] by (simp add: nla_end_nested_def)
qed

lemma nlmsg_alloc_reserve_spec:
  assumes "sz + 3 < 2 ^ 30"
  shows "(\<exists>s'. nlmsg_alloc_reserve env sz s = (None, s') \<and> n_blocks s' = n_blocks s \<and> n_fds s' = n_fds s) \<or>
    (\<exists>m s'. nlmsg_alloc_reserve env sz s = (Some m, s') \<and> msg_repr m 0 0 (replicate (align4 sz) 0) \<and>
      nm_cap m = 16 + align4 sz \<and> n_blocks s' = n_blocks s + 2 \<and> n_fds s' = n_fds s)"
  using nlmsg_alloc_spec [OF assms, of env s]
proof (elim disjE exE conjE)
  fix s' assume "nlmsg_alloc env sz s = (None, s')" "n_blocks s' = n_blocks s" "n_fds s' = n_fds s"
  then show ?thesis by (simp add: nlmsg_alloc_reserve_def)
next
  fix m s' assume a: "nlmsg_alloc env sz s = (Some m, s')" "msg_repr m 0 0 []" "nm_cap m = 16 + align4 sz"
    "n_blocks s' = n_blocks s + 2" "n_fds s' = n_fds s"
  have "nm_buf m = nl_header 16 0 0 @ replicate (align4 sz) 0 @
      replicate (nm_cap m - 16 - length (replicate (align4 sz) (0::u8))) 0" "nm_cap m < 2 ^ 31"
    using a(2,3) by (simp_all add: msg_repr_def)
  then obtain m' where "set_hdr_len (nm_cap m) m = Some m'"
    "msg_repr m' 0 0 (replicate (align4 sz) 0)" "nm_cap m' = nm_cap m"
    using set_hdr_len_repr [of m 16 0 0 "replicate (align4 sz) 0" "nm_cap m"] a(3) by auto
  then show ?thesis using a by (simp add: nlmsg_alloc_reserve_def)
qed

section \<open>Reading attributes\<close>

text \<open>
  A pointer to an attribute is the list of bytes from there on.  \<open>parse_attrs\<close> walks with the two
  macros over everything that is left, as a receiver does, and stops at a malformed length.
\<close>

definition nla_len :: "u8 list \<Rightarrow> nat" where
  "nla_len p = le_nat (take 2 p)"

definition nla_type :: "u8 list \<Rightarrow> nat" where
  "nla_type p = le_nat (take 2 (drop 2 p))"

definition NLA_DATA :: "u8 list \<Rightarrow> u8 list" where
  "NLA_DATA p = drop 4 p"

definition NLA_NEXT_ATTR :: "u8 list \<Rightarrow> u8 list" where
  "NLA_NEXT_ATTR p = drop (align4 (nla_len p)) p"

lemma le_nat_less: "le_nat bs < 256 ^ length bs"
proof (induction bs)
  case (Cons b bs)
  have "unat b < 2 ^ LENGTH(8)" by (rule unsigned_less)
  then have "unat b < 256" by simp
  then show ?case using Cons by simp
qed simp

lemma nla_len_less: "nla_len p < 2 ^ 16"
proof -
  have "256 ^ length (take 2 p) \<le> (256::nat) ^ 2" by (rule power_increasing) simp_all
  then show ?thesis using le_nat_less [of "take 2 p"] by (simp add: nla_len_def)
qed

function parse_attrs :: "u8 list \<Rightarrow> (nat \<times> u8 list) list" where
  "parse_attrs p =
     (if length p < 4 \<or> nla_len p < 4 \<or> length p < nla_len p then []
      else (nla_type p, take (nla_len p - 4) (NLA_DATA p)) # parse_attrs (NLA_NEXT_ATTR p))"
  by pat_completeness auto
termination
proof (relation "measure length")
  fix p :: "u8 list"
  assume "\<not> (length p < 4 \<or> nla_len p < 4 \<or> length p < nla_len p)"
  moreover have "nla_len p \<le> align4 (nla_len p)" using align4_bounds [of "nla_len p"] nla_len_less [of p] by simp
  ultimately have "0 < align4 (nla_len p)" "0 < length p" by linarith+
  then show "(NLA_NEXT_ATTR p, p) \<in> measure length" by (simp add: NLA_NEXT_ATTR_def)
qed simp

declare parse_attrs.simps [simp del]

definition attr_ok :: "nat \<times> u8 list \<Rightarrow> bool" where
  "attr_ok a \<longleftrightarrow> fst a < 2 ^ 16 \<and> 4 + length (snd a) < 2 ^ 16"

lemma parse_attrs_append:
  assumes "attr_ok (ty, d)"
  shows "parse_attrs (encode_attr ty d @ rest) = (ty, d) # parse_attrs rest"
proof -
  have sm: "ty < 65536" "4 + length d < 65536" using assms by (simp_all add: attr_ok_def)
  let ?p = "encode_attr ty d @ rest"
  have p: "?p = le_bytes 2 (4 + length d) @ le_bytes 2 ty @ pad4 d @ rest"
    by (simp add: encode_attr_def)
  have len: "nla_len ?p = 4 + length d" and type: "nla_type ?p = ty"
    using sm unfolding nla_len_def nla_type_def p by simp_all
  have pad: "length (pad4 d) = align4 (length d)" "align4 (4 + length d) = 4 + align4 (length d)"
    "length d \<le> align4 (length d)"
    using sm length_pad4 [of d] align4_add [of 4 "length d"] align4_bounds [of "length d"] by simp_all
  have "take (length d) (NLA_DATA ?p) = d" unfolding p NLA_DATA_def by (simp add: pad4_def)
  moreover have "NLA_NEXT_ATTR ?p = rest"
    unfolding NLA_NEXT_ATTR_def len pad(2) unfolding p using pad(1) by simp
  moreover have "4 + length d \<le> length ?p" unfolding p using pad by simp
  ultimately show ?thesis
    using len type by (subst parse_attrs.simps) simp
qed

lemma parse_encode: "list_all attr_ok as \<Longrightarrow> parse_attrs (encode_attrs as) = as"
proof (induction as)
  case Nil
  show ?case by (subst parse_attrs.simps) (simp add: encode_attrs_def)
next
  case (Cons a as)
  then show ?case using parse_attrs_append [of "fst a" "snd a" "encode_attrs as"]
    by (cases a) (simp add: encode_attrs_def)
qed

section \<open>Properties\<close>

text \<open>A sample message with a capacity of 80 bytes, for the witnesses.\<close>

definition sample_msg :: nlmsg where
  "sample_msg = \<lparr>nm_buf = nl_header 16 16 5 @ replicate 64 0, nm_cap = 80\<rparr>"

lemma sample_msg_repr: "msg_repr sample_msg 16 5 []"
  by (simp add: msg_repr_def sample_msg_def)

lemma align4_values [simp]: "align4 0 = 0" "align4 4 = 4" "align4 16 = 16" "align4 64 = 64"
  "align4 (Suc (Suc 0)) = 4" "align4 (Suc (Suc (Suc (Suc 0)))) = 4"
  "align4 (Suc (Suc (Suc (Suc (Suc 0))))) = 8"
  by (simp_all add: align4_def)

text \<open>
  C20: \<open>nla_put\<close> refines appending an attribute to the payload: if the attribute with its padding
  fits into the capacity, the result is 0, the payload grows by exactly its encoding and header and
  capacity are kept (in particular nothing is written outside the buffer); otherwise the result is
  \<open>-ENOMEM\<close> and the message is unchanged.
\<close>

theorem nla_put_appends:
  assumes "msg_repr m ty fl body" and "length data < 2 ^ 31"
  shows "if 16 + length body + 4 + align4 (length data) \<le> nm_cap m
    then \<exists>m'. nla_put attr data m = Some (0, m') \<and>
      msg_repr m' ty fl (body @ encode_attr attr data) \<and> nm_cap m' = nm_cap m
    else nla_put attr data m = Some (- int ENOMEM, m)"
  using nla_put_fits [OF assms] nla_put_full [OF assms] by auto

lemma nla_put_appends_witness:
  "(\<exists>m'. nla_put 3 [1, 2, 3, 4, 5] sample_msg = Some (0, m') \<and>
      msg_repr m' 16 5 (encode_attr 3 [1, 2, 3, 4, 5])) \<and>
   nla_put 3 (replicate 64 7) sample_msg = Some (- 12, sample_msg)"
proof -
  have "nm_cap sample_msg = 80" by (simp add: sample_msg_def)
  then show ?thesis
    using nla_put_appends [OF sample_msg_repr, of "[1, 2, 3, 4, 5]" 3]
      nla_put_appends [OF sample_msg_repr, of "replicate 64 7" 3]
    by (auto simp: ENOMEM_def)
qed

text \<open>Putting a list of attributes one after the other, up to the first failure.\<close>

fun put_attrs :: "(nat \<times> u8 list) list \<Rightarrow> nlmsg \<Rightarrow> (int \<times> nlmsg) option" where
  "put_attrs [] m = Some (0, m)"
| "put_attrs ((ty, d) # as) m = do {
     (r, m') \<leftarrow> nla_put_buffer ty d m;
     if r \<noteq> 0 then Some (r, m') else put_attrs as m'
   }"

lemma encode_attrs_append: "encode_attrs (as @ bs) = encode_attrs as @ encode_attrs bs"
  by (simp add: encode_attrs_def)

lemma encode_attrs_Cons: "encode_attrs ((ty, d) # as) = encode_attr ty d @ encode_attrs as"
  by (simp add: encode_attrs_def)

lemma put_attrs_repr:
  assumes "msg_repr m ty fl body" and "list_all attr_ok as" and "put_attrs as m = Some (0, m')"
  shows "msg_repr m' ty fl (body @ encode_attrs as)"
  using assms
proof (induction as arbitrary: m body)
  case Nil
  then show ?case by (simp add: encode_attrs_def)
next
  case (Cons a as)
  obtain t d where a: "a = (t, d)" by (cases a)
  have d: "length d < 2 ^ 31" using Cons.prems(2) a by (simp add: attr_ok_def)
  have fits: "16 + length body + 4 + align4 (length d) \<le> nm_cap m"
  proof (rule ccontr)
    assume "\<not> ?thesis"
    then have "nla_put t d m = Some (- int ENOMEM, m)" by (rule nla_put_full [OF Cons.prems(1) d])
    then show False using Cons.prems(3) a by (simp add: nla_put_buffer_def ENOMEM_def)
  qed
  obtain m1 where m1: "nla_put t d m = Some (0, m1)" "msg_repr m1 ty fl (body @ encode_attr t d)"
    using nla_put_fits [OF Cons.prems(1) d fits] by blast
  have "put_attrs as m1 = Some (0, m')" using Cons.prems(3) a m1(1) by (simp add: nla_put_buffer_def)
  then show ?case using Cons.IH [OF m1(2)] Cons.prems(2) a by (simp add: encode_attrs_Cons)
qed

lemma netlink_send_repr:
  assumes "msg_repr m ty fl body" and "h_fd h = Some fd"
  shows "netlink_send env h m s = Some (case k_sendmsg env s of Inl e \<Rightarrow> - int e | Inr r \<Rightarrow> int r,
     log_event (EvSend fd (nl_header (16 + length body) ty fl @ body)) s)"
proof -
  have "get_bytes 0 (16 + length body) (nm_buf m) = Some (nl_header (16 + length body) ty fl @ body)"
    using assms(1) by (auto simp: get_bytes_def msg_repr_def)
  then show ?thesis using assms(2) hdr_len_repr [OF assms(1)] by (simp add: netlink_send_def Let_def)
qed

text \<open>
  C22: Round trip through the wire: attributes put into an empty message are what a receiver that
  walks the sent bytes after the header reads back, in order and with their data.
\<close>

theorem attrs_roundtrip:
  assumes "msg_repr m ty fl []" and "list_all attr_ok as" and "put_attrs as m = Some (0, m')"
    and "h_fd h = Some fd"
  shows "\<exists>r bytes s'. netlink_send env h m' s = Some (r, s') \<and>
    n_trace s' = n_trace s @ [EvSend fd bytes] \<and> parse_attrs (drop 16 bytes) = as"
proof -
  have r: "msg_repr m' ty fl (encode_attrs as)" using put_attrs_repr [OF assms(1-3)] by simp
  show ?thesis
    using netlink_send_repr [OF r assms(4), of env s] parse_encode [OF assms(2)]
    by (simp add: log_event_def)
qed

definition sample_net_env :: net_env where
  "sample_net_env = \<lparr>k_malloc = \<lambda>_ _. True, k_socket = \<lambda>_. Inr 3, k_setsockopt = \<lambda>_. None,
     k_bind = \<lambda>_. None, k_getsockname = \<lambda>_. Inr (12, 16), k_time = \<lambda>_. 1000,
     k_sendmsg = \<lambda>_. Inr 40, k_recvmsg = \<lambda>_. Inr (nl_header 36 2 0 @ replicate 20 0),
     k_nametoindex = \<lambda>_ _. 7, k_ioctl = \<lambda>_. Inr (replicate 40 0)\<rparr>"

definition sample_net :: net where
  "sample_net = \<lparr>n_fds = [], n_blocks = 0, n_trace = []\<rparr>"

lemma attrs_roundtrip_witness:
  "\<exists>m' bytes r s'. put_attrs [(3, [104, 0]), (19, [1, 2, 3, 4])] sample_msg = Some (0, m') \<and>
     netlink_send sample_net_env \<lparr>h_fd = Some 5, h_seq = 0\<rparr> m' sample_net = Some (r, s') \<and>
     n_trace s' = [EvSend 5 bytes] \<and> parse_attrs (drop 16 bytes) = [(3, [104, 0]), (19, [1, 2, 3, 4])]"
proof -
  have cap: "nm_cap sample_msg = 80" by (simp add: sample_msg_def)
  obtain m1 where m1: "nla_put 3 [104, 0] sample_msg = Some (0, m1)"
    "msg_repr m1 16 5 (encode_attr 3 [104, 0])" "nm_cap m1 = 80"
    using nla_put_fits [OF sample_msg_repr, of "[104, 0]" 3] cap by auto
  have "length (encode_attr 3 [104, 0]) = 8" by (simp add: length_encode_attr)
  then obtain m2 where m2: "nla_put 19 [1, 2, 3, 4] m1 = Some (0, m2)"
    using nla_put_fits [OF m1(2), of "[1, 2, 3, 4]" 19] m1(3) by auto
  have p: "put_attrs [(3, [104, 0]), (19, [1, 2, 3, 4])] sample_msg = Some (0, m2)"
    using m1(1) m2 by (simp add: nla_put_buffer_def)
  have "list_all attr_ok [(3, [104, 0]), (19, [1, 2, 3, 4])]" by (simp add: attr_ok_def)
  from attrs_roundtrip [where env = sample_net_env and s = sample_net and fd = 5
      and h = "\<lparr>h_fd = Some 5, h_seq = 0\<rparr>", OF sample_msg_repr this p]
  obtain r bytes s' where "netlink_send sample_net_env \<lparr>h_fd = Some 5, h_seq = 0\<rparr> m2 sample_net = Some (r, s')"
    "n_trace s' = n_trace sample_net @ [EvSend 5 bytes]"
    "parse_attrs (drop 16 bytes) = [(3, [104, 0]), (19, [1, 2, 3, 4])]" by auto
  then show ?thesis using p unfolding sample_net_def by auto
qed

text \<open>
  Nesting: opening an attribute, putting others and closing it gives one attribute whose data
  is the encoding of the others.
\<close>

theorem nested_attrs:
  assumes "msg_repr m ty fl body" and "nla_begin_nested attr m = Some (Some rta, m1)"
    and "put_attrs as m1 = Some (0, m2)" and "list_all attr_ok as"
  shows "\<exists>m3. nla_end_nested rta m2 = Some m3 \<and>
    msg_repr m3 ty fl (body @ encode_attr attr (encode_attrs as)) \<and> nm_cap m3 = nm_cap m2"
proof -
  have fits: "16 + length body + 4 \<le> nm_cap m"
  proof (rule ccontr)
    assume "\<not> ?thesis"
    then have "nla_put attr [] m = Some (- int ENOMEM, m)"
      using nla_put_full [OF assms(1), of "[]" attr] by simp
    then show False using assms(2) tail_repr [OF assms(1)]
      by (simp add: nla_begin_nested_def nla_put_attr_def ENOMEM_def)
  qed
  have m1: "msg_repr m1 ty fl (body @ encode_attr attr [])" and rta: "rta = 16 + length body"
    using nla_begin_nested_repr [OF assms(1) fits, of attr] assms(2) by auto
  have m2: "msg_repr m2 ty fl (body @ encode_attr attr [] @ encode_attrs as)"
    using put_attrs_repr [OF m1 assms(4,3)] by simp
  have "length (encode_attrs as) mod 4 = 0" using assms(4)
  proof (induction as)
    case (Cons a as)
    have "length (encode_attr (fst a) (snd a)) = 4 + align4 (length (snd a))"
      using Cons.prems by (intro length_encode_attr) (simp add: attr_ok_def)
    moreover have "align4 (length (snd a)) mod 4 = 0" by (rule align4_mod)
    ultimately have "length (encode_attr (fst a) (snd a)) mod 4 = 0" by presburger
    moreover have "length (encode_attrs as) mod 4 = 0" using Cons by simp
    ultimately show ?case by (cases a) (simp add: encode_attrs_Cons mod_add_eq [symmetric])
  qed (simp add: encode_attrs_def)
  from nla_end_nested_repr [OF m2 this] show ?thesis unfolding rta .
qed

lemma nested_attrs_witness:
  "\<exists>m1 m2 m3. nla_begin_nested 18 sample_msg = Some (Some 16, m1) \<and>
     put_attrs [(1, [118, 101, 116, 104, 0])] m1 = Some (0, m2) \<and> nla_end_nested 16 m2 = Some m3 \<and>
     msg_repr m3 16 5 (encode_attr 18 (encode_attr 1 [118, 101, 116, 104, 0]))"
proof -
  have cap: "nm_cap sample_msg = 80" by (simp add: sample_msg_def)
  obtain m1 where m1: "nla_begin_nested 18 sample_msg = Some (Some 16, m1)"
    "msg_repr m1 16 5 (encode_attr 18 [])" "nm_cap m1 = 80"
    using nla_begin_nested_repr [OF sample_msg_repr, of 18] cap by auto
  have "length (encode_attr 18 []) = 4" by (simp add: length_encode_attr)
  then obtain m2 where "nla_put 1 [118, 101, 116, 104, 0] m1 = Some (0, m2)"
    using nla_put_fits [OF m1(2), of "[118, 101, 116, 104, 0]" 1] m1(3) by auto
  then have p: "put_attrs [(1, [118, 101, 116, 104, 0])] m1 = Some (0, m2)"
    by (simp add: nla_put_buffer_def)
  then show ?thesis
    using nested_attrs [OF sample_msg_repr m1(1) p] m1(1)
    by (auto simp: attr_ok_def encode_attrs_def)
qed

section \<open>The socket\<close>

text \<open>The documented behaviour of failing calls: \<open>errno\<close> is positive.\<close>

definition errno_ok :: "net_env \<Rightarrow> bool" where
  "errno_ok env \<longleftrightarrow> (\<forall>s e. (k_socket env s = Inl e \<or> k_setsockopt env s = Some e \<or> k_bind env s = Some e \<or>
     k_getsockname env s = Inl e \<or> k_sendmsg env s = Inl e \<or> k_recvmsg env s = Inl e \<or>
     k_ioctl env s = Inl e) \<longrightarrow> 0 < e)"

lemma errno_okD:
  assumes "errno_ok env"
  shows "k_socket env s = Inl e \<Longrightarrow> 0 < e" and "k_setsockopt env s = Some e \<Longrightarrow> 0 < e"
    and "k_bind env s = Some e \<Longrightarrow> 0 < e" and "k_getsockname env s = Inl e \<Longrightarrow> 0 < e"
    and "k_sendmsg env s = Inl e \<Longrightarrow> 0 < e" and "k_recvmsg env s = Inl e \<Longrightarrow> 0 < e"
    and "k_ioctl env s = Inl e \<Longrightarrow> 0 < e"
  using assms unfolding errno_ok_def by blast+

lemma log_event_simps [simp]: "n_fds (log_event e s) = n_fds s" "n_blocks (log_event e s) = n_blocks s"
  "n_trace (log_event e s) = n_trace s @ [e]"
  by (simp_all add: log_event_def)

lemma netlink_open_no_socket:
  assumes "k_socket env s = Inl e"
  shows "\<exists>h s'. netlink_open env protocol s = (- int e, h, s') \<and> n_fds s' = n_fds s \<and> n_blocks s' = n_blocks s"
  using assms by (simp add: netlink_open_def sys_socket_def)

lemma netlink_open_socket:
  assumes "k_socket env s = Inr fd" and "errno_ok env"
  shows "\<exists>r h s'. netlink_open env protocol s = (r, h, s') \<and> r \<le> 0 \<and> h_fd h = Some fd \<and>
    n_fds s' = fd # n_fds s \<and> n_blocks s' = n_blocks s"
  using assms(1) errno_okD [OF assms(2)]
  by (auto simp: netlink_open_def sys_socket_def Let_def split: option.splits sum.splits)

text \<open>
  Whatever fails in \<open>netlink_open\<close> after the socket call, the descriptor stays open: for any
  outcome of the later calls, the result is 0 or negative and the new descriptor is among the open
  ones when it returns.  Its callers return at once on a negative result, so it is leaked.
\<close>

theorem netlink_open_keeps_descriptor:
  assumes "k_socket env s = Inr fd" and "errno_ok env"
  shows "\<exists>r h s'. netlink_open env protocol s = (r, h, s') \<and> r \<le> 0 \<and> h_fd h = Some fd \<and>
    n_fds s' = fd # n_fds s \<and> n_blocks s' = n_blocks s \<and>
    (\<forall>e. k_setsockopt env = (\<lambda>_. None) \<and> k_bind env = (\<lambda>_. Some e) \<longrightarrow> r = - int e)"
proof -
  obtain r h s' where o: "netlink_open env protocol s = (r, h, s')" "r \<le> 0" "h_fd h = Some fd"
    "n_fds s' = fd # n_fds s" "n_blocks s' = n_blocks s"
    using netlink_open_socket [OF assms, of protocol] by blast
  have "r = - int e" if "k_setsockopt env = (\<lambda>_. None)" "k_bind env = (\<lambda>_. Some e)" for e
    using o(1) assms(1) that by (simp add: netlink_open_def sys_socket_def Let_def)
  then show ?thesis using o by blast
qed

lemma netlink_open_keeps_descriptor_witness:
  "\<exists>h s'. netlink_open (sample_net_env\<lparr>k_bind := \<lambda>_. Some 98\<rparr>) 0 sample_net = (- 98, h, s') \<and>
     n_fds s' = [3]"
proof -
  let ?env = "sample_net_env\<lparr>k_bind := \<lambda>_. Some 98\<rparr>"
  have env: "k_socket ?env sample_net = Inr 3" "errno_ok ?env" "k_bind ?env = (\<lambda>_. Some 98)"
    "k_setsockopt ?env = (\<lambda>_. None)"
    by (simp_all add: sample_net_env_def errno_ok_def)
  show ?thesis using netlink_open_keeps_descriptor [OF env(1,2), of 0] env(3,4)
    by (fastforce simp: sample_net_def)
qed

section \<open>Transactions\<close>

text \<open>Interrupted receives end sooner or later.\<close>

definition eintr_ends :: "net_env \<Rightarrow> bool" where
  "eintr_ends env \<longleftrightarrow> (\<exists>k. \<forall>s. k \<le> length (n_trace s) \<longrightarrow> k_recvmsg env s \<noteq> Inl EINTR)"

lemma recv_loop_run:
  assumes "eintr_ends env"
  shows "\<exists>r k s'. recv_loop env fd n s = Some (r, s') \<and> r \<noteq> Inl EINTR \<and> 0 < k \<and>
    n_trace s' = n_trace s @ replicate k (EvRecv fd n) \<and> n_fds s' = n_fds s \<and> n_blocks s' = n_blocks s"
proof -
  obtain K where K: "\<And>s. K \<le> length (n_trace s) \<Longrightarrow> k_recvmsg env s \<noteq> Inl EINTR"
    using assms unfolding eintr_ends_def by blast
  show ?thesis
  proof (induction "K - length (n_trace s)" arbitrary: s rule: less_induct)
    case less
    let ?s' = "log_event (EvRecv fd n) s"
    show ?case
    proof (cases "k_recvmsg env s = Inl EINTR")
      case True
      then have "length (n_trace s) < K" using K [of s] by (metis not_le)
      then have "K - length (n_trace ?s') < K - length (n_trace s)" by simp
      from less [OF this] obtain r k s' where
        "recv_loop env fd n ?s' = Some (r, s')" "r \<noteq> Inl EINTR" "0 < k"
        "n_trace s' = n_trace ?s' @ replicate k (EvRecv fd n)" "n_fds s' = n_fds ?s'" "n_blocks s' = n_blocks ?s'"
        by blast
      then show ?thesis using True
        by (subst recv_loop.simps) (auto simp: Let_def intro!: exI [of _ "Suc k"])
    next
      case False
      then show ?thesis
        by (subst recv_loop.simps) (auto simp: Let_def split: sum.splits intro!: exI [of _ "Suc 0"])
    qed
  qed
qed

text \<open>
  The receive loop retries exactly the interrupted receives: if interrupts end sooner or later
  it returns, with the first outcome that is not \<open>EINTR\<close>, having made only receive calls.
\<close>

theorem recv_loop_returns:
  assumes "eintr_ends env"
  shows "\<exists>r k s'. recv_loop env fd n s = Some (r, s') \<and> r \<noteq> Inl EINTR \<and> 0 < k \<and>
    n_trace s' = n_trace s @ replicate k (EvRecv fd n) \<and> n_fds s' = n_fds s \<and> n_blocks s' = n_blocks s"
  using assms by (rule recv_loop_run)

lemma recv_loop_returns_witness:
  "\<exists>r k s'. recv_loop (sample_net_env\<lparr>k_recvmsg := \<lambda>s. if length (n_trace s) < 3 then Inl 4 else Inr []\<rparr>)
      5 20 sample_net = Some (r, s') \<and> n_trace s' = replicate k (EvRecv 5 20)"
proof -
  let ?env = "sample_net_env\<lparr>k_recvmsg := \<lambda>s. if length (n_trace s) < 3 then Inl 4 else Inr []\<rparr>"
  have "eintr_ends ?env" unfolding eintr_ends_def by (intro exI [of _ 3]) simp
  from recv_loop_returns [OF this, of 5 20 sample_net] show ?thesis unfolding sample_net_def by auto
qed

lemma hdr_type_header: "nm_buf m = nl_header len ty fl @ rest \<Longrightarrow> hdr_type m = Some (ty mod 256 ^ 2)"
  using get_le_append [of 4 "le_bytes 4 len" 2 ty "le_bytes 2 fl @ replicate 8 0 @ rest"]
  by (simp add: hdr_type_def nl_header_def)

lemma hdr_len_header: "nm_buf m = nl_header len ty fl @ rest \<Longrightarrow> hdr_len m = Some (len mod 256 ^ 4)"
  using get_le_append [of 0 "[]" 4 len "le_bytes 2 ty @ le_bytes 2 fl @ replicate 8 0 @ rest"]
  by (simp add: hdr_len_def nl_header_def)

lemma netlink_rcv_datagram:
  assumes "hdr_len answer = Some n" and "16 \<le> n" and "n \<le> length (nm_buf answer)" and "h_fd h = Some fd"
    and "recv_loop env fd n s = Some (Inr d, s')" and "d = nl_header L ty fl @ rest" and "L < 2 ^ 32"
  shows "\<exists>a rest'. netlink_rcv env h answer s =
      Some (if n < length d \<and> L = n then - int EMSGSIZE else int (min (length d) n), a, s') \<and>
    nm_buf a = nl_header L ty fl @ take (n - 16) rest @ rest'"
proof -
  let ?rest' = "drop (min (length d) n) (nm_buf answer)"
  have t: "take n d = nl_header L ty fl @ take (n - 16) rest" using assms(2,6) by simp
  have p: "put_bytes 0 (take n d) (nm_buf answer) = Some (take n d @ ?rest')"
    using assms(3) by (simp add: put_bytes_def min.commute)
  let ?a = "answer\<lparr>nm_buf := take n d @ ?rest'\<rparr>"
  have buf: "nm_buf ?a = nl_header L ty fl @ take (n - 16) rest @ ?rest'" using t by simp
  then have "hdr_len ?a = Some L" using hdr_len_header [OF buf] assms(7) by simp
  moreover have "0 < min (length d) n" using assms(2,6) by simp
  moreover have "min (length d) n = L \<longleftrightarrow> n = L" if "n < length d" using that by auto
  ultimately have "netlink_rcv env h answer s =
      Some (if n < length d \<and> L = n then - int EMSGSIZE else int (min (length d) n), ?a, s')"
    using assms(1,3,4,5) p by (auto simp: netlink_rcv_def Let_def)
  then show ?thesis using buf by blast
qed

text \<open>
  A truncated answer is taken for a complete one: the test for \<open>MSG_TRUNC\<close> compares the number
  of bytes received with the length field of the message just received, not with the size of the
  buffer, so for a well-formed message longer than the buffer \<open>netlink_rcv\<close> returns the buffer's
  size, a success.
\<close>

theorem truncation_unnoticed:
  assumes "hdr_len answer = Some n" and "16 \<le> n" and "n \<le> length (nm_buf answer)" and "h_fd h = Some fd"
    and "recv_loop env fd n s = Some (Inr d, s')" and "d = nl_header (length d) ty fl @ rest"
    and "length d < 2 ^ 32" and "n < length d"
  shows "\<exists>a. netlink_rcv env h answer s = Some (int n, a, s')"
proof -
  have "n < length d \<and> length d = n \<longleftrightarrow> False" "min (length d) n = n" using assms(8) by simp_all
  then show ?thesis using netlink_rcv_datagram [OF assms(1-7)] by auto
qed

lemma truncation_unnoticed_witness:
  "\<exists>a s'. netlink_rcv (sample_net_env\<lparr>k_recvmsg := \<lambda>_. Inr (nl_header 96 2 0 @ replicate 80 1)\<rparr>)
      \<lparr>h_fd = Some 3, h_seq = 0\<rparr> (sample_msg\<lparr>nm_buf := nl_header 80 0 0 @ replicate 64 0\<rparr>) sample_net =
    Some (80, a, s')"
proof -
  let ?env = "sample_net_env\<lparr>k_recvmsg := \<lambda>_. Inr (nl_header 96 2 0 @ replicate 80 1)\<rparr>"
  let ?m = "sample_msg\<lparr>nm_buf := nl_header 80 0 0 @ replicate 64 0\<rparr>"
  have h: "hdr_len ?m = Some 80" using hdr_len_header [of ?m 80 0 0 "replicate 64 0"] by simp
  have "recv_loop ?env 3 80 sample_net = Some (Inr (nl_header 96 2 0 @ replicate 80 1), log_event (EvRecv 3 80) sample_net)"
    by (subst recv_loop.simps) simp
  from truncation_unnoticed [OF h _ _ _ this, of "\<lparr>h_fd = Some 3, h_seq = 0\<rparr>" 2 0 "replicate 80 1"]
  show ?thesis by auto
qed

lemma transaction_error:
  assumes "msg_repr request rty rfl body" and "h_fd h = Some fd" and "k_sendmsg env s = Inr sent"
    and "hdr_len answer = Some n" and "20 \<le> n" and "n \<le> length (nm_buf answer)"
    and "recv_loop env fd n (log_event (EvSend fd (nl_header (16 + length body) rty rfl @ body)) s) =
      Some (Inr d, s')"
    and "d = nl_header L NLMSG_ERROR fl @ le_bytes 4 (unat err) @ rest" and "L < 2 ^ 32"
  shows "\<exists>a. netlink_transaction env h request answer s =
    Some (if n < length d \<and> L = n then - int EMSGSIZE else sint (err :: u32), a, s')"
proof -
  have n: "16 \<le> n" using assms(5) by simp
  obtain a rest' where r: "netlink_rcv env h answer (log_event (EvSend fd (nl_header (16 + length body) rty rfl @ body)) s) =
      Some (if n < length d \<and> L = n then - int EMSGSIZE else int (min (length d) n), a, s')"
    "nm_buf a = nl_header L NLMSG_ERROR fl @ take (n - 16) (le_bytes 4 (unat err) @ rest) @ rest'"
    using netlink_rcv_datagram [OF assms(4) n assms(6,2,7,8,9)] by blast
  have t: "take (n - 16) (le_bytes 4 (unat err) @ rest) = le_bytes 4 (unat err) @ take (n - 20) rest"
    using assms(5) by simp
  have ty: "hdr_type a = Some NLMSG_ERROR"
    using hdr_type_header [OF r(2)] by (simp add: NLMSG_ERROR_def)
  have "unat err < 2 ^ LENGTH(32)" by (rule unsigned_less)
  then have "get_le 16 4 (nm_buf a) = Some (unat err)"
    using get_le_append [of 16 "nl_header L NLMSG_ERROR fl" 4 "unat err" "take (n - 20) rest @ rest'"]
    unfolding r(2) t by simp
  then show ?thesis
    using r(1) ty netlink_send_repr [OF assms(1,2), of env s] assms(3)
    by (simp add: netlink_transaction_def NLMSG_HDRLEN_def EMSGSIZE_def)
qed



text \<open>
  The capacity check can be passed by an attribute of nearly 4 GiB: the alignment macro loses
  the upper half of its length, the check sees a total within the capacity, and the copy runs past
  the buffer.
\<close>

theorem nla_put_wraps:
  assumes "msg_repr m ty fl body" and "length data = 2 ^ 32 - 4"
  shows "nla_put attr data m = None"
proof -
  have al: "align4 (RTA_LENGTH (length data)) = 0" using assms(2) by (simp add: RTA_LENGTH_def align4_def)
  have hl: "hdr_len m = Some (16 + length body)" and tl: "NLMSG_TAIL m = Some (16 + length body)"
    using hdr_len_repr [OF assms(1)] tail_repr [OF assms(1)] by simp_all
  then have a: "align4 (16 + length body) = 16 + length body" by (simp add: NLMSG_TAIL_def)
  note small = msg_repr_len [OF assms(1)]
  have fits: "(align4 (16 + length body) + align4 (RTA_LENGTH (length data))) mod size_modulus \<le> nm_cap m"
    using small a al assms(1) by (simp add: size_modulus_def msg_repr_def)
  have "put_bytes (16 + length body + 4) data b = None" if "length b = nm_cap m" for b
    using that assms small by (simp add: put_bytes_def msg_repr_def)
  moreover have "length (nm_buf m2) = length (nm_buf m1)" if "put_field off k v m1 = Some m2" for off k v m1 m2
    using that by (auto simp: put_field_def put_le_def dest: length_put_bytes)
  ultimately show ?thesis
    using hl tl fits small
    by (auto simp: nla_put_def Let_def bind_eq_None_conv)
qed

lemma nla_put_wraps_witness: "nla_put 3 (replicate (2 ^ 32 - 4) 7) sample_msg = None"
  by (rule nla_put_wraps [OF sample_msg_repr]) simp

end
