(* ===== verification/LxcNetwork.thy ===== *)
theory LxcNetwork
  imports Netlink
begin

unbundle bit_operations_syntax

text \<open>
  The network operations of \<open>toy_docker/step_network/lxc_network/network.c\<close> on top of the netlink
  layer.  Each function is a function of the process state; \<open>None\<close> is undefined behaviour.  The
  six functions that open a route socket, allocate a request and an answer, build the request,
  run the transaction and clean up at the label \<open>out\<close> share their frame, \<open>route_request\<close>; its
  argument \<open>check\<close> is the test before the allocations and \<open>build\<close> the code between the
  allocations and the transaction, which gives the message or the error it goes to \<open>out\<close> with.
\<close>

section \<open>Constants and structures\<close>

definition NETLINK_ROUTE :: nat where "NETLINK_ROUTE = 0"
definition IFNAMSIZ :: nat where "IFNAMSIZ = 16"
definition NLM_F_REQUEST :: nat where "NLM_F_REQUEST = 0x1"
definition NLM_F_ACK :: nat where "NLM_F_ACK = 0x4"
definition NLM_F_EXCL :: nat where "NLM_F_EXCL = 0x200"
definition NLM_F_CREATE :: nat where "NLM_F_CREATE = 0x400"
definition RTM_NEWLINK :: nat where "RTM_NEWLINK = 16"
definition RTM_DELLINK :: nat where "RTM_DELLINK = 17"
definition RTM_NEWADDR :: nat where "RTM_NEWADDR = 20"
definition RTM_NEWROUTE :: nat where "RTM_NEWROUTE = 24"
definition IFLA_IFNAME :: nat where "IFLA_IFNAME = 3"
definition IFLA_LINKINFO :: nat where "IFLA_LINKINFO = 18"
definition IFLA_NET_NS_PID :: nat where "IFLA_NET_NS_PID = 19"
definition IFLA_INFO_KIND :: nat where "IFLA_INFO_KIND = 1"
definition IFLA_INFO_DATA :: nat where "IFLA_INFO_DATA = 2"
definition VETH_INFO_PEER :: nat where "VETH_INFO_PEER = 1"
definition IFA_ADDRESS :: nat where "IFA_ADDRESS = 1"
definition IFA_LOCAL :: nat where "IFA_LOCAL = 2"
definition IFA_BROADCAST :: nat where "IFA_BROADCAST = 4"
definition RTA_DST :: nat where "RTA_DST = 1"
definition RTA_OIF :: nat where "RTA_OIF = 4"
definition RTA_GATEWAY :: nat where "RTA_GATEWAY = 5"
definition AF_UNSPEC :: nat where "AF_UNSPEC = 0"
definition AF_INET :: nat where "AF_INET = 2"
definition AF_INET6 :: nat where "AF_INET6 = 10"
definition IFF_UP :: u32 where "IFF_UP = 1"
definition RT_TABLE_MAIN :: nat where "RT_TABLE_MAIN = 254"
definition RT_SCOPE_UNIVERSE :: nat where "RT_SCOPE_UNIVERSE = 0"
definition RT_SCOPE_LINK :: nat where "RT_SCOPE_LINK = 253"
definition RTPROT_BOOT :: nat where "RTPROT_BOOT = 3"
definition RTN_UNICAST :: nat where "RTN_UNICAST = 1"
definition EPROTONOSUPPORT :: nat where "EPROTONOSUPPORT = 93"

text \<open>
  Offsets in the structures at the start of the payload: \<open>struct ifinfomsg\<close> has the family at 0,
  the index at 4, the flags at 8 and the change mask at 12; \<open>struct ifaddrmsg\<close> family, prefix
  length, flags and scope at 0 to 3 and the index at 4; \<open>struct rtmsg\<close> family, destination length,
  table, protocol, scope and type at 0, 1, 4, 5, 6 and 7.
\<close>

definition sizeof_ifinfomsg :: nat where "sizeof_ifinfomsg = 16"
definition sizeof_ifaddrmsg :: nat where "sizeof_ifaddrmsg = 8"
definition sizeof_rtmsg :: nat where "sizeof_rtmsg = 12"

section \<open>The frame of a request\<close>

text \<open>The label \<open>out\<close>.\<close>

definition request_out :: "nl_handler \<Rightarrow> nlmsg option \<Rightarrow> nlmsg option \<Rightarrow> net \<Rightarrow> net" where
  "request_out nlh m answer s =
     (let (r, h, s1) = netlink_close nlh s in nlmsg_free m (nlmsg_free answer s1))"

definition route_request :: "net_env \<Rightarrow> int option \<Rightarrow> (net \<Rightarrow> nlmsg \<Rightarrow> (int + nlmsg) option) \<Rightarrow>
    net \<Rightarrow> (int \<times> net) option" where
  "route_request env check build s =
     (let (err, nlh, s1) = netlink_open env NETLINK_ROUTE s in
      if err \<noteq> 0 then Some (err, s1)
      else
        case check of
          Some e \<Rightarrow> Some (e, request_out nlh None None s1)
        | None \<Rightarrow>
            case nlmsg_alloc env NLMSG_GOOD_SIZE s1 of
              (None, s2) \<Rightarrow> Some (- int ENOMEM, request_out nlh None None s2)
            | (Some m, s2) \<Rightarrow>
                case nlmsg_alloc_reserve env NLMSG_GOOD_SIZE s2 of
                  (None, s3) \<Rightarrow> Some (- int ENOMEM, request_out nlh (Some m) None s3)
                | (Some answer, s3) \<Rightarrow> do {
                    r \<leftarrow> build s3 m;
                    case r of
                      Inl e \<Rightarrow> Some (e, request_out nlh (Some m) (Some answer) s3)
                    | Inr m' \<Rightarrow> do {
                        (err', answer', s4) \<leftarrow> netlink_transaction env nlh m' answer s3;
                        Some (err', request_out nlh (Some m') (Some answer') s4)
                      }
                  })"

text \<open>The tests of interface names: a single character is rejected, the empty string is not.\<close>

definition bad_name :: "cstring \<Rightarrow> bool" where
  "bad_name name \<longleftrightarrow> length name = 1 \<or> length name \<ge> IFNAMSIZ"

section \<open>Links\<close>

definition netdev_set_flag :: "net_env \<Rightarrow> cstring \<Rightarrow> u32 \<Rightarrow> net \<Rightarrow> (int \<times> net) option" where
  "netdev_set_flag env name flag s =
     route_request env (if bad_name name then Some (- int EINVAL) else None)
       (\<lambda>s' m. let index = k_nametoindex env s' name in
          if index = 0 then Some (Inl (- int EINVAL))
          else do {
            m \<leftarrow> set_hdr_flags (NLM_F_REQUEST OR NLM_F_ACK) m;
            m \<leftarrow> set_hdr_type RTM_NEWLINK m;
            (r, m) \<leftarrow> nlmsg_reserve sizeof_ifinfomsg m;
            ifi \<leftarrow> r;
            m \<leftarrow> put_field ifi 1 AF_UNSPEC m;
            m \<leftarrow> put_field (ifi + 4) 4 (unat index) m;
            change \<leftarrow> get_le (ifi + 12) 4 (nm_buf m);
            m \<leftarrow> put_field (ifi + 12) 4 (change OR unat IFF_UP) m;
            flags \<leftarrow> get_le (ifi + 8) 4 (nm_buf m);
            m \<leftarrow> put_field (ifi + 8) 4 (flags OR unat flag) m;
            Some (Inr m)
          }) s"

definition lxc_netdev_up :: "net_env \<Rightarrow> cstring \<Rightarrow> net \<Rightarrow> (int \<times> net) option" where
  "lxc_netdev_up env name s = netdev_set_flag env name IFF_UP s"

definition lxc_netdev_down :: "net_env \<Rightarrow> cstring \<Rightarrow> net \<Rightarrow> (int \<times> net) option" where
  "lxc_netdev_down env name s = netdev_set_flag env name 0 s"

text \<open>The first step that fails sends the function to \<open>out\<close> with \<open>-EINVAL\<close>.\<close>

definition or_einval :: "(int \<times> nlmsg) option \<Rightarrow> (nlmsg \<Rightarrow> (int + nlmsg) option) \<Rightarrow>
    (int + nlmsg) option" where
  "or_einval r k = do { (err, m) \<leftarrow> r; if err \<noteq> 0 then Some (Inl (- int EINVAL)) else k m }"

definition or_null :: "(nat option \<times> nlmsg) option \<Rightarrow> (nat \<Rightarrow> nlmsg \<Rightarrow> (int + nlmsg) option) \<Rightarrow>
    (int + nlmsg) option" where
  "or_null r k = do {
     (p, m) \<leftarrow> r;
     case p of None \<Rightarrow> Some (Inl (- int EINVAL)) | Some a \<Rightarrow> k a m
   }"

definition lxc_veth_create :: "net_env \<Rightarrow> cstring \<Rightarrow> cstring \<Rightarrow> net \<Rightarrow> (int \<times> net) option" where
  "lxc_veth_create env name1 name2 s =
     route_request env (if bad_name name1 \<or> bad_name name2 then Some (- int EINVAL) else None)
       (\<lambda>s' m. do {
          m \<leftarrow> set_hdr_flags (NLM_F_REQUEST OR NLM_F_CREATE OR NLM_F_EXCL OR NLM_F_ACK) m;
          m \<leftarrow> set_hdr_type RTM_NEWLINK m;
          (r, m) \<leftarrow> nlmsg_reserve sizeof_ifinfomsg m;
          ifi \<leftarrow> r;
          m \<leftarrow> put_field ifi 1 AF_UNSPEC m;
          or_null (nla_begin_nested IFLA_LINKINFO m) (\<lambda>nest1 m.
          or_einval (nla_put_string IFLA_INFO_KIND (ascii ''veth'') m) (\<lambda>m.
          or_null (nla_begin_nested IFLA_INFO_DATA m) (\<lambda>nest2 m.
          or_null (nla_begin_nested VETH_INFO_PEER m) (\<lambda>nest3 m.
          or_null (nlmsg_reserve sizeof_ifinfomsg m) (\<lambda>ifi m.
          or_einval (nla_put_string IFLA_IFNAME name2 m) (\<lambda>m. do {
            m \<leftarrow> nla_end_nested nest3 m;
            m \<leftarrow> nla_end_nested nest2 m;
            m \<leftarrow> nla_end_nested nest1 m;
            or_einval (nla_put_string IFLA_IFNAME name1 m) (\<lambda>m. Some (Inr m))
          }))))))
        }) s"

text \<open>
  \<open>lxc_netdev_move_by_index\<close> has no answer of its own: the request's buffer, up to the request's
  length, receives the answer.
\<close>

definition lxc_netdev_move_by_index ::
    "net_env \<Rightarrow> u32 \<Rightarrow> u32 \<Rightarrow> cstring option \<Rightarrow> net \<Rightarrow> (int \<times> net) option" where
  "lxc_netdev_move_by_index env ifindex pid ifname s =
     (let (err, nlh, s1) = netlink_open env NETLINK_ROUTE s in
      if err \<noteq> 0 then Some (err, s1)
      else
        case nlmsg_alloc env NLMSG_GOOD_SIZE s1 of
          (None, s2) \<Rightarrow> Some (- int ENOMEM, request_out nlh None None s2)
        | (Some m, s2) \<Rightarrow> do {
            m \<leftarrow> set_hdr_flags (NLM_F_REQUEST OR NLM_F_ACK) m;
            m \<leftarrow> set_hdr_type RTM_NEWLINK m;
            (r, m) \<leftarrow> nlmsg_reserve sizeof_ifinfomsg m;
            ifi \<leftarrow> r;
            m \<leftarrow> put_field ifi 1 AF_UNSPEC m;
            m \<leftarrow> put_field (ifi + 4) 4 (unat ifindex) m;
            (r, m) \<leftarrow> nla_put_u32 IFLA_NET_NS_PID pid m;
            if r \<noteq> 0 then Some (- int ENOMEM, request_out nlh (Some m) None s2)
            else do {
              (r, m) \<leftarrow> (case ifname of None \<Rightarrow> Some (0, m) | Some nm \<Rightarrow> nla_put_string IFLA_IFNAME nm m);
              if r \<noteq> 0 then Some (- int ENOMEM, request_out nlh (Some m) None s2)
              else do {
                (err, m, s3) \<leftarrow> netlink_transaction env nlh m m s2;
                Some (err, request_out nlh (Some m) None s3)
              }
            }
          })"

definition lxc_netdev_move_by_name ::
    "net_env \<Rightarrow> cstring option \<Rightarrow> u32 \<Rightarrow> cstring option \<Rightarrow> net \<Rightarrow> (int \<times> net) option" where
  "lxc_netdev_move_by_name env ifname pid newname s =
     (case ifname of
        None \<Rightarrow> Some (- int EINVAL, s)
      | Some nm \<Rightarrow>
          let index = k_nametoindex env s nm in
          if index = 0 then Some (- int EINVAL, s)
          else lxc_netdev_move_by_index env index pid newname s)"

definition lxc_netdev_delete_by_index :: "net_env \<Rightarrow> u32 \<Rightarrow> net \<Rightarrow> (int \<times> net) option" where
  "lxc_netdev_delete_by_index env ifindex s =
     route_request env None
       (\<lambda>s' m. do {
          m \<leftarrow> set_hdr_flags (NLM_F_ACK OR NLM_F_REQUEST) m;
          m \<leftarrow> set_hdr_type RTM_DELLINK m;
          (r, m) \<leftarrow> nlmsg_reserve sizeof_ifinfomsg m;
          ifi \<leftarrow> r;
          m \<leftarrow> put_field ifi 1 AF_UNSPEC m;
          m \<leftarrow> put_field (ifi + 4) 4 (unat ifindex) m;
          Some (Inr m)
        }) s"

definition lxc_netdev_delete_by_name :: "net_env \<Rightarrow> cstring \<Rightarrow> net \<Rightarrow> (int \<times> net) option" where
  "lxc_netdev_delete_by_name env name s =
     (let index = k_nametoindex env s name in
      if index = 0 then Some (- int EINVAL, s) else lxc_netdev_delete_by_index env index s)"

section \<open>Addresses and routes\<close>

text \<open>\<open>addr\<close>, \<open>bcast\<close>, \<open>acast\<close>, \<open>gw\<close> and \<open>dest\<close> are the bytes of the objects pointed to.\<close>

definition addr_len :: "nat \<Rightarrow> nat" where
  "addr_len family = (if family = AF_INET then 4 else 16)"

definition ip_addr_add :: "net_env \<Rightarrow> nat \<Rightarrow> u32 \<Rightarrow> u8 list \<Rightarrow> u8 list \<Rightarrow> u8 list option \<Rightarrow> nat \<Rightarrow>
    net \<Rightarrow> (int \<times> net) option" where
  "ip_addr_add env family ifindex addr bcast acast prefix s =
     (let addrlen = addr_len family in
      route_request env None
       (\<lambda>s' m. do {
          m \<leftarrow> set_hdr_flags (NLM_F_ACK OR NLM_F_REQUEST OR NLM_F_CREATE OR NLM_F_EXCL) m;
          m \<leftarrow> set_hdr_type RTM_NEWADDR m;
          (r, m) \<leftarrow> nlmsg_reserve sizeof_ifaddrmsg m;
          ifa \<leftarrow> r;
          m \<leftarrow> put_field (ifa + 1) 1 prefix m;
          m \<leftarrow> put_field (ifa + 4) 4 (unat ifindex) m;
          m \<leftarrow> put_field ifa 1 family m;
          m \<leftarrow> put_field (ifa + 3) 1 0 m;
          a \<leftarrow> get_bytes 0 addrlen addr;
          b \<leftarrow> get_bytes 0 addrlen bcast;
          or_einval (nla_put_buffer IFA_LOCAL a m) (\<lambda>m.
          or_einval (nla_put_buffer IFA_ADDRESS a m) (\<lambda>m.
          or_einval (nla_put_buffer IFA_BROADCAST b m) (\<lambda>m. do {
            unsupported \<leftarrow> (if family = AF_INET6 then
                (if b \<noteq> replicate 16 0 then Some True
                 else do { ac \<leftarrow> acast; c \<leftarrow> get_bytes 0 16 ac; Some (c \<noteq> replicate 16 0) })
              else Some False);
            Some (if unsupported then Inl (- int EPROTONOSUPPORT) else Inr m)
          })))
        }) s)"

definition lxc_ipv4_addr_add ::
    "net_env \<Rightarrow> u32 \<Rightarrow> u8 list \<Rightarrow> u8 list \<Rightarrow> nat \<Rightarrow> net \<Rightarrow> (int \<times> net) option" where
  "lxc_ipv4_addr_add env ifindex addr bcast prefix s =
     ip_addr_add env AF_INET ifindex addr bcast None prefix s"

definition ip_gateway_add :: "net_env \<Rightarrow> nat \<Rightarrow> u32 \<Rightarrow> u8 list \<Rightarrow> net \<Rightarrow> (int \<times> net) option" where
  "ip_gateway_add env family ifindex gw s =
     (let addrlen = addr_len family in
      route_request env None
       (\<lambda>s' m. do {
          m \<leftarrow> set_hdr_flags (NLM_F_ACK OR NLM_F_REQUEST OR NLM_F_CREATE OR NLM_F_EXCL) m;
          m \<leftarrow> set_hdr_type RTM_NEWROUTE m;
          (r, m) \<leftarrow> nlmsg_reserve sizeof_rtmsg m;
          rt \<leftarrow> r;
          m \<leftarrow> put_field rt 1 family m;
          m \<leftarrow> put_field (rt + 4) 1 RT_TABLE_MAIN m;
          m \<leftarrow> put_field (rt + 6) 1 RT_SCOPE_UNIVERSE m;
          m \<leftarrow> put_field (rt + 5) 1 RTPROT_BOOT m;
          m \<leftarrow> put_field (rt + 7) 1 RTN_UNICAST m;
          m \<leftarrow> put_field (rt + 1) 1 0 m;
          g \<leftarrow> get_bytes 0 addrlen gw;
          or_einval (nla_put_buffer RTA_GATEWAY g m) (\<lambda>m.
          or_einval (nla_put_u32 RTA_OIF ifindex m) (\<lambda>m. Some (Inr m)))
        }) s)"

definition lxc_ipv4_gateway_add :: "net_env \<Rightarrow> u32 \<Rightarrow> u8 list \<Rightarrow> net \<Rightarrow> (int \<times> net) option" where
  "lxc_ipv4_gateway_add env ifindex gw s = ip_gateway_add env AF_INET ifindex gw s"

definition ip_route_dest_add :: "net_env \<Rightarrow> nat \<Rightarrow> u32 \<Rightarrow> u8 list \<Rightarrow> net \<Rightarrow> (int \<times> net) option" where
  "ip_route_dest_add env family ifindex dest s =
     (let addrlen = addr_len family in
      route_request env None
       (\<lambda>s' m. do {
          m \<leftarrow> set_hdr_flags (NLM_F_ACK OR NLM_F_REQUEST OR NLM_F_CREATE OR NLM_F_EXCL) m;
          m \<leftarrow> set_hdr_type RTM_NEWROUTE m;
          (r, m) \<leftarrow> nlmsg_reserve sizeof_rtmsg m;
          rt \<leftarrow> r;
          m \<leftarrow> put_field rt 1 family m;
          m \<leftarrow> put_field (rt + 4) 1 RT_TABLE_MAIN m;
          m \<leftarrow> put_field (rt + 6) 1 RT_SCOPE_LINK m;
          m \<leftarrow> put_field (rt + 5) 1 RTPROT_BOOT m;
          m \<leftarrow> put_field (rt + 7) 1 RTN_UNICAST m;
          m \<leftarrow> put_field (rt + 1) 1 (addrlen * 8) m;
          d \<leftarrow> get_bytes 0 addrlen dest;
          or_einval (nla_put_buffer RTA_DST d m) (\<lambda>m.
          or_einval (nla_put_u32 RTA_OIF ifindex m) (\<lambda>m. Some (Inr m)))
        }) s)"

definition lxc_ipv4_dest_add :: "net_env \<Rightarrow> u32 \<Rightarrow> u8 list \<Rightarrow> net \<Rightarrow> (int \<times> net) option" where
  "lxc_ipv4_dest_add env ifindex dest s = ip_route_dest_add env AF_INET ifindex dest s"

section \<open>Requests by \<open>ioctl\<close>\<close>

text \<open>
  \<open>struct ifreq\<close> is 40 bytes: the name at 0, the index or the hardware address (family at 16, bytes
  from 18) after it.  \<open>ifr\<close> is what the local variable holds at first.
\<close>

definition sizeof_ifreq :: nat where "sizeof_ifreq = 40"
definition SOCK_STREAM :: nat where "SOCK_STREAM = 1"
definition SOCK_DGRAM :: nat where "SOCK_DGRAM = 2"
definition SIOCGIFHWADDR :: nat where "SIOCGIFHWADDR = 0x8927"
definition SIOCSIFHWADDR :: nat where "SIOCSIFHWADDR = 0x8924"
definition SIOCBRADDIF :: nat where "SIOCBRADDIF = 0x89a2"

definition sys_ioctl :: "net_env \<Rightarrow> nat \<Rightarrow> nat \<Rightarrow> u8 list \<Rightarrow> net \<Rightarrow> (nat + u8 list) \<times> net" where
  "sys_ioctl env fd req ifr s = (k_ioctl env s, log_event (EvIoctl fd req ifr) s)"

definition setup_private_host_hw_addr :: "net_env \<Rightarrow> u8 list \<Rightarrow> cstring \<Rightarrow> net \<Rightarrow> (int \<times> net) option" where
  "setup_private_host_hw_addr env ifr veth1 s =
     (case sys_socket env AF_INET SOCK_DGRAM 0 s of
        (Inl e, s1) \<Rightarrow> Some (- int e, s1)
      | (Inr fd, s1) \<Rightarrow> do {
          ifr \<leftarrow> put_bytes 0 (take (IFNAMSIZ - 1) veth1 @ [0]) ifr;
          let (r, s2) = sys_ioctl env fd SIOCGIFHWADDR ifr s1;
          (case r of
             Inl e \<Rightarrow> Some (- int e, sys_close fd s2)
           | Inr ifr2 \<Rightarrow> do {
               ifr2 \<leftarrow> put_bytes 18 [0xfe] ifr2;
               let (r2, s3) = sys_ioctl env fd SIOCSIFHWADDR ifr2 s2;
               Some (case r2 of Inl e \<Rightarrow> - int e | Inr _ \<Rightarrow> 0, sys_close fd s3)
             })
        })"

definition lxc_bridge_attach ::
    "net_env \<Rightarrow> u8 list \<Rightarrow> cstring \<Rightarrow> cstring \<Rightarrow> net \<Rightarrow> (int \<times> net) option" where
  "lxc_bridge_attach env ifr bridge ifname s =
     (if length ifname \<ge> IFNAMSIZ then Some (- int EINVAL, s)
      else
        let index = k_nametoindex env s ifname in
        if index = 0 then Some (- int EINVAL, s)
        else
          case sys_socket env AF_INET SOCK_STREAM 0 s of
            (Inl e, s1) \<Rightarrow> Some (- int e, s1)
          | (Inr fd, s1) \<Rightarrow> do {
              let name = take (IFNAMSIZ - 1) bridge;
              ifr \<leftarrow> put_bytes 0 (name @ replicate (IFNAMSIZ - 1 - length name) 0) ifr;
              ifr \<leftarrow> put_bytes (IFNAMSIZ - 1) [0] ifr;
              ifr \<leftarrow> put_le 16 4 (unat index) ifr;
              let (r, s2) = sys_ioctl env fd SIOCBRADDIF ifr s1;
              Some (case r of Inl e \<Rightarrow> - int e | Inr _ \<Rightarrow> 0, sys_close fd s2)
            })"

section \<open>Hardware addresses\<close>

text \<open>The character at \<open>p\<close> of a string with its NUL; beyond it there is none.\<close>

definition char_at :: "cstring \<Rightarrow> nat \<Rightarrow> u8 option" where
  "char_at str p = (if p < length str then Some (str ! p) else if p = length str then Some 0 else None)"

text \<open>The value of a hexadecimal digit, in either case.\<close>

definition hex_digit :: "u8 \<Rightarrow> nat option" where
  "hex_digit c =
     (let n = unat c in
      if 48 \<le> n \<and> n \<le> 57 then Some (n - 48)
      else if 97 \<le> n \<and> n \<le> 102 then Some (n - 97 + 10)
      else if 65 \<le> n \<and> n \<le> 70 then Some (n - 65 + 10)
      else None)"

definition ETH_ALEN :: nat where "ETH_ALEN = 6"
definition ARPHRD_ETHER :: nat where "ARPHRD_ETHER = 1"

text \<open>The loop: from the position \<open>p\<close> and the \<open>i\<close>-th byte on; it collects the bytes it stores.\<close>

function mac_loop :: "cstring \<Rightarrow> nat \<Rightarrow> nat \<Rightarrow> (int \<times> u8 list) option" where
  "mac_loop mac p i = do {
     c \<leftarrow> char_at mac p;
     if c \<noteq> 0 \<and> i < ETH_ALEN then
       (case hex_digit c of
          None \<Rightarrow> Some (- int EINVAL, [])
        | Some hi \<Rightarrow> do {
            c2 \<leftarrow> char_at mac (p + 1);
            let val = (case hex_digit c2 of
                Some lo \<Rightarrow> Some (hi * 16 + lo)
              | None \<Rightarrow> if c2 = 58 \<or> c2 = 0 then Some hi else None);
            (case val of
               None \<Rightarrow> Some (- int EINVAL, [])
             | Some v \<Rightarrow> do {
                 let p2 = (if c2 \<noteq> 0 then p + 2 else p + 1);
                 c3 \<leftarrow> char_at mac p2;
                 (r, rest) \<leftarrow> mac_loop mac (if c3 = 58 then p2 + 1 else p2) (i + 1);
                 Some (r, word_of_nat v # rest)
               })
          })
     else Some (0, [])
   }"
  by pat_completeness auto
termination
  by (relation "measure (\<lambda>(mac, p, i). ETH_ALEN - i)") auto

declare mac_loop.simps [simp del]

text \<open>
  \<open>sockaddr\<close> is the 16 bytes of the structure, the family first.  Bytes before an error are stored.
\<close>

definition lxc_convert_mac :: "cstring \<Rightarrow> u8 list \<Rightarrow> (int \<times> u8 list) option" where
  "lxc_convert_mac mac sockaddr = do {
     sa \<leftarrow> put_le 0 2 ARPHRD_ETHER sockaddr;
     (r, data) \<leftarrow> mac_loop mac 0 0;
     sa \<leftarrow> put_bytes 2 data sa;
     Some (r, sa)
   }"

text \<open>\<open>ifname\<close> is the whole object the name is in: the copy reads 16 bytes of it.\<close>

definition setup_hw_addr ::
    "net_env \<Rightarrow> u8 list \<Rightarrow> u8 list \<Rightarrow> cstring \<Rightarrow> u8 list \<Rightarrow> net \<Rightarrow> (int \<times> net) option" where
  "setup_hw_addr env ifr sockaddr hwaddr ifname s = do {
     (ret, sa) \<leftarrow> lxc_convert_mac hwaddr sockaddr;
     if ret \<noteq> 0 then Some (- 1, s)
     else do {
       name \<leftarrow> get_bytes 0 IFNAMSIZ ifname;
       ifr \<leftarrow> put_bytes 0 name ifr;
       ifr \<leftarrow> put_bytes (IFNAMSIZ - 1) [0] ifr;
       ifr \<leftarrow> put_bytes 16 sa ifr;
       (case sys_socket env AF_INET SOCK_DGRAM 0 s of
          (Inl e, s1) \<Rightarrow> Some (- 1, s1)
        | (Inr fd, s1) \<Rightarrow>
            let (r, s2) = sys_ioctl env fd SIOCSIFHWADDR ifr s1 in
            Some (case r of Inl e \<Rightarrow> - 1 | Inr _ \<Rightarrow> 0, sys_close fd s2))
     }
   }"

text \<open>The two digits of \<open>%02x\<close>, and the address made of three results of \<open>rand\<close>.\<close>

definition hex_char :: "nat \<Rightarrow> u8" where
  "hex_char d = (if d < 10 then word_of_nat (48 + d) else word_of_nat (87 + d))"

definition hex02 :: "nat \<Rightarrow> cstring" where
  "hex02 n = [hex_char (n div 16 mod 16), hex_char (n mod 16)]"

definition new_hwaddr :: "nat \<Rightarrow> nat \<Rightarrow> nat \<Rightarrow> cstring" where
  "new_hwaddr r1 r2 r3 =
     take 17 (ascii ''00:16:3e:'' @ hex02 (r1 mod 255) @ [58] @ hex02 (r2 mod 255) @ [58] @ hex02 (r3 mod 255))"

section \<open>Interface names\<close>

definition padchar :: cstring where
  "padchar = ascii ''0123456789ABCDEFGHIJKLMNOPQRSTUVWXYZ''"

text \<open>
  \<open>rnd n\<close> is the \<open>n\<close>-th result of \<open>rand\<close>.  \<open>fill_name\<close> is the \<open>for\<close> loop over the copy of the
  template; it also counts the calls of \<open>rand\<close>.
\<close>

fun fill_name :: "(nat \<Rightarrow> nat) \<Rightarrow> nat \<Rightarrow> cstring \<Rightarrow> cstring \<times> nat" where
  "fill_name rnd n [] = ([], n)"
| "fill_name rnd n (c # cs) =
     (if c = 88 then
        let (rest, n') = fill_name rnd (n + 1) cs
        in (padchar ! (rnd n mod (length padchar - 1)) # rest, n')
      else let (rest, n') = fill_name rnd n cs in (c # rest, n'))"

text \<open>
  The search loop.  \<open>dup n\<close> tells whether \<open>strdup\<close> succeeds after \<open>n\<close> calls of \<open>rand\<close>; the result
  is NULL or the name, and whether the list of interfaces is still allocated.  \<open>None\<close>: it goes on
  forever.
\<close>

partial_function (option) mkifname_loop ::
    "(nat \<Rightarrow> bool) \<Rightarrow> (nat \<Rightarrow> nat) \<Rightarrow> cstring list \<Rightarrow> cstring \<Rightarrow> nat \<Rightarrow> (cstring option \<times> bool) option" where
  "mkifname_loop dup rnd names template n =
     (if \<not> dup n then Some (None, True)
      else
        let (name, n') = fill_name rnd n template in
        if List.member names name then mkifname_loop dup rnd names template n'
        else Some (Some name, False))"

text \<open>\<open>names = None\<close>: \<open>getifaddrs\<close> failed and left the list pointer indeterminate.\<close>

definition lxc_mkifname :: "(nat \<Rightarrow> bool) \<Rightarrow> (nat \<Rightarrow> nat) \<Rightarrow> cstring list option \<Rightarrow> cstring \<Rightarrow>
    (cstring option \<times> bool) option" where
  "lxc_mkifname dup rnd names template = do { ns \<leftarrow> names; mkifname_loop dup rnd ns template 0 }"

end
