(* ===== verification/LxcRequests.thy ===== *)
theory LxcRequests
  imports LxcNetwork
begin

unbundle bit_operations_syntax

text \<open>
  Properties of the requests of \<open>toy_docker/step_network/lxc_network/network.c\<close>.  The frame of the
  route requests keeps descriptors and heap blocks on every path, for any code that builds a message;
  each builder gives exactly one message, written out with the attribute encoding of the netlink
  layer; the two together give what each function sends.
\<close>

section \<open>The frame keeps the books\<close>

definition good_net :: "net_env \<Rightarrow> bool" where
  "good_net env \<longleftrightarrow> errno_ok env \<and> eintr_ends env"

text \<open>
  What a function that opens a descriptor and closes it again leaves: the heap as it was and the
  descriptors as they were.
\<close>

definition same_books :: "net \<Rightarrow> net \<Rightarrow> bool" where
  "same_books s s' \<longleftrightarrow> n_fds s' = n_fds s \<and> n_blocks s' = n_blocks s"

lemma hdr_get: "k \<le> length b \<Longrightarrow> get_le 0 k b \<noteq> None"
  by (simp add: get_le_def get_bytes_def)

lemma recv_loop_books:
  assumes "eintr_ends env"
  shows "\<exists>r k s'. recv_loop env fd n s = Some (r, s') \<and>
    n_trace s' = n_trace s @ replicate k (EvRecv fd n) \<and> n_fds s' = n_fds s \<and> n_blocks s' = n_blocks s"
  using recv_loop_run [OF assms] by blast

lemma netlink_open_blocks: "netlink_open env p s = (r, h, s') \<Longrightarrow> n_blocks s' = n_blocks s"
  by (auto simp: netlink_open_def sys_socket_def Let_def split: option.splits sum.splits if_splits)

lemma netlink_open_zero:
  assumes "netlink_open env p s = (r, h, s')" and "r = 0" and "errno_ok env"
  shows "\<exists>fd. h_fd h = Some fd \<and> n_fds s' = fd # n_fds s"
proof (cases "k_socket env s")
  case (Inl e)
  then show ?thesis using netlink_open_no_socket [OF Inl, of p] assms errno_okD(1) [OF assms(3) Inl] by auto
next
  case (Inr fd)
  then show ?thesis using netlink_open_socket [OF Inr assms(3), of p] assms(1) by auto
qed

lemma nlmsg_alloc_trace:
  assumes "nlmsg_alloc env sz s = (m, s')"
  shows "\<exists>t. n_trace s' = n_trace s @ t \<and> (\<forall>fd bytes. EvSend fd bytes \<notin> set t)"
  using assms
  by (auto simp: nlmsg_alloc_def sys_malloc_def sys_free_def log_event_def Let_def split: if_splits)

lemma nlmsg_alloc_reserve_trace:
  assumes "nlmsg_alloc_reserve env sz s = (m, s')"
  shows "\<exists>t. n_trace s' = n_trace s @ t \<and> (\<forall>fd bytes. EvSend fd bytes \<notin> set t)"
  using assms nlmsg_alloc_trace
  by (fastforce simp: nlmsg_alloc_reserve_def split: prod.splits option.splits)

lemma netlink_rcv_total:
  assumes "hdr_len answer = Some n" and "20 \<le> n" and "n \<le> length (nm_buf answer)" and "h_fd h = Some fd"
    and "eintr_ends env"
  shows "\<exists>r a s' k. netlink_rcv env h answer s = Some (r, a, s') \<and> same_books s s' \<and>
    length (nm_buf a) = length (nm_buf answer) \<and> n_trace s' = n_trace s @ replicate k (EvRecv fd n)"
proof -
  obtain r k s' where r: "recv_loop env fd n s = Some (r, s')"
    "n_trace s' = n_trace s @ replicate k (EvRecv fd n)" "n_fds s' = n_fds s" "n_blocks s' = n_blocks s"
    using recv_loop_books [OF assms(5), of fd n s] by blast
  show ?thesis
  proof (cases r)
    case (Inl e)
    then show ?thesis using r assms(1,3,4) by (auto simp: netlink_rcv_def same_books_def)
  next
    case (Inr d)
    let ?b = "take n d @ drop (min (length d) n) (nm_buf answer)"
    have p: "put_bytes 0 (take n d) (nm_buf answer) = Some ?b"
      using assms(3) by (simp add: put_bytes_def min.commute)
    have len: "length ?b = length (nm_buf answer)" using assms(3) by simp
    then obtain L where "hdr_len (answer\<lparr>nm_buf := ?b\<rparr>) = Some L"
      using hdr_get [of 4 ?b] assms(2,3) by (auto simp: hdr_len_def)
    then show ?thesis using Inr r assms(1,3,4) p len
      by (auto simp: netlink_rcv_def same_books_def Let_def)
  qed
qed

lemma netlink_transaction_total:
  assumes "msg_repr m ty fl body" and "h_fd h = Some fd" and "hdr_len answer = Some n" and "20 \<le> n"
    and "n \<le> length (nm_buf answer)" and "eintr_ends env"
  shows "\<exists>r a s' rest. netlink_transaction env h m answer s = Some (r, a, s') \<and> same_books s s' \<and>
    n_trace s' = n_trace s @ EvSend fd (nl_header (16 + length body) ty fl @ body) # rest \<and>
    (\<forall>fd bytes. EvSend fd bytes \<notin> set rest)"
proof -
  let ?s1 = "log_event (EvSend fd (nl_header (16 + length body) ty fl @ body)) s"
  obtain r a s' k where r: "netlink_rcv env h answer ?s1 = Some (r, a, s')" "same_books ?s1 s'"
    "length (nm_buf a) = length (nm_buf answer)" "n_trace s' = n_trace ?s1 @ replicate k (EvRecv fd n)"
    using netlink_rcv_total [OF assms(3-5,2,6), of ?s1] by blast
  have "20 \<le> length (nm_buf a)" using r(3) assms(4,5) by simp
  then obtain t e where "hdr_type a = Some t" "get_le 16 4 (nm_buf a) = Some e"
    by (auto simp: hdr_type_def get_le_def get_bytes_def)
  then show ?thesis
    using r netlink_send_repr [OF assms(1,2), of env s]
    by (auto simp: netlink_transaction_def NLMSG_HDRLEN_def same_books_def)
qed

lemma request_out_books:
  assumes "h_fd nlh = Some fd" and "n_fds s = fd # fds"
    and "n_blocks s = k + (if m = None then 0 else 2) + (if a = None then 0 else 2)"
  shows "n_fds (request_out nlh m a s) = fds" and "n_blocks (request_out nlh m a s) = k"
    and "n_trace (request_out nlh m a s) = n_trace s @ [EvClose fd]"
  using assms
  by (auto simp: request_out_def netlink_close_def sys_close_def nlmsg_free_def sys_free_def log_event_def
      split: option.splits)

lemma good_size [simp]: "align4 NLMSG_GOOD_SIZE = 8192" "NLMSG_GOOD_SIZE + 3 < 2 ^ 30" "NLMSG_GOOD_SIZE < 1073741821"
  by (simp_all add: NLMSG_GOOD_SIZE_def PAGE_SIZE_def align4_def)

text \<open>Allocation of a message fails only when \<open>malloc\<close> does.\<close>

lemma nlmsg_alloc_None:
  assumes "nlmsg_alloc env sz s = (None, s')" and "sz + 3 < 2 ^ 30"
  shows "\<exists>s n. \<not> k_malloc env s n"
proof (rule ccontr)
  assume "\<not> ?thesis"
  then have k: "k_malloc env s n" for s n by blast
  have "(NLMSG_HDRLEN + align4 sz) mod size_modulus = 16 + align4 sz"
    using align4_bounds [of sz] assms(2) by (simp add: NLMSG_HDRLEN_def size_modulus_def)
  then show False using assms(1)
    by (simp add: nlmsg_alloc_def sys_malloc_def k Let_def set_hdr_len_def put_field_def put_le_def put_bytes_def)
qed

lemma nlmsg_alloc_reserve_None:
  assumes "nlmsg_alloc_reserve env NLMSG_GOOD_SIZE s = (None, s')"
  shows "\<exists>s n. \<not> k_malloc env s n"
proof (cases "nlmsg_alloc env NLMSG_GOOD_SIZE s")
  case (Pair m s1)
  show ?thesis
  proof (cases m)
    case None
    then show ?thesis using Pair nlmsg_alloc_None [of env NLMSG_GOOD_SIZE s s1] by simp
  next
    case (Some m1)
    then have "msg_repr m1 0 0 []" using Pair nlmsg_alloc_spec [OF good_size(2), of env s] by auto
    then have "4 \<le> length (nm_buf m1)" by (simp add: msg_repr_def)
    then show ?thesis using assms Pair Some
      by (simp add: nlmsg_alloc_reserve_def set_hdr_len_def put_field_def put_le_def put_bytes_def)
  qed
qed

text \<open>
  What a message builder must do: from a fresh message it makes no bad access, and either gives up
  with an error, where it may fail, or gives a message whose bytes are good.
\<close>

definition builds :: "(nlmsg \<Rightarrow> (int + nlmsg) option) \<Rightarrow> bool \<Rightarrow> (u8 list \<Rightarrow> bool) \<Rightarrow> bool" where
  "builds build fails good \<longleftrightarrow> (\<forall>m. msg_repr m 0 0 [] \<and> nm_cap m = 8208 \<longrightarrow>
     (fails \<and> (\<exists>e. build m = Some (Inl e))) \<or>
     (\<exists>m' ty fl body. build m = Some (Inr m') \<and> msg_repr m' ty fl body \<and>
        good (nl_header (16 + length body) ty fl @ body)))"

text \<open>
  The frame with such a builder: no undefined behaviour; if the socket is opened, every path
  closes it and frees both messages; only what was built is sent, and it is sent unless the check,
  an allocation or the builder failed.
\<close>

text \<open>The part of a request after a socket is open: the two buffers are there, or one is missing.\<close>

lemma route_request_built:
  assumes env: "good_net env" and o: "netlink_open env NETLINK_ROUTE s = (0, h, s1)" and fd: "h_fd h = Some fd"
    and a: "nlmsg_alloc env NLMSG_GOOD_SIZE s1 = (Some m, s2)" "nlmsg_alloc_reserve env NLMSG_GOOD_SIZE s2 = (Some answer, s3)"
    and build: "builds (build s3) fails good"
  shows "\<exists>err m' a' s4 tl. route_request env None build s = Some (err, request_out h (Some m') (Some a') s4) \<and>
    same_books s3 s4 \<and> n_trace s4 = n_trace s3 @ tl \<and> (\<forall>fd bytes. EvSend fd bytes \<in> set tl \<longrightarrow> good bytes) \<and>
    (\<not> fails \<longrightarrow> (\<exists>fd bytes. EvSend fd bytes \<in> set tl))"
proof -
  have m: "msg_repr m 0 0 []" "nm_cap m = 8208"
    using nlmsg_alloc_spec [OF good_size(2), of env s1] a(1) by auto
  have ans: "msg_repr answer 0 0 (replicate 8192 0)"
    using nlmsg_alloc_reserve_spec [OF good_size(2), of env s2] a(2) by auto
  have eq: "route_request env None build s = do {
      r \<leftarrow> build s3 m;
      case r of
        Inl e \<Rightarrow> Some (e, request_out h (Some m) (Some answer) s3)
      | Inr m' \<Rightarrow> do {
          (err', answer', s4) \<leftarrow> netlink_transaction env h m' answer s3;
          Some (err', request_out h (Some m') (Some answer') s4)
        } }"
    using o a by (simp add: route_request_def)
  from build m consider (err) e where "build s3 m = Some (Inl e)" fails
    | (msg) m' ty fl body where "build s3 m = Some (Inr m')" "msg_repr m' ty fl body"
        "good (nl_header (16 + length body) ty fl @ body)"
    unfolding builds_def by blast
  then show ?thesis
  proof cases
    case err
    show ?thesis
      by (intro exI [of _ e] exI [of _ m] exI [of _ answer] exI [of _ s3] exI [of _ "[]"])
        (use eq err in \<open>simp add: same_books_def\<close>)
  next
    case msg
    have "eintr_ends env" using env by (simp add: good_net_def)
    moreover have "hdr_len answer = Some 8208" "length (nm_buf answer) = nm_cap answer" "8208 \<le> nm_cap answer"
      using hdr_len_repr [OF ans] msg_repr_len [OF ans] ans by (simp_all add: msg_repr_def)
    ultimately obtain r' a' s4 rest where t: "netlink_transaction env h m' answer s3 = Some (r', a', s4)"
      "same_books s3 s4"
      "n_trace s4 = n_trace s3 @ EvSend fd (nl_header (16 + length body) ty fl @ body) # rest"
      "\<forall>fd bytes. EvSend fd bytes \<notin> set rest"
      using netlink_transaction_total [OF msg(2) fd, of answer 8208 env s3] by auto
    show ?thesis
      by (intro exI [of _ r'] exI [of _ m'] exI [of _ a'] exI [of _ s4]
          exI [of _ "EvSend fd (nl_header (16 + length body) ty fl @ body) # rest"])
        (use eq msg t in auto)
  qed
qed

lemma route_request_opened:
  assumes env: "good_net env" and o: "netlink_open env NETLINK_ROUTE s = (0, h, s1)" and fd: "h_fd h = Some fd"
    and build: "\<forall>s. check = None \<longrightarrow> builds (build s) fails good"
  shows "\<exists>err m a s2 tl. route_request env check build s = Some (err, request_out h m a s2) \<and>
    n_fds s2 = n_fds s1 \<and> n_trace s2 = n_trace s1 @ tl \<and>
    n_blocks s2 = n_blocks s1 + (if m = None then 0 else 2) + (if a = None then 0 else 2) \<and>
    (\<forall>fd bytes. EvSend fd bytes \<in> set tl \<longrightarrow> check = None \<and> good bytes) \<and>
    ((\<forall>s n. k_malloc env s n) \<and> check = None \<and> \<not> fails \<longrightarrow> (\<exists>fd bytes. EvSend fd bytes \<in> set tl))"
proof (cases check)
  case (Some e)
  then show ?thesis using o
    by (intro exI [of _ e] exI [of _ None] exI [of _ s1] exI [of _ "[]"]) (simp add: route_request_def)
next
  case check: None
  obtain ma s2 where a: "nlmsg_alloc env NLMSG_GOOD_SIZE s1 = (ma, s2)" by (metis prod.exhaust)
  obtain t2 where t2: "n_trace s2 = n_trace s1 @ t2" "\<forall>fd bytes. EvSend fd bytes \<notin> set t2"
    using nlmsg_alloc_trace [OF a] by blast
  show ?thesis
  proof (cases ma)
    case None
    then show ?thesis using o a t2 check nlmsg_alloc_None [of env NLMSG_GOOD_SIZE s1 s2]
        nlmsg_alloc_spec [OF good_size(2), of env s1]
      by (intro exI [of _ "- int ENOMEM"] exI [of _ None] exI [of _ s2] exI [of _ t2]) (auto simp: route_request_def)
  next
    case (Some m)
    have m: "n_blocks s2 = n_blocks s1 + 2" "n_fds s2 = n_fds s1"
      using nlmsg_alloc_spec [OF good_size(2), of env s1] a Some by auto
    obtain aa s3 where aa: "nlmsg_alloc_reserve env NLMSG_GOOD_SIZE s2 = (aa, s3)" by (metis prod.exhaust)
    obtain t3 where t3: "n_trace s3 = n_trace s2 @ t3" "\<forall>fd bytes. EvSend fd bytes \<notin> set t3"
      using nlmsg_alloc_reserve_trace [OF aa] by blast
    show ?thesis
    proof (cases aa)
      case None
      then show ?thesis using o a aa t2 t3 Some check m nlmsg_alloc_reserve_None [of env s2 s3]
          nlmsg_alloc_reserve_spec [OF good_size(2), of env s2]
        by (intro exI [of _ "- int ENOMEM"] exI [of _ "Some m"] exI [of _ None] exI [of _ s3] exI [of _ "t2 @ t3"])
          (auto simp: route_request_def)
    next
      case answer: (Some answer)
      have "n_blocks s3 = n_blocks s1 + 4" "n_fds s3 = n_fds s1"
        using nlmsg_alloc_reserve_spec [OF good_size(2), of env s2] aa answer m by auto
      moreover obtain err m' a' s4 tl where "route_request env None build s = Some (err, request_out h (Some m') (Some a') s4)"
        "same_books s3 s4" "n_trace s4 = n_trace s3 @ tl" "\<forall>fd bytes. EvSend fd bytes \<in> set tl \<longrightarrow> good bytes"
        "\<not> fails \<longrightarrow> (\<exists>fd bytes. EvSend fd bytes \<in> set tl)"
        using route_request_built [where build = build, OF env o fd a [unfolded Some] aa [unfolded answer] build [rule_format, OF check]]
        by (elim exE conjE) (rule that)
      ultimately show ?thesis using t2 t3 check
        by (intro exI [of _ err] exI [of _ "Some m'"] exI [of _ "Some a'"] exI [of _ s4] exI [of _ "t2 @ t3 @ tl"])
          (auto simp: same_books_def)
    qed
  qed
qed

lemma route_request_frame:
  assumes env: "good_net env" and build: "\<And>s. check = None \<Longrightarrow> builds (build s) fails good"
  shows "\<exists>err s'. route_request env check build s = Some (err, s') \<and> n_blocks s' = n_blocks s \<and>
    (\<forall>r h s1. netlink_open env NETLINK_ROUTE s = (r, h, s1) \<longrightarrow>
      (if r \<noteq> 0 then err = r \<and> s' = s1
       else n_fds s' = n_fds s \<and>
         (\<exists>tail. n_trace s' = n_trace s1 @ tail \<and>
            (\<forall>fd bytes. EvSend fd bytes \<in> set tail \<longrightarrow> check = None \<and> good bytes) \<and>
            ((\<forall>s n. k_malloc env s n) \<and> check = None \<and> \<not> fails \<longrightarrow>
              (\<exists>fd bytes. EvSend fd bytes \<in> set tail)))))"
proof -
  have eo: "errno_ok env" using env by (simp add: good_net_def)
  obtain r h s1 where o: "netlink_open env NETLINK_ROUTE s = (r, h, s1)" by (metis prod_cases3)
  have b1: "n_blocks s1 = n_blocks s" using netlink_open_blocks [OF o] .
  show ?thesis
  proof (cases "r = 0")
    case False
    then show ?thesis using o b1 by (simp add: route_request_def)
  next
    case True
    obtain fd where fd: "h_fd h = Some fd" "n_fds s1 = fd # n_fds s"
      using netlink_open_zero [OF o True eo] by blast
    have built: "\<forall>s. check = None \<longrightarrow> builds (build s) fails good" using build by blast
    obtain err m a s2 tl where run: "route_request env check build s = Some (err, request_out h m a s2)"
      "n_fds s2 = n_fds s1" "n_trace s2 = n_trace s1 @ tl"
      "n_blocks s2 = n_blocks s + (if m = None then 0 else 2) + (if a = None then 0 else 2)"
      "\<forall>fd bytes. EvSend fd bytes \<in> set tl \<longrightarrow> check = None \<and> good bytes"
      "(\<forall>s n. k_malloc env s n) \<and> check = None \<and> \<not> fails \<longrightarrow> (\<exists>fd bytes. EvSend fd bytes \<in> set tl)"
      using route_request_opened [where build = build and check = check, OF env o [unfolded True] fd(1) built] unfolding b1
      by (elim exE conjE) (rule that)
    have fds: "n_fds s2 = fd # n_fds s" using run(2) fd(2) by simp
    have "\<exists>tail. n_trace (request_out h m a s2) = n_trace s1 @ tail \<and>
        (\<forall>fd bytes. EvSend fd bytes \<in> set tail \<longrightarrow> check = None \<and> good bytes) \<and>
        ((\<forall>s n. k_malloc env s n) \<and> check = None \<and> \<not> fails \<longrightarrow> (\<exists>fd bytes. EvSend fd bytes \<in> set tail))"
      by (rule exI [of _ "tl @ [EvClose fd]"])
        (use run(3,5,6) in \<open>auto simp: request_out_books(3) [OF fd(1) fds run(4)]\<close>)
    then show ?thesis using o True run(1) request_out_books(1,2) [OF fd(1) fds run(4)] by simp
  qed
qed

section \<open>The messages built\<close>

text \<open>The structures at the start of the payload, as bytes.\<close>

definition ifinfomsg :: "nat \<Rightarrow> nat \<Rightarrow> nat \<Rightarrow> u8 list" where
  "ifinfomsg index flags change =
     replicate 4 0 @ le_bytes 4 index @ le_bytes 4 flags @ le_bytes 4 change"

definition ifaddrmsg :: "nat \<Rightarrow> nat \<Rightarrow> nat \<Rightarrow> u8 list" where
  "ifaddrmsg family prefix index =
     le_bytes 1 family @ le_bytes 1 prefix @ replicate 2 0 @ le_bytes 4 index"

definition rtmsg :: "nat \<Rightarrow> nat \<Rightarrow> nat \<Rightarrow> u8 list" where
  "rtmsg family dst_len scope =
     le_bytes 1 family @ le_bytes 1 dst_len @ replicate 2 0 @ le_bytes 1 RT_TABLE_MAIN @
     le_bytes 1 RTPROT_BOOT @ le_bytes 1 scope @ le_bytes 1 RTN_UNICAST @ replicate 4 0"

lemma put_field_at:
  assumes "msg_repr m ty fl (p @ y @ q)" and "off = 16 + length p" and "k = length y"
  shows "\<exists>m'. put_field off k v m = Some m' \<and> msg_repr m' ty fl (p @ le_bytes k v @ q) \<and> nm_cap m' = nm_cap m"
  using put_field_body [OF assms(1), of "length p" k v] assms(2,3) by simp

lemma get_field_at:
  assumes "msg_repr m ty fl (p @ y @ q)" and "off = 16 + length p" and "k = length y"
  shows "get_le off k (nm_buf m) = Some (le_nat y)"
proof -
  have buf: "nm_buf m = (nl_header (16 + length (p @ y @ q)) ty fl @ p) @ y @
      (q @ replicate (nm_cap m - 16 - length (p @ y @ q)) 0)"
    using assms(1) by (simp add: msg_repr_def)
  have "get_bytes off k (nm_buf m) = Some y"
    unfolding buf by (rule get_bytes_append) (use assms(2,3) in simp_all)
  then show ?thesis by (simp add: get_le_def)
qed

lemma request_start:
  assumes "msg_repr m 0 0 []" and "nm_cap m = 8208" and "n mod 4 = 0" and "n \<le> 4096"
  shows "\<exists>m1 m2 m3. set_hdr_flags f m = Some m1 \<and> set_hdr_type t m1 = Some m2 \<and>
    nlmsg_reserve n m2 = Some (Some 16, m3) \<and> msg_repr m3 t f (replicate n 0) \<and> nm_cap m3 = 8208"
proof -
  obtain m1 where m1: "set_hdr_flags f m = Some m1" "msg_repr m1 0 f []" "nm_cap m1 = 8208"
    using set_hdr_flags_repr [OF assms(1), of f] assms(2) by auto
  obtain m2 where m2: "set_hdr_type t m1 = Some m2" "msg_repr m2 t f []" "nm_cap m2 = 8208"
    using set_hdr_type_repr [OF m1(2), of t] m1(3) by auto
  have "align4 n = n" using assms(3,4) by (intro align4_fix) simp_all
  then show ?thesis using nlmsg_reserve_fits [OF m2(2), of n] m1(1) m2(1,3) assms(4) by auto
qed

lemma zeros_split: "replicate (a + b) (0::u8) = replicate a 0 @ replicate b 0"
  by (rule replicate_add)

lemma le_bytes_1_0: "le_bytes 1 0 = [0]"
  by simp

text \<open>The family and index of an \<open>ifinfomsg\<close>.\<close>

lemma family_same:
  assumes "msg_repr m ty fl (replicate 16 0)"
  shows "\<exists>m1. put_field 16 1 AF_UNSPEC m = Some m1 \<and> msg_repr m1 ty fl (replicate 16 0) \<and> nm_cap m1 = nm_cap m"
proof -
  have z: "replicate 16 (0::u8) = [] @ replicate 1 0 @ replicate 15 0"
    by (simp add: zeros_split [symmetric] del: replicate.simps)
  have r: "msg_repr m ty fl ([] @ replicate 1 0 @ replicate 15 0)" using assms by (simp only: z)
  have "\<exists>m1. put_field 16 1 AF_UNSPEC m = Some m1 \<and>
      msg_repr m1 ty fl ([] @ le_bytes 1 AF_UNSPEC @ replicate 15 0) \<and> nm_cap m1 = nm_cap m"
    by (rule put_field_at [OF r]) simp_all
  then show ?thesis by (simp only: AF_UNSPEC_def le_bytes_zero z)
qed

lemma ifinfo_start:
  assumes "msg_repr m ty fl (replicate 16 0)"
  shows "\<exists>m1 m2. put_field 16 1 AF_UNSPEC m = Some m1 \<and> put_field 20 4 idx m1 = Some m2 \<and>
    msg_repr m2 ty fl (ifinfomsg idx 0 0) \<and> nm_cap m2 = nm_cap m"
proof -
  have z: "replicate 16 (0::u8) = replicate 4 0 @ replicate 4 0 @ replicate 8 0"
    by (simp add: zeros_split [symmetric] del: replicate.simps)
  obtain m1 where m1: "put_field 16 1 AF_UNSPEC m = Some m1" "msg_repr m1 ty fl (replicate 16 0)"
    "nm_cap m1 = nm_cap m"
    using family_same [OF assms] by blast
  have "msg_repr m1 ty fl (replicate 4 0 @ replicate 4 0 @ replicate 8 0)"
    using m1(2) by (simp only: z)
  then obtain m2 where "put_field 20 4 idx m1 = Some m2"
    "msg_repr m2 ty fl (replicate 4 0 @ le_bytes 4 idx @ replicate 8 0)" "nm_cap m2 = nm_cap m"
    using put_field_at [of m1 ty fl "replicate 4 0" "replicate 4 0" "replicate 8 0" 20 4 idx] m1(3) by auto
  moreover have "replicate 4 0 @ le_bytes 4 idx @ replicate 8 0 = ifinfomsg idx 0 0"
    by (simp add: ifinfomsg_def le_bytes_zero zeros_split [symmetric])
  ultimately show ?thesis using m1(1) by auto
qed

lemma set_flag_builds:
  "builds (\<lambda>m. if index = 0 then Some (Inl (- int EINVAL))
          else do {
            m \<leftarrow> set_hdr_flags (NLM_F_REQUEST OR NLM_F_ACK) m;
            m \<leftarrow> set_hdr_type RTM_NEWLINK m;
            (r, m) \<leftarrow> nlmsg_reserve sizeof_ifinfomsg m;
            ifi \<leftarrow> r;
            m \<leftarrow> put_field ifi 1 AF_UNSPEC m;
            m \<leftarrow> put_field (ifi + 4) 4 (unat index) m;
            change \<leftarrow> get_le (ifi + 12) 4 (nm_buf m);
            m \<leftarrow> put_field (ifi + 12) 4 (change OR unat IFF_UP) m;
            flags \<leftarrow> get_le (ifi + 8) 4 (nm_buf m);
            m \<leftarrow> put_field (ifi + 8) 4 (flags OR unat flag) m;
            Some (Inr m)
          }) (index = 0)
     (\<lambda>bytes. bytes = nl_header 32 RTM_NEWLINK (NLM_F_REQUEST OR NLM_F_ACK) @
        ifinfomsg (unat (index :: u32)) (unat (flag :: u32)) 1)"
  (is "builds ?build _ ?good")
  unfolding builds_def
proof (intro allI impI)
  fix m assume m: "msg_repr m 0 0 [] \<and> nm_cap m = 8208"
  let ?fl = "NLM_F_REQUEST OR NLM_F_ACK" and ?i = "unat index"
  show "(index = 0 \<and> (\<exists>e. ?build m = Some (Inl e))) \<or> (\<exists>m' ty fl body. ?build m = Some (Inr m') \<and>
      msg_repr m' ty fl body \<and> ?good (nl_header (16 + length body) ty fl @ body))"
  proof (cases "index = 0")
    case False
    obtain m1 m2 m3 where a: "set_hdr_flags ?fl m = Some m1" "set_hdr_type RTM_NEWLINK m1 = Some m2"
      "nlmsg_reserve 16 m2 = Some (Some 16, m3)" "msg_repr m3 RTM_NEWLINK ?fl (replicate 16 0)"
      using request_start [of m 16 ?fl RTM_NEWLINK] m by auto
    obtain m4 m5 where b: "put_field 16 1 AF_UNSPEC m3 = Some m4" "put_field 20 4 ?i m4 = Some m5"
      "msg_repr m5 RTM_NEWLINK ?fl (ifinfomsg ?i 0 0)"
      using ifinfo_start [OF a(4), of ?i] by blast
    have r5: "msg_repr m5 RTM_NEWLINK ?fl ((replicate 4 0 @ le_bytes 4 ?i @ le_bytes 4 0) @ le_bytes 4 0 @ [])"
      using b(3) by (simp add: ifinfomsg_def)
    have g5: "get_le 28 4 (nm_buf m5) = Some 0" using get_field_at [OF r5, of 28 4] by simp
    obtain m6 where c: "put_field 28 4 1 m5 = Some m6"
      "msg_repr m6 RTM_NEWLINK ?fl ((replicate 4 0 @ le_bytes 4 ?i @ le_bytes 4 0) @ le_bytes 4 1 @ [])"
      using put_field_at [OF r5, of 28 4 1] by auto
    have r6: "msg_repr m6 RTM_NEWLINK ?fl ((replicate 4 0 @ le_bytes 4 ?i) @ le_bytes 4 0 @ le_bytes 4 1)"
      using c(2) by simp
    have g6: "get_le 24 4 (nm_buf m6) = Some 0" using get_field_at [OF r6, of 24 4] by simp
    obtain m7 where d: "put_field 24 4 (unat flag) m6 = Some m7"
      "msg_repr m7 RTM_NEWLINK ?fl ((replicate 4 0 @ le_bytes 4 ?i) @ le_bytes 4 (unat flag) @ le_bytes 4 1)"
      using put_field_at [OF r6, of 24 4 "unat flag"] by auto
    have "?build m = Some (Inr m7)"
      using False a(1-3) b(1,2) g5 c(1) g6 d(1) by (simp add: sizeof_ifinfomsg_def IFF_UP_def)
    moreover have "msg_repr m7 RTM_NEWLINK ?fl (ifinfomsg ?i (unat flag) 1)"
      using d(2) by (simp add: ifinfomsg_def)
    moreover have "length (ifinfomsg ?i (unat flag) 1) = 16" by (simp add: ifinfomsg_def)
    ultimately show ?thesis by auto
  qed simp
qed

lemma or_simps [simp]:
  "or_einval (Some (0, m)) k = k m" "or_null (Some (Some a, m)) k' = k' a m"
  "r \<noteq> 0 \<Longrightarrow> or_einval (Some (r, m)) k = Some (Inl (- int EINVAL))"
  by (simp_all add: or_einval_def or_null_def)

lemma encode_attr_mod4: "length d < 2 ^ 31 \<Longrightarrow> length (encode_attr ty d) mod 4 = 0"
proof -
  assume "length d < 2 ^ 31"
  then have "length (encode_attr ty d) = 4 + align4 (length d)" by (simp add: length_encode_attr)
  then show ?thesis using align4_mod [of "length d"] by presburger
qed

lemma encode_attr_short: "length d < 2 ^ 31 \<Longrightarrow> length (encode_attr ty d) \<le> length d + 7"
  using align4_bounds [of "length d"] by (simp add: length_encode_attr)

text \<open>Putting into a message with room.\<close>

lemma put_room:
  assumes "msg_repr m ty fl body" and "nm_cap m = 8208" and "length data < 4000" and "length body < 4000"
  shows "\<exists>m'. nla_put attr data m = Some (0, m') \<and> msg_repr m' ty fl (body @ encode_attr attr data) \<and>
    nm_cap m' = 8208"
  using nla_put_fits [OF assms(1), of data attr] align4_bounds [of "length data"] assms(2-4) by auto

lemma nest_room:
  assumes "msg_repr m ty fl body" and "nm_cap m = 8208" and "length body < 4000"
  shows "\<exists>m'. nla_begin_nested attr m = Some (Some (16 + length body), m') \<and>
    msg_repr m' ty fl (body @ encode_attr attr []) \<and> nm_cap m' = 8208"
  using nla_begin_nested_repr [OF assms(1), of attr] assms(2,3) by auto

lemma delete_builds:
  "builds (\<lambda>m. do {
          m \<leftarrow> set_hdr_flags (NLM_F_ACK OR NLM_F_REQUEST) m;
          m \<leftarrow> set_hdr_type RTM_DELLINK m;
          (r, m) \<leftarrow> nlmsg_reserve sizeof_ifinfomsg m;
          ifi \<leftarrow> r;
          m \<leftarrow> put_field ifi 1 AF_UNSPEC m;
          m \<leftarrow> put_field (ifi + 4) 4 (unat ifindex) m;
          Some (Inr m)
        }) False
     (\<lambda>bytes. bytes = nl_header 32 RTM_DELLINK (NLM_F_ACK OR NLM_F_REQUEST) @
        ifinfomsg (unat (ifindex :: u32)) 0 0)"
  (is "builds ?build _ ?good")
  unfolding builds_def
proof (intro allI impI)
  fix m assume m: "msg_repr m 0 0 [] \<and> nm_cap m = 8208"
  let ?fl = "NLM_F_ACK OR NLM_F_REQUEST"
  obtain m1 m2 m3 where a: "set_hdr_flags ?fl m = Some m1" "set_hdr_type RTM_DELLINK m1 = Some m2"
    "nlmsg_reserve 16 m2 = Some (Some 16, m3)" "msg_repr m3 RTM_DELLINK ?fl (replicate 16 0)"
    using request_start [of m 16 ?fl RTM_DELLINK] m by auto
  obtain m4 m5 where b: "put_field 16 1 AF_UNSPEC m3 = Some m4" "put_field 20 4 (unat ifindex) m4 = Some m5"
    "msg_repr m5 RTM_DELLINK ?fl (ifinfomsg (unat ifindex) 0 0)"
    using ifinfo_start [OF a(4), of "unat ifindex"] by blast
  have "?build m = Some (Inr m5)" using a(1-3) b(1,2) by (simp add: sizeof_ifinfomsg_def)
  moreover have "length (ifinfomsg (unat ifindex) 0 0) = 16" by (simp add: ifinfomsg_def)
  ultimately show "(False \<and> (\<exists>e. ?build m = Some (Inl e))) \<or> (\<exists>m' ty fl body. ?build m = Some (Inr m') \<and>
      msg_repr m' ty fl body \<and> ?good (nl_header (16 + length body) ty fl @ body))"
    using b(3) by auto
qed

text \<open>The payload of a request for a pair of virtual interfaces.\<close>

definition veth_body :: "cstring \<Rightarrow> cstring \<Rightarrow> u8 list" where
  "veth_body name1 name2 =
     ifinfomsg 0 0 0 @ encode_attrs
       [(IFLA_LINKINFO, encode_attrs
           [(IFLA_INFO_KIND, ascii ''veth'' @ [0]),
            (IFLA_INFO_DATA, encode_attrs
               [(VETH_INFO_PEER, ifinfomsg 0 0 0 @ encode_attrs [(IFLA_IFNAME, name2 @ [0])])])]),
        (IFLA_IFNAME, name1 @ [0])]"

definition veth_flags :: nat where
  "veth_flags = NLM_F_REQUEST OR NLM_F_CREATE OR NLM_F_EXCL OR NLM_F_ACK"

lemma ifinfomsg_zero: "ifinfomsg 0 0 0 = replicate 16 0"
  by (simp add: ifinfomsg_def le_bytes_zero zeros_split [symmetric])

text \<open>The nested attributes of the other end: \<open>IFLA_INFO_DATA\<close> around \<open>VETH_INFO_PEER\<close>.\<close>

lemma veth_peer_nested:
  assumes m: "msg_repr m RTM_NEWLINK veth_flags B" "nm_cap m = 8208" and B: "length B \<le> 32" "length B mod 4 = 0"
    and name: "length name2 < 16" and rta: "rta2 = 16 + length B" "rta3 = 20 + length B"
  shows "\<exists>m1 m2 p m3 m4 m5 m6. nla_begin_nested IFLA_INFO_DATA m = Some (Some rta2, m1) \<and>
    nla_begin_nested VETH_INFO_PEER m1 = Some (Some rta3, m2) \<and> nlmsg_reserve 16 m2 = Some (Some p, m3) \<and>
    nla_put_string IFLA_IFNAME name2 m3 = Some (0, m4) \<and> nla_end_nested rta3 m4 = Some m5 \<and>
    nla_end_nested rta2 m5 = Some m6 \<and> nm_cap m6 = 8208 \<and>
    msg_repr m6 RTM_NEWLINK veth_flags (B @ encode_attr IFLA_INFO_DATA
      (encode_attr VETH_INFO_PEER (replicate 16 0 @ encode_attr IFLA_IFNAME (name2 @ [0]))))"
proof -
  let ?r = "\<lambda>m body. msg_repr m RTM_NEWLINK veth_flags body \<and> nm_cap m = 8208"
  let ?Z = "replicate 16 (0::u8)"
  let ?E = "\<lambda>ty. encode_attr ty []"
  define N2 where "N2 = encode_attr IFLA_IFNAME (name2 @ [0])"
  define P where "P = encode_attr VETH_INFO_PEER (?Z @ N2)"
  have N2: "length N2 \<le> 23" "length N2 mod 4 = 0" and E: "length (?E ty) = 4" for ty
    using encode_attr_short [of "name2 @ [0]" IFLA_IFNAME] name
    by (simp_all add: N2_def length_encode_attr encode_attr_mod4)
  have P: "length P \<le> 46" "length P mod 4 = 0"
    using encode_attr_short [of "?Z @ N2" VETH_INFO_PEER] encode_attr_mod4 [of "?Z @ N2" VETH_INFO_PEER] N2
    by (simp_all add: P_def)
  obtain m1 where 1: "nla_begin_nested IFLA_INFO_DATA m = Some (Some rta2, m1)" "?r m1 (B @ ?E IFLA_INFO_DATA)"
    using nest_room [of m RTM_NEWLINK veth_flags B IFLA_INFO_DATA] m B by (fastforce simp: rta)
  obtain m2 where 2: "nla_begin_nested VETH_INFO_PEER m1 = Some (Some rta3, m2)"
    "?r m2 (B @ ?E IFLA_INFO_DATA @ ?E VETH_INFO_PEER)"
    using nest_room [of m1 RTM_NEWLINK veth_flags "B @ ?E IFLA_INFO_DATA" VETH_INFO_PEER] 1(2) B E
    by (fastforce simp: rta)
  obtain p m3 where 3: "nlmsg_reserve 16 m2 = Some (Some p, m3)"
    "?r m3 (B @ ?E IFLA_INFO_DATA @ ?E VETH_INFO_PEER @ ?Z)"
    using nlmsg_reserve_fits [of m2 RTM_NEWLINK veth_flags _ 16] 2(2) B E by fastforce
  obtain m4 where 4: "nla_put_string IFLA_IFNAME name2 m3 = Some (0, m4)"
    "?r m4 (B @ ?E IFLA_INFO_DATA @ ?E VETH_INFO_PEER @ ?Z @ N2)"
    using put_room [of m3 _ _ _ "name2 @ [0]" IFLA_IFNAME] 3(2) B E name
    by (fastforce simp: nla_put_string_def N2_def)
  obtain m5 where 5: "nla_end_nested rta3 m4 = Some m5" "?r m5 (B @ ?E IFLA_INFO_DATA @ P)"
    using nla_end_nested_repr [of m4 RTM_NEWLINK veth_flags "B @ ?E IFLA_INFO_DATA" VETH_INFO_PEER "?Z @ N2"]
      4(2) N2 B E by (fastforce simp: rta P_def)
  obtain m6 where 6: "nla_end_nested rta2 m5 = Some m6" "?r m6 (B @ encode_attr IFLA_INFO_DATA P)"
    using nla_end_nested_repr [of m5 RTM_NEWLINK veth_flags B IFLA_INFO_DATA P] 5(2) P B by (fastforce simp: rta)
  show ?thesis using 1(1) 2(1) 3(1) 4(1) 5(1) 6 unfolding P_def N2_def by blast
qed

lemma veth_builds:
  assumes "\<not> bad_name name1" and "\<not> bad_name name2"
  shows "builds (\<lambda>m. do {
          m \<leftarrow> set_hdr_flags (NLM_F_REQUEST OR NLM_F_CREATE OR NLM_F_EXCL OR NLM_F_ACK) m;
          m \<leftarrow> set_hdr_type RTM_NEWLINK m;
          (r, m) \<leftarrow> nlmsg_reserve sizeof_ifinfomsg m;
          ifi \<leftarrow> r;
          m \<leftarrow> put_field ifi 1 AF_UNSPEC m;
          or_null (nla_begin_nested IFLA_LINKINFO m) (\<lambda>nest1 m.
          or_einval (nla_put_string IFLA_INFO_KIND (ascii ''veth'') m) (\<lambda>m.
          or_null (nla_begin_nested IFLA_INFO_DATA m) (\<lambda>nest2 m.
          or_null (nla_begin_nested VETH_INFO_PEER m) (\<lambda>nest3 m.
          or_null (nlmsg_reserve sizeof_ifinfomsg m) (\<lambda>ifi m.
          or_einval (nla_put_string IFLA_IFNAME name2 m) (\<lambda>m. do {
            m \<leftarrow> nla_end_nested nest3 m;
            m \<leftarrow> nla_end_nested nest2 m;
            m \<leftarrow> nla_end_nested nest1 m;
            or_einval (nla_put_string IFLA_IFNAME name1 m) (\<lambda>m. Some (Inr m))
          }))))))
        }) False
     (\<lambda>bytes. bytes = nl_header (16 + length (veth_body name1 name2)) RTM_NEWLINK veth_flags @
        veth_body name1 name2)"
  (is "builds ?build _ ?good")
  unfolding builds_def
proof (intro allI impI)
  fix m assume m: "msg_repr m 0 0 [] \<and> nm_cap m = 8208"
  let ?r = "\<lambda>m body. msg_repr m RTM_NEWLINK veth_flags body \<and> nm_cap m = 8208"
  let ?Z = "replicate 16 (0::u8)"
  define K where "K = encode_attr IFLA_INFO_KIND (ascii ''veth'' @ [0])"
  define N1 where "N1 = encode_attr IFLA_IFNAME (name1 @ [0])"
  define N2 where "N2 = encode_attr IFLA_IFNAME (name2 @ [0])"
  define P where "P = encode_attr VETH_INFO_PEER (?Z @ N2)"
  let ?E = "\<lambda>ty. encode_attr ty []"
  have names: "length name1 < 16" "length name2 < 16"
    using assms by (simp_all add: bad_name_def IFNAMSIZ_def)
  have k: "length (ascii ''veth'') = 4" by (simp add: ascii_def)
  have lens: "length K \<le> 12" "length N1 \<le> 23" "length N2 \<le> 23" "length (?E ty) = 4" for ty
    using encode_attr_short [of "ascii ''veth'' @ [0]" IFLA_INFO_KIND] encode_attr_short [of "name1 @ [0]" IFLA_IFNAME]
      encode_attr_short [of "name2 @ [0]" IFLA_IFNAME] names k
    by (simp_all add: K_def N1_def N2_def length_encode_attr)
  have mods: "length K mod 4 = 0" "length N2 mod 4 = 0"
    unfolding K_def N2_def using names k by (simp_all add: encode_attr_mod4)
  obtain m1 m2 m3 where a: "set_hdr_flags veth_flags m = Some m1" "set_hdr_type RTM_NEWLINK m1 = Some m2"
    "nlmsg_reserve 16 m2 = Some (Some 16, m3)" "?r m3 ?Z"
    using request_start [of m 16 veth_flags RTM_NEWLINK] m by auto
  obtain m4 where b: "put_field 16 1 AF_UNSPEC m3 = Some m4" "?r m4 ?Z"
    using family_same [OF conjunct1 [OF a(4)]] a(4) by auto
  obtain m5 where c: "nla_begin_nested IFLA_LINKINFO m4 = Some (Some 32, m5)" "?r m5 (?Z @ ?E IFLA_LINKINFO)"
    using nest_room [of m4 RTM_NEWLINK veth_flags ?Z IFLA_LINKINFO] b(2) by auto
  obtain m6 where d: "nla_put_string IFLA_INFO_KIND (ascii ''veth'') m5 = Some (0, m6)"
    "?r m6 (?Z @ ?E IFLA_LINKINFO @ K)"
    using put_room [of m5 _ _ _ "ascii ''veth'' @ [0]" IFLA_INFO_KIND] c(2) lens k
    by (fastforce simp: nla_put_string_def K_def)
  obtain m7 m8 p m9 m10 m11 m12 where e: "nla_begin_nested IFLA_INFO_DATA m6 = Some (Some (36 + length K), m7)"
    "nla_begin_nested VETH_INFO_PEER m7 = Some (Some (40 + length K), m8)" "nlmsg_reserve 16 m8 = Some (Some p, m9)"
    "nla_put_string IFLA_IFNAME name2 m9 = Some (0, m10)" "nla_end_nested (40 + length K) m10 = Some m11"
    "nla_end_nested (36 + length K) m11 = Some m12" "nm_cap m12 = 8208"
    "msg_repr m12 RTM_NEWLINK veth_flags ((?Z @ ?E IFLA_LINKINFO @ K) @ encode_attr IFLA_INFO_DATA P)"
    using veth_peer_nested [OF conjunct1 [OF d(2)] conjunct2 [OF d(2)] _ _ names(2), of "36 + length K" "40 + length K"]
      lens mods by (auto simp: P_def N2_def)
  then have j: "?r m12 (?Z @ ?E IFLA_LINKINFO @ K @ encode_attr IFLA_INFO_DATA P)" by simp
  have P: "length P \<le> 46"
    using encode_attr_short [of "?Z @ N2" VETH_INFO_PEER] lens by (simp add: P_def)
  define D where "D = encode_attr IFLA_INFO_DATA P"
  have D: "length D \<le> 53" "length D mod 4 = 0"
    using encode_attr_short [of P IFLA_INFO_DATA] encode_attr_mod4 [of P IFLA_INFO_DATA] P
    by (simp_all add: D_def)
  have KD: "length (K @ D) mod 4 = 0" using mods(1) D(2) by (simp add: mod_add_eq [symmetric])
  obtain m13 where l: "nla_end_nested 32 m12 = Some m13" "?r m13 (?Z @ encode_attr IFLA_LINKINFO (K @ D))"
    using nla_end_nested_repr [of m12 RTM_NEWLINK veth_flags ?Z IFLA_LINKINFO "K @ D"] j KD
    by (fastforce simp: D_def)
  have "length (encode_attr IFLA_LINKINFO (K @ D)) \<le> 80"
    using encode_attr_short [of "K @ D" IFLA_LINKINFO] lens D(1) by simp
  then obtain m14 where n: "nla_put_string IFLA_IFNAME name1 m13 = Some (0, m14)"
    "?r m14 (?Z @ encode_attr IFLA_LINKINFO (K @ D) @ N1)"
    using put_room [of m13 _ _ _ "name1 @ [0]" IFLA_IFNAME] l(2) names
    by (fastforce simp: nla_put_string_def N1_def)
  have "?Z @ encode_attr IFLA_LINKINFO (K @ D) @ N1 = veth_body name1 name2"
    by (simp add: veth_body_def ifinfomsg_zero K_def D_def P_def N1_def N2_def encode_attrs_def)
  moreover have "?build m = Some (Inr m14)"
    using a(1-3) b(1) c(1) d(1) e(1-6) l(1) n(1)
    by (simp add: sizeof_ifinfomsg_def veth_flags_def)
  ultimately show "(False \<and> (\<exists>e. ?build m = Some (Inl e))) \<or> (\<exists>m' ty fl body. ?build m = Some (Inr m') \<and>
      msg_repr m' ty fl body \<and> ?good (nl_header (16 + length body) ty fl @ body))"
    using n(2) by auto
qed

text \<open>Addresses and routes.\<close>

lemma put_field_step:
  assumes "msg_repr m ty fl b" and "b = p @ y @ q" and "off = 16 + length p" and "k = length y"
    and "b' = p @ le_bytes k v @ q"
  shows "\<exists>m'. put_field off k v m = Some m' \<and> msg_repr m' ty fl b' \<and> nm_cap m' = nm_cap m"
  using put_field_at [of m ty fl p y q off k v] assms by simp

lemma ifaddr_start:
  assumes "msg_repr m ty fl (replicate 8 0)"
  shows "\<exists>m1 m2 m3 m4. put_field 17 1 prefix m = Some m1 \<and> put_field 20 4 idx m1 = Some m2 \<and>
    put_field 16 1 family m2 = Some m3 \<and> put_field 19 1 0 m3 = Some m4 \<and>
    msg_repr m4 ty fl (ifaddrmsg family prefix idx) \<and> nm_cap m4 = nm_cap m"
proof -
  let ?z = "replicate 1 (0::u8)"
  have z: "replicate 8 (0::u8) = ?z @ ?z @ replicate 6 0"
    by (simp add: zeros_split [symmetric] del: replicate.simps)
  have z6: "replicate 6 (0::u8) = replicate 2 0 @ replicate 4 0"
    by (simp add: zeros_split [symmetric] del: replicate.simps)
  have z2: "replicate 2 (0::u8) = ?z @ ?z"
    by (simp add: zeros_split [symmetric] del: replicate.simps)
  obtain m1 where m1: "put_field 17 1 prefix m = Some m1"
    "msg_repr m1 ty fl (?z @ le_bytes 1 prefix @ replicate 6 0)" "nm_cap m1 = nm_cap m"
    using put_field_step [OF assms, of ?z ?z "replicate 6 0" 17 1] z by auto
  obtain m2 where m2: "put_field 20 4 idx m1 = Some m2"
    "msg_repr m2 ty fl (?z @ le_bytes 1 prefix @ replicate 2 0 @ le_bytes 4 idx)" "nm_cap m2 = nm_cap m"
    using put_field_step [OF m1(2), of "?z @ le_bytes 1 prefix @ replicate 2 0" "replicate 4 0" "[]" 20 4] z6 m1(3)
    by auto
  obtain m3 where m3: "put_field 16 1 family m2 = Some m3"
    "msg_repr m3 ty fl (le_bytes 1 family @ le_bytes 1 prefix @ replicate 2 0 @ le_bytes 4 idx)" "nm_cap m3 = nm_cap m"
    using put_field_step [OF m2(2), of "[]" ?z "le_bytes 1 prefix @ replicate 2 0 @ le_bytes 4 idx" 16 1] m2(3)
    by auto
  have "le_bytes 1 0 = ?z" by (rule le_bytes_zero)
  then obtain m4 where "put_field 19 1 0 m3 = Some m4"
    "msg_repr m4 ty fl (le_bytes 1 family @ le_bytes 1 prefix @ replicate 2 0 @ le_bytes 4 idx)" "nm_cap m4 = nm_cap m"
    using put_field_step [OF m3(2), of "le_bytes 1 family @ le_bytes 1 prefix @ ?z" ?z "le_bytes 4 idx" 19 1 _ 0] z2 m3(3)
    by auto
  then show ?thesis using m1(1) m2(1) m3(1) by (auto simp: ifaddrmsg_def)
qed

lemma rtmsg_start:
  assumes "msg_repr m ty fl (replicate 12 0)"
  shows "\<exists>m1 m2 m3 m4 m5 m6. put_field 16 1 family m = Some m1 \<and> put_field 20 1 RT_TABLE_MAIN m1 = Some m2 \<and>
    put_field 22 1 scope m2 = Some m3 \<and> put_field 21 1 RTPROT_BOOT m3 = Some m4 \<and>
    put_field 23 1 RTN_UNICAST m4 = Some m5 \<and> put_field 17 1 dst m5 = Some m6 \<and>
    msg_repr m6 ty fl (rtmsg family dst scope) \<and> nm_cap m6 = nm_cap m"
proof -
  let ?z = "replicate 1 (0::u8)"
  let ?F = "le_bytes 1 family" and ?T = "le_bytes 1 RT_TABLE_MAIN" and ?S = "le_bytes 1 scope"
    and ?P = "le_bytes 1 RTPROT_BOOT" and ?Y = "le_bytes 1 RTN_UNICAST" and ?D = "le_bytes 1 dst"
    and ?z2 = "replicate 2 (0::u8)" and ?z4 = "replicate 4 (0::u8)"
  have z: "replicate 12 (0::u8) = ?z @ ?z @ ?z2 @ ?z @ ?z @ ?z @ ?z @ ?z4"
    by (simp add: zeros_split [symmetric] del: replicate.simps)
  obtain m1 where m1: "put_field 16 1 family m = Some m1"
    "msg_repr m1 ty fl (?F @ ?z @ ?z2 @ ?z @ ?z @ ?z @ ?z @ ?z4)" "nm_cap m1 = nm_cap m"
    using put_field_step [OF assms, of "[]" ?z "?z @ ?z2 @ ?z @ ?z @ ?z @ ?z @ ?z4" 16 1 _ family] z by auto
  obtain m2 where m2: "put_field 20 1 RT_TABLE_MAIN m1 = Some m2"
    "msg_repr m2 ty fl (?F @ ?z @ ?z2 @ ?T @ ?z @ ?z @ ?z @ ?z4)" "nm_cap m2 = nm_cap m"
    using put_field_step [OF m1(2), of "?F @ ?z @ ?z2" ?z "?z @ ?z @ ?z @ ?z4" 20 1 _ RT_TABLE_MAIN] m1(3) by auto
  obtain m3 where m3: "put_field 22 1 scope m2 = Some m3"
    "msg_repr m3 ty fl (?F @ ?z @ ?z2 @ ?T @ ?z @ ?S @ ?z @ ?z4)" "nm_cap m3 = nm_cap m"
    using put_field_step [OF m2(2), of "?F @ ?z @ ?z2 @ ?T @ ?z" ?z "?z @ ?z4" 22 1 _ scope] m2(3) by auto
  obtain m4 where m4: "put_field 21 1 RTPROT_BOOT m3 = Some m4"
    "msg_repr m4 ty fl (?F @ ?z @ ?z2 @ ?T @ ?P @ ?S @ ?z @ ?z4)" "nm_cap m4 = nm_cap m"
    using put_field_step [OF m3(2), of "?F @ ?z @ ?z2 @ ?T" ?z "?S @ ?z @ ?z4" 21 1 _ RTPROT_BOOT] m3(3) by auto
  obtain m5 where m5: "put_field 23 1 RTN_UNICAST m4 = Some m5"
    "msg_repr m5 ty fl (?F @ ?z @ ?z2 @ ?T @ ?P @ ?S @ ?Y @ ?z4)" "nm_cap m5 = nm_cap m"
    using put_field_step [OF m4(2), of "?F @ ?z @ ?z2 @ ?T @ ?P @ ?S" ?z ?z4 23 1 _ RTN_UNICAST] m4(3) by auto
  obtain m6 where "put_field 17 1 dst m5 = Some m6"
    "msg_repr m6 ty fl (?F @ ?D @ ?z2 @ ?T @ ?P @ ?S @ ?Y @ ?z4)" "nm_cap m6 = nm_cap m"
    using put_field_step [OF m5(2), of ?F ?z "?z2 @ ?T @ ?P @ ?S @ ?Y @ ?z4" 17 1 _ dst] m5(3) by auto
  then show ?thesis using m1(1) m2(1) m3(1) m4(1) m5(1) by (auto simp: rtmsg_def)
qed

definition create_flags :: nat where
  "create_flags = NLM_F_ACK OR NLM_F_REQUEST OR NLM_F_CREATE OR NLM_F_EXCL"

text \<open>The payloads of the requests for an IPv4 address, a gateway and a route to a host.\<close>

definition addr_body :: "nat \<Rightarrow> nat \<Rightarrow> u8 list \<Rightarrow> u8 list \<Rightarrow> u8 list" where
  "addr_body index prefix addr bcast = ifaddrmsg AF_INET prefix index @
     encode_attrs [(IFA_LOCAL, take 4 addr), (IFA_ADDRESS, take 4 addr), (IFA_BROADCAST, take 4 bcast)]"

definition gateway_body :: "nat \<Rightarrow> u8 list \<Rightarrow> u8 list" where
  "gateway_body index gw = rtmsg AF_INET 0 RT_SCOPE_UNIVERSE @
     encode_attrs [(RTA_GATEWAY, take 4 gw), (RTA_OIF, le_bytes 4 index)]"

definition dest_body :: "nat \<Rightarrow> u8 list \<Rightarrow> u8 list" where
  "dest_body index dest = rtmsg AF_INET 32 RT_SCOPE_LINK @
     encode_attrs [(RTA_DST, take 4 dest), (RTA_OIF, le_bytes 4 index)]"

lemma get_bytes_start: "n \<le> length b \<Longrightarrow> get_bytes 0 n b = Some (take n b)"
  by (simp add: get_bytes_def)

lemma length_structs [simp]: "length (ifaddrmsg f p i) = 8" "length (rtmsg f d sc) = 12" "length (ifinfomsg i fl c) = 16"
  by (simp_all add: ifaddrmsg_def rtmsg_def ifinfomsg_def)

lemma length_attr4: "length d = 4 \<Longrightarrow> length (encode_attr ty d) = 8"
  by (simp add: length_encode_attr)

lemma addr_builds:
  assumes "4 \<le> length addr" and "4 \<le> length bcast"
  shows "builds (\<lambda>m. do {
          m \<leftarrow> set_hdr_flags (NLM_F_ACK OR NLM_F_REQUEST OR NLM_F_CREATE OR NLM_F_EXCL) m;
          m \<leftarrow> set_hdr_type RTM_NEWADDR m;
          (r, m) \<leftarrow> nlmsg_reserve sizeof_ifaddrmsg m;
          ifa \<leftarrow> r;
          m \<leftarrow> put_field (ifa + 1) 1 prefix m;
          m \<leftarrow> put_field (ifa + 4) 4 (unat ifindex) m;
          m \<leftarrow> put_field ifa 1 AF_INET m;
          m \<leftarrow> put_field (ifa + 3) 1 0 m;
          a \<leftarrow> get_bytes 0 (addr_len AF_INET) addr;
          b \<leftarrow> get_bytes 0 (addr_len AF_INET) bcast;
          or_einval (nla_put_buffer IFA_LOCAL a m) (\<lambda>m.
          or_einval (nla_put_buffer IFA_ADDRESS a m) (\<lambda>m.
          or_einval (nla_put_buffer IFA_BROADCAST b m) (\<lambda>m. do {
            unsupported \<leftarrow> (if AF_INET = AF_INET6 then
                (if b \<noteq> replicate 16 0 then Some True
                 else do { ac \<leftarrow> acast; c \<leftarrow> get_bytes 0 16 ac; Some (c \<noteq> replicate 16 0) })
              else Some False);
            Some (if unsupported then Inl (- int EPROTONOSUPPORT) else Inr m)
          })))
        }) False
     (\<lambda>bytes. bytes = nl_header (16 + length (addr_body (unat (ifindex :: u32)) prefix addr bcast))
         RTM_NEWADDR create_flags @ addr_body (unat ifindex) prefix addr bcast)"
  (is "builds ?build _ ?good")
  unfolding builds_def
proof (intro allI impI)
  fix m assume m: "msg_repr m 0 0 [] \<and> nm_cap m = 8208"
  let ?r = "\<lambda>m body. msg_repr m RTM_NEWADDR create_flags body \<and> nm_cap m = 8208"
  let ?a = "take 4 addr" and ?b = "take 4 bcast" and ?S = "ifaddrmsg AF_INET prefix (unat ifindex)"
  have len: "length ?a = 4" "length ?b = 4" using assms by simp_all
  obtain m1 m2 m3 where a: "set_hdr_flags create_flags m = Some m1" "set_hdr_type RTM_NEWADDR m1 = Some m2"
    "nlmsg_reserve 8 m2 = Some (Some 16, m3)" "?r m3 (replicate 8 0)"
    using request_start [of m 8 create_flags RTM_NEWADDR] m by auto
  obtain m4 m5 m6 m7 where b: "put_field 17 1 prefix m3 = Some m4" "put_field 20 4 (unat ifindex) m4 = Some m5"
    "put_field 16 1 AF_INET m5 = Some m6" "put_field 19 1 0 m6 = Some m7" "?r m7 ?S"
    using ifaddr_start [OF conjunct1 [OF a(4)], of prefix "unat ifindex" AF_INET] a(4) by auto
  obtain m8 where c: "nla_put_buffer IFA_LOCAL ?a m7 = Some (0, m8)" "?r m8 (?S @ encode_attr IFA_LOCAL ?a)"
    using put_room [of m7 _ _ _ ?a IFA_LOCAL] b(5) len by (fastforce simp: nla_put_buffer_def)
  obtain m9 where d: "nla_put_buffer IFA_ADDRESS ?a m8 = Some (0, m9)"
    "?r m9 (?S @ encode_attr IFA_LOCAL ?a @ encode_attr IFA_ADDRESS ?a)"
    using put_room [of m8 _ _ _ ?a IFA_ADDRESS] c(2) len length_attr4 [OF len(1)]
    by (fastforce simp: nla_put_buffer_def)
  obtain m10 where e: "nla_put_buffer IFA_BROADCAST ?b m9 = Some (0, m10)"
    "?r m10 (?S @ encode_attr IFA_LOCAL ?a @ encode_attr IFA_ADDRESS ?a @ encode_attr IFA_BROADCAST ?b)"
    using put_room [of m9 _ _ _ ?b IFA_BROADCAST] d(2) len length_attr4 [OF len(1)]
    by (fastforce simp: nla_put_buffer_def)
  have g: "get_bytes 0 (addr_len AF_INET) addr = Some ?a" "get_bytes 0 (addr_len AF_INET) bcast = Some ?b"
    using assms by (simp_all add: addr_len_def get_bytes_start)
  have "?build m = Some (Inr m10)"
    using a(1-3) b(1-4) c(1) d(1) e(1) g
    by (simp add: sizeof_ifaddrmsg_def create_flags_def AF_INET_def AF_INET6_def)
  moreover have "?r m10 (addr_body (unat ifindex) prefix addr bcast)"
    using e(2) by (simp add: addr_body_def encode_attrs_def)
  ultimately show "(False \<and> (\<exists>e. ?build m = Some (Inl e))) \<or> (\<exists>m' ty fl body. ?build m = Some (Inr m') \<and>
      msg_repr m' ty fl body \<and> ?good (nl_header (16 + length body) ty fl @ body))"
    by auto
qed

lemma route_builds:
  assumes "4 \<le> length gw"
  shows "builds (\<lambda>m. do {
          m \<leftarrow> set_hdr_flags (NLM_F_ACK OR NLM_F_REQUEST OR NLM_F_CREATE OR NLM_F_EXCL) m;
          m \<leftarrow> set_hdr_type RTM_NEWROUTE m;
          (r, m) \<leftarrow> nlmsg_reserve sizeof_rtmsg m;
          rt \<leftarrow> r;
          m \<leftarrow> put_field rt 1 AF_INET m;
          m \<leftarrow> put_field (rt + 4) 1 RT_TABLE_MAIN m;
          m \<leftarrow> put_field (rt + 6) 1 scope m;
          m \<leftarrow> put_field (rt + 5) 1 RTPROT_BOOT m;
          m \<leftarrow> put_field (rt + 7) 1 RTN_UNICAST m;
          m \<leftarrow> put_field (rt + 1) 1 dst_len m;
          g \<leftarrow> get_bytes 0 (addr_len AF_INET) gw;
          or_einval (nla_put_buffer attr g m) (\<lambda>m.
          or_einval (nla_put_u32 RTA_OIF ifindex m) (\<lambda>m. Some (Inr m)))
        }) False
     (\<lambda>bytes. let body = rtmsg AF_INET dst_len scope @
          encode_attrs [(attr, take 4 gw), (RTA_OIF, le_bytes 4 (unat (ifindex :: u32)))]
        in bytes = nl_header (16 + length body) RTM_NEWROUTE create_flags @ body)"
  (is "builds ?build _ ?good")
  unfolding builds_def
proof (intro allI impI)
  fix m assume m: "msg_repr m 0 0 [] \<and> nm_cap m = 8208"
  let ?r = "\<lambda>m body. msg_repr m RTM_NEWROUTE create_flags body \<and> nm_cap m = 8208"
  let ?g = "take 4 gw" and ?S = "rtmsg AF_INET dst_len scope" and ?i = "le_bytes 4 (unat ifindex)"
  have len: "length ?g = 4" using assms by simp
  obtain m1 m2 m3 where a: "set_hdr_flags create_flags m = Some m1" "set_hdr_type RTM_NEWROUTE m1 = Some m2"
    "nlmsg_reserve 12 m2 = Some (Some 16, m3)" "?r m3 (replicate 12 0)"
    using request_start [of m 12 create_flags RTM_NEWROUTE] m by auto
  obtain m4 m5 m6 m7 m8 m9 where b: "put_field 16 1 AF_INET m3 = Some m4" "put_field 20 1 RT_TABLE_MAIN m4 = Some m5"
    "put_field 22 1 scope m5 = Some m6" "put_field 21 1 RTPROT_BOOT m6 = Some m7"
    "put_field 23 1 RTN_UNICAST m7 = Some m8" "put_field 17 1 dst_len m8 = Some m9" "?r m9 ?S"
    using rtmsg_start [OF conjunct1 [OF a(4)], of AF_INET scope dst_len] a(4) by auto
  obtain m10 where c: "nla_put_buffer attr ?g m9 = Some (0, m10)" "?r m10 (?S @ encode_attr attr ?g)"
    using put_room [of m9 _ _ _ ?g attr] b(7) len by (fastforce simp: nla_put_buffer_def)
  obtain m11 where d: "nla_put_u32 RTA_OIF ifindex m10 = Some (0, m11)"
    "?r m11 (?S @ encode_attr attr ?g @ encode_attr RTA_OIF ?i)"
    using put_room [of m10 _ _ _ ?i RTA_OIF] c(2) length_attr4 [OF len] by (fastforce simp: nla_put_u32_def)
  have g: "get_bytes 0 (addr_len AF_INET) gw = Some ?g"
    using assms by (simp add: addr_len_def get_bytes_start)
  have "?build m = Some (Inr m11)"
    using a(1-3) b(1-6) c(1) d(1) g by (simp add: sizeof_rtmsg_def create_flags_def)
  moreover have "?r m11 (?S @ encode_attrs [(attr, ?g), (RTA_OIF, ?i)])"
    using d(2) by (simp add: encode_attrs_def)
  ultimately show "(False \<and> (\<exists>e. ?build m = Some (Inl e))) \<or> (\<exists>m' ty fl body. ?build m = Some (Inr m') \<and>
      msg_repr m' ty fl body \<and> ?good (nl_header (16 + length body) ty fl @ body))"
    unfolding Let_def by blast
qed

section \<open>Properties of the requests\<close>

text \<open>
  What a request function promises: no undefined behaviour; as many live heap blocks as before; if
  the socket cannot be opened its error is returned at once; otherwise no descriptor is left open,
  nothing but \<open>msg\<close> is ever sent, and it is sent if it may be (\<open>sends\<close>) and no allocation fails.
\<close>

definition request_ok :: "net_env \<Rightarrow> net \<Rightarrow> bool \<Rightarrow> u8 list \<Rightarrow> (int \<times> net) option \<Rightarrow> bool" where
  "request_ok env s sends msg res \<longleftrightarrow> (\<exists>err s'. res = Some (err, s') \<and> n_blocks s' = n_blocks s \<and>
     (\<forall>r h s1. netlink_open env NETLINK_ROUTE s = (r, h, s1) \<longrightarrow>
       (if r \<noteq> 0 then err = r \<and> s' = s1
        else n_fds s' = n_fds s \<and>
          (\<exists>tail. n_trace s' = n_trace s1 @ tail \<and>
             (\<forall>fd bytes. EvSend fd bytes \<in> set tail \<longrightarrow> sends \<and> bytes = msg) \<and>
             ((\<forall>s n. k_malloc env s n) \<and> sends \<longrightarrow> (\<exists>fd. EvSend fd msg \<in> set tail))))))"

lemma frame_request_ok:
  assumes "good_net env" and "\<And>s. check = None \<Longrightarrow> builds (build s) fails (\<lambda>bytes. \<not> fails \<and> bytes = msg)"
    and "sends \<longleftrightarrow> check = None \<and> \<not> fails"
  shows "request_ok env s sends msg (route_request env check build s)"
proof -
  obtain err s' where f: "route_request env check build s = Some (err, s')" "n_blocks s' = n_blocks s"
    "\<forall>r h s1. netlink_open env NETLINK_ROUTE s = (r, h, s1) \<longrightarrow>
      (if r \<noteq> 0 then err = r \<and> s' = s1
       else n_fds s' = n_fds s \<and>
         (\<exists>tail. n_trace s' = n_trace s1 @ tail \<and>
            (\<forall>fd bytes. EvSend fd bytes \<in> set tail \<longrightarrow> check = None \<and> \<not> fails \<and> bytes = msg) \<and>
            ((\<forall>s n. k_malloc env s n) \<and> check = None \<and> \<not> fails \<longrightarrow>
              (\<exists>fd bytes. EvSend fd bytes \<in> set tail))))"
    using route_request_frame [OF assms(1), of check build fails "\<lambda>bytes. \<not> fails \<and> bytes = msg" s] assms(2)
    by blast
  show ?thesis unfolding request_ok_def assms(3)
    by (rule exI [of _ err], rule exI [of _ s']) (use f in \<open>auto split: if_splits; blast\<close>)
qed

lemma builds_mono: "builds b fails g \<Longrightarrow> (\<And>x. g x \<Longrightarrow> g' x) \<Longrightarrow> builds b fails g'"
  unfolding builds_def by meson

lemma builds_not_fails:
  assumes "builds b fails g" and "fails \<Longrightarrow> \<forall>m. \<exists>e. b m = Some (Inl e)"
  shows "builds b fails (\<lambda>x. \<not> fails \<and> g x)"
  using assms unfolding builds_def by fastforce

lemma sample_good_net: "good_net sample_net_env"
  by (simp add: good_net_def errno_ok_def eintr_ends_def sample_net_env_def)

lemma sample_open: "\<exists>h s1. netlink_open sample_net_env NETLINK_ROUTE sample_net = (0, h, s1)"
  by (simp add: netlink_open_def sys_socket_def sample_net_env_def sizeof_sockaddr_nl_def AF_NETLINK_def)

text \<open>What the promise comes to in the sample environment, where nothing fails.\<close>

lemma request_ok_sample:
  assumes "request_ok sample_net_env sample_net True msg res"
  shows "\<exists>err s' fd. res = Some (err, s') \<and> n_fds s' = [] \<and> n_blocks s' = 0 \<and> EvSend fd msg \<in> set (n_trace s')"
proof -
  obtain h s1 where o: "netlink_open sample_net_env NETLINK_ROUTE sample_net = (0, h, s1)"
    using sample_open by blast
  have k: "\<forall>s n. k_malloc sample_net_env s n" by (simp add: sample_net_env_def)
  obtain err s' where r: "res = Some (err, s')" "n_blocks s' = n_blocks sample_net"
      "n_fds s' = n_fds sample_net"
      "\<exists>tail. n_trace s' = n_trace s1 @ tail \<and> (\<exists>fd. EvSend fd msg \<in> set tail)"
    using assms k unfolding request_ok_def o prod.inject by (metis (no_types, lifting))
  then have "\<exists>fd. EvSend fd msg \<in> set (n_trace s')" by auto
  then show ?thesis using r(1-3) by (simp add: sample_net_def)
qed

text \<open>Builders that cannot fail.\<close>

lemma frame_request_sure:
  assumes "good_net env" and "\<And>s. check = None \<Longrightarrow> builds (build s) False (\<lambda>bytes. bytes = msg)"
    and "sends \<longleftrightarrow> check = None"
  shows "request_ok env s sends msg (route_request env check build s)"
  by (rule frame_request_ok [where fails = False]) (use assms in simp_all)

lemma veth_create_ok:
  assumes "good_net env"
  shows "request_ok env s (\<not> bad_name name1 \<and> \<not> bad_name name2)
    (nl_header (16 + length (veth_body name1 name2)) RTM_NEWLINK veth_flags @ veth_body name1 name2)
    (lxc_veth_create env name1 name2 s)"
  unfolding lxc_veth_create_def
  by (rule frame_request_sure [OF assms], rule veth_builds) (auto split: if_splits)



lemma set_flag_ok:
  assumes "good_net env" and "\<And>s'. k_nametoindex env s' name = index"
  shows "request_ok env s (\<not> bad_name name \<and> index \<noteq> 0)
    (nl_header 32 RTM_NEWLINK (NLM_F_REQUEST OR NLM_F_ACK) @ ifinfomsg (unat index) (unat flag) 1)
    (netdev_set_flag env name flag s)"
  unfolding netdev_set_flag_def Let_def assms(2)
  by (rule frame_request_ok [OF assms(1), where fails = "index = 0"], rule builds_not_fails [OF set_flag_builds])
    auto

text \<open>
  \<open>netdev_set_flag\<close> keeps the books and sends exactly one kind of message: for the
  interface's index, the given flags under a change mask of \<open>IFF_UP\<close> alone; with the flag 0,
  \<open>lxc_netdev_down\<close>, that takes the interface down.  A bad name or an unknown interface sends
  nothing.
\<close>

theorem set_flag_request:
  assumes "good_net env" and "\<And>s'. k_nametoindex env s' name = index"
  shows "request_ok env s (\<not> bad_name name \<and> index \<noteq> 0)
    (nl_header 32 RTM_NEWLINK (NLM_F_REQUEST OR NLM_F_ACK) @ ifinfomsg (unat index) (unat flag) 1)
    (netdev_set_flag env name flag s)"
  by (rule set_flag_ok [OF assms])

lemma set_flag_request_witness:
  "\<exists>err s' fd. lxc_netdev_up sample_net_env (ascii ''lo'') sample_net = Some (err, s') \<and> n_fds s' = [] \<and>
     EvSend fd (nl_header 32 RTM_NEWLINK (NLM_F_REQUEST OR NLM_F_ACK) @ ifinfomsg 7 1 1) \<in> set (n_trace s')"
proof -
  have i: "k_nametoindex sample_net_env s' (ascii ''lo'') = 7" for s' by (simp add: sample_net_env_def)
  have "\<not> bad_name (ascii ''lo'')" by (simp add: bad_name_def IFNAMSIZ_def ascii_def)
  then have "request_ok sample_net_env sample_net True
      (nl_header 32 RTM_NEWLINK (NLM_F_REQUEST OR NLM_F_ACK) @ ifinfomsg 7 1 1)
      (lxc_netdev_up sample_net_env (ascii ''lo'') sample_net)"
    using set_flag_request [OF sample_good_net i, of sample_net IFF_UP] by (simp add: lxc_netdev_up_def IFF_UP_def)
  then show ?thesis using request_ok_sample by blast
qed

lemma addresses_ok:
  assumes "good_net env" and "4 \<le> length addr" and "4 \<le> length bcast"
  shows "request_ok env s True
      (nl_header (16 + length (addr_body (unat ifindex) prefix addr bcast)) RTM_NEWADDR create_flags @
        addr_body (unat ifindex) prefix addr bcast)
      (lxc_ipv4_addr_add env ifindex addr bcast prefix s) \<and>
    request_ok env s True
      (nl_header (16 + length (gateway_body (unat ifindex) addr)) RTM_NEWROUTE create_flags @
        gateway_body (unat ifindex) addr)
      (lxc_ipv4_gateway_add env ifindex addr s) \<and>
    request_ok env s True
      (nl_header (16 + length (dest_body (unat ifindex) addr)) RTM_NEWROUTE create_flags @
        dest_body (unat ifindex) addr)
      (lxc_ipv4_dest_add env ifindex addr s) \<and>
    request_ok env s True
      (nl_header 32 RTM_DELLINK (NLM_F_ACK OR NLM_F_REQUEST) @ ifinfomsg (unat ifindex) 0 0)
      (lxc_netdev_delete_by_index env ifindex s)"
  (is "?A \<and> ?G \<and> ?D \<and> ?X")
proof (intro conjI)
  show ?A
    unfolding lxc_ipv4_addr_add_def ip_addr_add_def Let_def
    by (rule frame_request_sure [OF assms(1)], rule addr_builds [OF assms(2,3)]) simp
  have len: "addr_len AF_INET * 8 = 32" by (simp add: addr_len_def)
  show ?G
    unfolding lxc_ipv4_gateway_add_def ip_gateway_add_def Let_def
    by (rule frame_request_sure [OF assms(1)], rule builds_mono [OF route_builds [OF assms(2)]])
      (simp_all add: gateway_body_def Let_def)
  show ?D
    unfolding lxc_ipv4_dest_add_def ip_route_dest_add_def Let_def len
    by (rule frame_request_sure [OF assms(1)], rule builds_mono [OF route_builds [OF assms(2)]])
      (simp_all add: dest_body_def Let_def)
  show ?X
    unfolding lxc_netdev_delete_by_index_def
    by (rule frame_request_sure [OF assms(1)], rule delete_builds) simp
qed



section \<open>Moving an interface\<close>

definition move_body :: "u32 \<Rightarrow> u32 \<Rightarrow> cstring option \<Rightarrow> u8 list" where
  "move_body index pid ifname = ifinfomsg (unat index) 0 0 @
     encode_attrs ((IFLA_NET_NS_PID, le_bytes 4 (unat pid)) #
       (case ifname of None \<Rightarrow> [] | Some nm \<Rightarrow> [(IFLA_IFNAME, nm @ [0])]))"

text \<open>The message as it is before the transaction.\<close>

lemma move_message:
  assumes "msg_repr m 0 0 []" and "nm_cap m = 8208" and "case ifname of None \<Rightarrow> True | Some nm \<Rightarrow> length nm < 3000"
  shows "\<exists>m1 m2 m3 m4 m5 m6 m7. set_hdr_flags (NLM_F_REQUEST OR NLM_F_ACK) m = Some m1 \<and>
    set_hdr_type RTM_NEWLINK m1 = Some m2 \<and> nlmsg_reserve sizeof_ifinfomsg m2 = Some (Some 16, m3) \<and>
    put_field 16 1 AF_UNSPEC m3 = Some m4 \<and> put_field 20 4 (unat index) m4 = Some m5 \<and>
    nla_put_u32 IFLA_NET_NS_PID pid m5 = Some (0, m6) \<and>
    (case ifname of None \<Rightarrow> Some (0, m6) | Some nm \<Rightarrow> nla_put_string IFLA_IFNAME nm m6) = Some (0, m7) \<and>
    msg_repr m7 RTM_NEWLINK (NLM_F_REQUEST OR NLM_F_ACK) (move_body index pid ifname) \<and> nm_cap m7 = 8208"
proof -
  let ?r = "\<lambda>m body. msg_repr m RTM_NEWLINK (NLM_F_REQUEST OR NLM_F_ACK) body \<and> nm_cap m = 8208"
  let ?S = "ifinfomsg (unat index) 0 0" and ?p = "le_bytes 4 (unat pid)"
  obtain m1 m2 m3 where a: "set_hdr_flags (NLM_F_REQUEST OR NLM_F_ACK) m = Some m1" "set_hdr_type RTM_NEWLINK m1 = Some m2"
    "nlmsg_reserve 16 m2 = Some (Some 16, m3)" "?r m3 (replicate 16 0)"
    using request_start [OF assms(1,2), of 16 "NLM_F_REQUEST OR NLM_F_ACK" RTM_NEWLINK] by auto
  obtain m4 m5 where b: "put_field 16 1 AF_UNSPEC m3 = Some m4" "put_field 20 4 (unat index) m4 = Some m5" "?r m5 ?S"
    using ifinfo_start [OF conjunct1 [OF a(4)], of "unat index"] a(4) by auto
  have len: "length ?S = 16" by (simp add: ifinfomsg_def)
  obtain m6 where c: "nla_put_u32 IFLA_NET_NS_PID pid m5 = Some (0, m6)" "?r m6 (?S @ encode_attr IFLA_NET_NS_PID ?p)"
    using put_room [of m5 _ _ _ ?p IFLA_NET_NS_PID] b(3) len by (fastforce simp: nla_put_u32_def)
  have len2: "length (?S @ encode_attr IFLA_NET_NS_PID ?p) = 24" using len by (simp add: length_encode_attr)
  show ?thesis
  proof (cases ifname)
    case None
    then show ?thesis using a b c by (auto simp: sizeof_ifinfomsg_def move_body_def encode_attrs_def)
  next
    case (Some nm)
    then have "length (nm @ [0]) < 4000" using assms(3) by simp
    then obtain m7 where "nla_put IFLA_IFNAME (nm @ [0]) m6 = Some (0, m7)"
      "?r m7 ((?S @ encode_attr IFLA_NET_NS_PID ?p) @ encode_attr IFLA_IFNAME (nm @ [0]))"
      using put_room [of m6 _ _ _ "nm @ [0]" IFLA_IFNAME] c(2) len2 by fastforce
    then show ?thesis using a b c Some
      by (auto simp: sizeof_ifinfomsg_def move_body_def encode_attrs_def nla_put_string_def)
  qed
qed

lemma move_ok:
  assumes "good_net env" and "case ifname of None \<Rightarrow> True | Some nm \<Rightarrow> length nm < 3000"
  shows "request_ok env s True
    (nl_header (16 + length (move_body index pid ifname)) RTM_NEWLINK (NLM_F_REQUEST OR NLM_F_ACK) @
      move_body index pid ifname)
    (lxc_netdev_move_by_index env index pid ifname s)" (is "request_ok _ _ _ ?msg ?call")
proof -
  have eo: "errno_ok env" and ei: "eintr_ends env" using assms(1) by (simp_all add: good_net_def)
  obtain r h s1 where o: "netlink_open env NETLINK_ROUTE s = (r, h, s1)" by (metis prod_cases3)
  have b1: "n_blocks s1 = n_blocks s" using netlink_open_blocks [OF o] .
  show ?thesis
  proof (cases "r = 0")
    case False
    then show ?thesis using o b1 by (simp add: request_ok_def lxc_netdev_move_by_index_def)
  next
    case True
    obtain fd where fd: "h_fd h = Some fd" "n_fds s1 = fd # n_fds s"
      using netlink_open_zero [OF o True eo] by blast
    have close: ?thesis if "?call = Some (err, request_out h mm None s2)"
      "n_fds s2 = n_fds s1" "n_trace s2 = n_trace s1 @ tl"
      "n_blocks s2 = n_blocks s + (if mm = None then 0 else 2)"
      "\<forall>fd bytes. EvSend fd bytes \<in> set tl \<longrightarrow> bytes = ?msg"
      "(\<forall>s n. k_malloc env s n) \<longrightarrow> (\<exists>fd. EvSend fd ?msg \<in> set tl)" for err mm s2 tl
      using that o True request_out_books [OF fd(1) _ , of s2 "n_fds s" "n_blocks s" mm None] fd(2)
      unfolding request_ok_def by auto
    obtain ma s2 where a: "nlmsg_alloc env NLMSG_GOOD_SIZE s1 = (ma, s2)" by (metis prod.exhaust)
    obtain t2 where t2: "n_trace s2 = n_trace s1 @ t2" "\<forall>fd bytes. EvSend fd bytes \<notin> set t2"
      using nlmsg_alloc_trace [OF a] by blast
    show ?thesis
    proof (cases ma)
      case None
      then show ?thesis using o True a t2 b1 nlmsg_alloc_None [of env NLMSG_GOOD_SIZE s1 s2]
          nlmsg_alloc_spec [OF good_size(2), of env s1]
        by (intro close [where mm = None and tl = t2 and ?s2.0 = s2]) (auto simp: lxc_netdev_move_by_index_def)
    next
      case (Some m)
      have m: "msg_repr m 0 0 []" "nm_cap m = 8208" "n_blocks s2 = n_blocks s + 2" "n_fds s2 = n_fds s1"
        using nlmsg_alloc_spec [OF good_size(2), of env s1] a Some b1 by auto
      obtain m1 m2 m3 m4 m5 m6 m7 where mm: "set_hdr_flags (NLM_F_REQUEST OR NLM_F_ACK) m = Some m1"
        "set_hdr_type RTM_NEWLINK m1 = Some m2" "nlmsg_reserve sizeof_ifinfomsg m2 = Some (Some 16, m3)"
        "put_field 16 1 AF_UNSPEC m3 = Some m4" "put_field 20 4 (unat index) m4 = Some m5"
        "nla_put_u32 IFLA_NET_NS_PID pid m5 = Some (0, m6)"
        "(case ifname of None \<Rightarrow> Some (0, m6) | Some nm \<Rightarrow> nla_put_string IFLA_IFNAME nm m6) = Some (0, m7)"
        "msg_repr m7 RTM_NEWLINK (NLM_F_REQUEST OR NLM_F_ACK) (move_body index pid ifname)" "nm_cap m7 = 8208"
        using move_message [OF m(1,2) assms(2), of index pid] by blast
      have len: "24 \<le> length (move_body index pid ifname)"
        by (simp add: move_body_def ifinfomsg_def encode_attrs_def length_encode_attr)
      have n: "hdr_len m7 = Some (16 + length (move_body index pid ifname))"
        "16 + length (move_body index pid ifname) \<le> length (nm_buf m7)"
        using hdr_len_repr [OF mm(8)] msg_repr_len [OF mm(8)] mm(8) by (simp_all add: msg_repr_def)
      obtain r' a' s4 rest where t: "netlink_transaction env h m7 m7 s2 = Some (r', a', s4)" "same_books s2 s4"
        "n_trace s4 = n_trace s2 @ EvSend fd ?msg # rest" "\<forall>fd bytes. EvSend fd bytes \<notin> set rest"
        using netlink_transaction_total [OF mm(8) fd(1) n(1) _ n(2) ei, of s2] len by auto
      have call: "?call = Some (r', request_out h (Some a') None s4)"
        using o True a Some mm(1-7) t(1) by (simp add: lxc_netdev_move_by_index_def)
      show ?thesis
        by (rule close [OF call, where tl = "t2 @ EvSend fd ?msg # rest"])
          (use t t2 m(3,4) in \<open>auto simp: same_books_def\<close>)
    qed
  qed
qed

text \<open>
  \<open>lxc_netdev_move_by_index\<close>, which receives the answer into the request itself, still keeps the
  books on every path, and all it sends is the request to move the interface to the namespace of the
  process under the new name.
\<close>

theorem move_request:
  assumes "good_net env" and "case ifname of None \<Rightarrow> True | Some nm \<Rightarrow> length nm < 3000"
  shows "request_ok env s True
    (nl_header (16 + length (move_body index pid ifname)) RTM_NEWLINK (NLM_F_REQUEST OR NLM_F_ACK) @
      move_body index pid ifname)
    (lxc_netdev_move_by_index env index pid ifname s)"
  by (rule move_ok [OF assms])

lemma move_request_witness:
  "\<exists>err s' fd. lxc_netdev_move_by_index sample_net_env 7 4242 (Some (ascii ''eth0'')) sample_net = Some (err, s') \<and>
     n_fds s' = [] \<and> n_blocks s' = 0 \<and>
     EvSend fd (nl_header (16 + length (move_body 7 4242 (Some (ascii ''eth0'')))) RTM_NEWLINK (NLM_F_REQUEST OR NLM_F_ACK) @
       move_body 7 4242 (Some (ascii ''eth0''))) \<in> set (n_trace s')"
proof -
  have "length (ascii ''eth0'') < 3000" by (simp add: ascii_def)
  then show ?thesis
    using request_ok_sample [OF move_request [OF sample_good_net, of "Some (ascii ''eth0'')" sample_net 7 4242]] by simp
qed

lemma numeral_eq_four: "(4::nat) = Suc (Suc (Suc (Suc 0)))"
  by simp

section \<open>The functions that use \<open>ioctl\<close>\<close>

text \<open>The kernel answers an \<open>ioctl\<close> with a whole \<open>struct ifreq\<close>.\<close>

definition ifreq_ok :: "net_env \<Rightarrow> bool" where
  "ifreq_ok env \<longleftrightarrow> (\<forall>s ifr'. k_ioctl env s = Inr ifr' \<longrightarrow> length ifr' = 40)"

text \<open>\<open>ifr_name\<close> with the name cut to 15 characters and zeros behind it.\<close>

definition padded_name :: "cstring \<Rightarrow> u8 list" where
  "padded_name name = take 15 name @ replicate (16 - length (take 15 name)) 0"

lemma ifr_name:
  assumes "length ifr = 40"
  shows "do {
      ifr \<leftarrow> put_bytes 0 (take (IFNAMSIZ - 1) name @ replicate (IFNAMSIZ - 1 - length (take (IFNAMSIZ - 1) name)) 0) ifr;
      ifr \<leftarrow> put_bytes (IFNAMSIZ - 1) [0] ifr;
      put_le 16 4 v ifr
    } = Some (padded_name name @ le_bytes 4 v @ drop 20 ifr)"
proof -
  let ?n = "take 15 name @ replicate (15 - length (take 15 name)) 0"
  have n: "length ?n = 15" by simp
  have d: "drop 15 ifr = ifr ! 15 # drop 16 ifr" "drop 4 (drop 16 ifr) = drop 20 ifr"
    using assms by (simp_all add: Cons_nth_drop_Suc [of 15 ifr, symmetric])
  have p: "padded_name name = ?n @ [0]"
  proof -
    have "16 - length (take 15 name) = (15 - length (take 15 name)) + 1" by simp
    then show ?thesis unfolding padded_name_def by (simp only: replicate_add) simp
  qed
  have e1: "put_bytes 0 ?n ifr = Some (?n @ drop 15 ifr)"
    using assms n by (simp add: put_bytes_def del: length_append)
  have e2: "put_bytes 15 [0] (?n @ [ifr ! 15] @ drop 16 ifr) = Some (?n @ [0] @ drop 16 ifr)"
    by (rule put_bytes_append) (simp_all only: n list.size)
  have e3: "put_le 16 4 v ((?n @ [0]) @ drop 16 ifr) = Some ((?n @ [0]) @ le_bytes 4 v @ drop 20 ifr)"
    using n assms d(2) by (simp add: put_le_def put_bytes_def del: length_take length_replicate)
  show ?thesis using e1 e2 e3 p d(1) by (simp add: IFNAMSIZ_def)
qed

lemma ioctls_ok:
  assumes "length ifr = 40" and "ifreq_ok env"
  shows "(\<exists>err s'. lxc_bridge_attach env ifr bridge ifname s = Some (err, s') \<and> n_fds s' = n_fds s \<and>
      n_blocks s' = n_blocks s \<and>
      (if length ifname \<ge> 16 \<or> k_nametoindex env s ifname = 0 then err = - int EINVAL \<and> s' = s
       else \<forall>fd. k_socket env s = Inr fd \<longrightarrow> n_trace s' = n_trace s @ [EvSocket AF_INET SOCK_STREAM 0,
         EvIoctl fd SIOCBRADDIF (padded_name bridge @ le_bytes 4 (unat (k_nametoindex env s ifname)) @ drop 20 ifr),
         EvClose fd])) \<and>
    (\<exists>err s'. setup_private_host_hw_addr env ifr veth s = Some (err, s') \<and> n_fds s' = n_fds s \<and>
      n_blocks s' = n_blocks s \<and>
      (\<forall>fd req bytes. EvIoctl fd req bytes \<in> set (drop (length (n_trace s)) (n_trace s')) \<longrightarrow>
         req = SIOCGIFHWADDR \<or> req = SIOCSIFHWADDR \<and> bytes ! 18 = 0xfe))"
proof
  let ?i = "unat (k_nametoindex env s ifname)"
  show "\<exists>err s'. lxc_bridge_attach env ifr bridge ifname s = Some (err, s') \<and> n_fds s' = n_fds s \<and>
      n_blocks s' = n_blocks s \<and>
      (if length ifname \<ge> 16 \<or> k_nametoindex env s ifname = 0 then err = - int EINVAL \<and> s' = s
       else \<forall>fd. k_socket env s = Inr fd \<longrightarrow> n_trace s' = n_trace s @ [EvSocket AF_INET SOCK_STREAM 0,
         EvIoctl fd SIOCBRADDIF (padded_name bridge @ le_bytes 4 ?i @ drop 20 ifr), EvClose fd])"
  proof (cases "length ifname \<ge> 16 \<or> k_nametoindex env s ifname = 0")
    case True
    then show ?thesis by (auto simp: lxc_bridge_attach_def IFNAMSIZ_def)
  next
    case False
    obtain b1 b2 where b: "put_bytes 0 (take (IFNAMSIZ - 1) bridge @
        replicate (IFNAMSIZ - 1 - length (take (IFNAMSIZ - 1) bridge)) 0) ifr = Some b1"
      "put_bytes (IFNAMSIZ - 1) [0] b1 = Some b2"
      "put_le 16 4 ?i b2 = Some (padded_name bridge @ le_bytes 4 ?i @ drop 20 ifr)"
      using ifr_name [OF assms(1), of bridge ?i] by (auto simp: bind_eq_Some_conv)
    show ?thesis using False b
      by (cases "k_socket env s")
        (auto simp: lxc_bridge_attach_def sys_socket_def sys_ioctl_def sys_close_def log_event_def Let_def IFNAMSIZ_def
          split: sum.split)
  qed
  show "\<exists>err s'. setup_private_host_hw_addr env ifr veth s = Some (err, s') \<and> n_fds s' = n_fds s \<and>
      n_blocks s' = n_blocks s \<and>
      (\<forall>fd req bytes. EvIoctl fd req bytes \<in> set (drop (length (n_trace s)) (n_trace s')) \<longrightarrow>
         req = SIOCGIFHWADDR \<or> req = SIOCSIFHWADDR \<and> bytes ! 18 = 0xfe)"
  proof (cases "k_socket env s")
    case (Inl e)
    then show ?thesis
      by (auto simp: setup_private_host_hw_addr_def sys_socket_def log_event_def)
  next
    case (Inr fd)
    have "length (take (IFNAMSIZ - 1) veth @ [0]) \<le> 40" by (simp add: IFNAMSIZ_def)
    then obtain b1 where b1: "put_bytes 0 (take (IFNAMSIZ - 1) veth @ [0]) ifr = Some b1"
      using assms(1) by (simp add: put_bytes_def del: length_append)
    have b2: "\<exists>b2. put_bytes 18 [0xfe] ifr' = Some b2 \<and> b2 ! 18 = 0xfe" if "k_ioctl env s0 = Inr ifr'" for s0 ifr'
      using assms(2) that by (auto simp: ifreq_ok_def put_bytes_def nth_append)
    show ?thesis using Inr b1 b2
      by (fastforce simp: setup_private_host_hw_addr_def sys_socket_def sys_ioctl_def sys_close_def log_event_def Let_def
          split: sum.split)
  qed
qed



section \<open>Without undefined behaviour\<close>

text \<open>What a caller that only goes on needs: the call returns and leaves the heap as it was.\<close>

lemma request_ok_returns:
  "request_ok env s sends msg res \<Longrightarrow> \<exists>err s'. res = Some (err, s') \<and> n_blocks s' = n_blocks s"
  unfolding request_ok_def by blast

lemma set_flag_returns:
  assumes "good_net env"
  shows "\<exists>err s'. netdev_set_flag env name flag s = Some (err, s') \<and> n_blocks s' = n_blocks s"
proof -
  let ?check = "if bad_name name then Some (- int EINVAL) else None"
  let ?build = "\<lambda>s' m. let index = k_nametoindex env s' name in
          if index = 0 then Some (Inl (- int EINVAL))
          else do {
            m \<leftarrow> set_hdr_flags (NLM_F_REQUEST OR NLM_F_ACK) m;
            m \<leftarrow> set_hdr_type RTM_NEWLINK m;
            (r, m) \<leftarrow> nlmsg_reserve sizeof_ifinfomsg m;
            ifi \<leftarrow> r;
            m \<leftarrow> put_field ifi 1 AF_UNSPEC m;
            m \<leftarrow> put_field (ifi + 4) 4 (unat index) m;
            change \<leftarrow> get_le (ifi + 12) 4 (nm_buf m);
            m \<leftarrow> put_field (ifi + 12) 4 (change OR unat IFF_UP) m;
            flags \<leftarrow> get_le (ifi + 8) 4 (nm_buf m);
            m \<leftarrow> put_field (ifi + 8) 4 (flags OR unat flag) m;
            Some (Inr m)
          }"
  have "builds (?build s') True (\<lambda>_. True)" for s'
    using set_flag_builds [of "k_nametoindex env s' name" flag] unfolding builds_def Let_def by meson
  then show ?thesis
    using route_request_frame [OF assms, of ?check ?build True "\<lambda>_. True" s]
    unfolding netdev_set_flag_def by blast
qed

section \<open>A kernel that accepts everything\<close>

text \<open>
  Every call succeeds and every request is acknowledged with the error 0; then the frame returns 0.
\<close>

definition kernel_accepts :: "net_env \<Rightarrow> bool" where
  "kernel_accepts env \<longleftrightarrow> (\<forall>s n. k_malloc env s n) \<and> (\<forall>s. fst (netlink_open env NETLINK_ROUTE s) = 0) \<and>
     (\<forall>s. \<exists>n. k_sendmsg env s = Inr n) \<and> (\<forall>s. k_recvmsg env s = Inr (nl_header 36 NLMSG_ERROR 0 @ replicate 20 0))"

text \<open>A kernel that accepts one message, whatever it makes of others.\<close>

definition kernel_takes :: "net_env \<Rightarrow> u8 list \<Rightarrow> bool" where
  "kernel_takes env msg \<longleftrightarrow> (\<forall>s n. k_malloc env s n) \<and> (\<forall>s. fst (netlink_open env NETLINK_ROUTE s) = 0) \<and>
     (\<forall>s. \<exists>n. k_sendmsg env s = Inr n) \<and>
     (\<forall>fd s. k_recvmsg env (log_event (EvSend fd msg) s) = Inr (nl_header 36 NLMSG_ERROR 0 @ replicate 20 0))"

lemma accepts_takes: "kernel_accepts env \<Longrightarrow> kernel_takes env msg"
  by (simp add: kernel_accepts_def kernel_takes_def)

text \<open>What a process has asked the kernel to set up: messages sent, and interfaces put under a bridge.\<close>

datatype request = Message "u8 list" | AddToBridge "u8 list"

fun requests :: "net_event list \<Rightarrow> request list" where
  "requests [] = []"
| "requests (EvSend fd bytes # es) = Message bytes # requests es"
| "requests (EvIoctl fd req bytes # es) = (if req = SIOCBRADDIF then [AddToBridge bytes] else []) @ requests es"
| "requests (_ # es) = requests es"

abbreviation asked :: "net \<Rightarrow> request list" where
  "asked s \<equiv> requests (n_trace s)"

lemma requests_append [simp]: "requests (xs @ ys) = requests xs @ requests ys"
  by (induction xs rule: requests.induct) simp_all

named_theorems asked_simps "calls that ask for nothing"

lemma asked_malloc [asked_simps]: "asked (snd (sys_malloc env n s)) = asked s" "asked (sys_free s) = asked s"
  by (simp_all add: sys_malloc_def sys_free_def log_event_def Let_def)

lemma asked_socket [asked_simps]: "asked (snd (sys_socket env d t p s)) = asked s" "asked (sys_close fd s) = asked s"
  by (simp_all add: sys_socket_def sys_close_def log_event_def Let_def split: sum.split)

lemma asked_open: "netlink_open env p s = (r, h, s') \<Longrightarrow> asked s' = asked s"
  by (auto simp: netlink_open_def sys_socket_def log_event_def Let_def split: sum.splits option.splits if_splits)

lemma asked_alloc: "nlmsg_alloc env n s = (m, s') \<Longrightarrow> asked s' = asked s"
  using asked_simps by (auto simp: nlmsg_alloc_def Let_def split: prod.splits if_splits) (metis snd_conv)+

lemma asked_alloc_reserve: "nlmsg_alloc_reserve env n s = (m, s') \<Longrightarrow> asked s' = asked s"
  using asked_alloc [of env n s] by (auto simp: nlmsg_alloc_reserve_def Let_def split: prod.splits option.splits if_splits)

lemma asked_out [asked_simps]: "asked (request_out h m a s) = asked s"
  by (simp add: request_out_def netlink_close_def nlmsg_free_def asked_simps split: option.split)

lemma transaction_taken:
  assumes "msg_repr m ty fl body" and "h_fd h = Some fd" and "hdr_len answer = Some n" and "36 \<le> n"
    and "n \<le> length (nm_buf answer)" and "kernel_takes env (nl_header (16 + length body) ty fl @ body)"
  shows "\<exists>a s'. netlink_transaction env h m answer s = Some (0, a, s') \<and>
    asked s' = asked s @ [Message (nl_header (16 + length body) ty fl @ body)]"
proof -
  let ?msg = "nl_header (16 + length body) ty fl @ body"
  let ?s = "log_event (EvSend fd ?msg) s"
  have "k_recvmsg env ?s = Inr (nl_header 36 NLMSG_ERROR 0 @ le_bytes 4 (unat (0 :: u32)) @ replicate 16 0)"
    using assms(6) by (simp add: kernel_takes_def le_bytes_zero zeros_split [symmetric])
  then have r: "recv_loop env fd n ?s = Some (Inr (nl_header 36 NLMSG_ERROR 0 @ le_bytes 4 (unat (0 :: u32)) @
      replicate 16 0), log_event (EvRecv fd n) ?s)"
    by (subst recv_loop.simps) simp
  obtain sent where "k_sendmsg env s = Inr sent" using assms(6) unfolding kernel_takes_def by blast
  moreover have "20 \<le> n" "(36 :: nat) < 2 ^ 32" using assms(4) by simp_all
  ultimately obtain a where "netlink_transaction env h m answer s = Some (if n < length (nl_header 36 NLMSG_ERROR 0 @
      le_bytes 4 (unat (0 :: u32)) @ replicate 16 0) \<and> 36 = n then - int EMSGSIZE else sint (0 :: u32), a,
      log_event (EvRecv fd n) ?s)"
    using transaction_error [OF assms(1,2) _ assms(3) _ assms(5) r refl] by blast
  moreover have "length (nl_header 36 NLMSG_ERROR 0 @ le_bytes 4 (unat (0 :: u32)) @ replicate 16 0) = 36"
    by simp
  moreover have "asked (log_event (EvRecv fd n) ?s) = asked s @ [Message ?msg]" by (simp add: log_event_def)
  ultimately show ?thesis using assms(4) by (auto simp: not_less)
qed

lemmas transaction_accepted = transaction_taken [OF _ _ _ _ _ accepts_takes]

lemma request_taken:
  assumes "good_net env" and "kernel_takes env msg" and "\<And>s. builds (build s) False (\<lambda>bytes. bytes = msg)"
  shows "\<exists>s'. route_request env None build s = Some (0, s') \<and> asked s' = asked s @ [Message msg]"
proof -
  have k: "\<forall>s n. k_malloc env s n" using assms(2) by (simp add: kernel_takes_def)
  obtain h s1 where o: "netlink_open env NETLINK_ROUTE s = (0, h, s1)"
    using assms(2) unfolding kernel_takes_def by (metis prod.collapse)
  obtain fd where fd: "h_fd h = Some fd"
    using netlink_open_zero [OF o refl] assms(1) by (auto simp: good_net_def)
  obtain m s2 where a: "nlmsg_alloc env NLMSG_GOOD_SIZE s1 = (Some m, s2)" "msg_repr m 0 0 []" "nm_cap m = 8208"
    using nlmsg_alloc_spec [OF good_size(2), of env s1] nlmsg_alloc_None [of env NLMSG_GOOD_SIZE s1] k by auto
  obtain answer s3 where aa: "nlmsg_alloc_reserve env NLMSG_GOOD_SIZE s2 = (Some answer, s3)"
    "msg_repr answer 0 0 (replicate 8192 0)"
    using nlmsg_alloc_reserve_spec [OF good_size(2), of env s2] nlmsg_alloc_reserve_None [of env s2] k by auto
  obtain m' ty fl body where b: "build s3 m = Some (Inr m')" "msg_repr m' ty fl body"
    "nl_header (16 + length body) ty fl @ body = msg"
    using assms(3) [of s3] a(2,3) unfolding builds_def by blast
  have "hdr_len answer = Some 8208" "length (nm_buf answer) = nm_cap answer" "8208 \<le> nm_cap answer"
    using hdr_len_repr [OF aa(2)] msg_repr_len [OF aa(2)] aa(2) by (simp_all add: msg_repr_def)
  then obtain x s4 where "netlink_transaction env h m' answer s3 = Some (0, x, s4)" "asked s4 = asked s3 @ [Message msg]"
    using transaction_taken [OF b(2) fd _ _ _ assms(2) [folded b(3)], of answer 8208 s3] b(3) by auto
  moreover have "asked s3 = asked s"
    using asked_open [OF o] asked_alloc [OF a(1)] asked_alloc_reserve [OF aa(1)] by simp
  ultimately show ?thesis using o a(1) aa(1) b(1) by (simp add: route_request_def asked_simps)
qed

text \<open>The messages of the functions that the containers use.\<close>

definition veth_message :: "cstring \<Rightarrow> cstring \<Rightarrow> u8 list" where
  "veth_message name1 name2 =
     nl_header (16 + length (veth_body name1 name2)) RTM_NEWLINK veth_flags @ veth_body name1 name2"

definition up_message :: "u32 \<Rightarrow> u8 list" where
  "up_message index =
     nl_header 32 RTM_NEWLINK (NLM_F_REQUEST OR NLM_F_ACK) @ ifinfomsg (unat index) (unat IFF_UP) 1"

definition move_message_of :: "u32 \<Rightarrow> u32 \<Rightarrow> cstring option \<Rightarrow> u8 list" where
  "move_message_of index pid name = nl_header (16 + length (move_body index pid name)) RTM_NEWLINK
     (NLM_F_REQUEST OR NLM_F_ACK) @ move_body index pid name"

definition addr_message :: "u32 \<Rightarrow> nat \<Rightarrow> u8 list \<Rightarrow> u8 list \<Rightarrow> u8 list" where
  "addr_message index prefix addr bcast = nl_header (16 + length (addr_body (unat index) prefix addr bcast))
     RTM_NEWADDR create_flags @ addr_body (unat index) prefix addr bcast"

definition gateway_message :: "u32 \<Rightarrow> u8 list \<Rightarrow> u8 list" where
  "gateway_message index gw = nl_header (16 + length (gateway_body (unat index) gw)) RTM_NEWROUTE create_flags @
     gateway_body (unat index) gw"

lemmas request_accepted = request_taken [OF _ accepts_takes]

lemma veth_create_taken:
  assumes "good_net env" and "kernel_takes env (veth_message v0 v1)" and "\<not> bad_name v0" and "\<not> bad_name v1"
  shows "\<exists>s'. lxc_veth_create env v0 v1 s = Some (0, s') \<and> asked s' = asked s @ [Message (veth_message v0 v1)]"
  using request_taken [OF assms(1) assms(2) [unfolded veth_message_def] veth_builds [OF assms(3,4)]] assms(3,4)
  unfolding lxc_veth_create_def veth_message_def by simp

lemmas veth_create_accepted = veth_create_taken [OF _ accepts_takes]

lemma netdev_up_accepted:
  assumes "good_net env" and "kernel_accepts env" and "\<not> bad_name name" and "\<And>s. k_nametoindex env s name = index" and "index \<noteq> 0"
  shows "\<exists>s'. lxc_netdev_up env name s = Some (0, s') \<and> asked s' = asked s @ [Message (up_message index)]"
proof -
  have "builds (\<lambda>m. if index = 0 then Some (Inl (- int EINVAL)) else rest m) (index = 0) good \<Longrightarrow>
      builds rest False good" for rest :: "nlmsg \<Rightarrow> (int + nlmsg) option" and good
    using assms(5) by (simp add: builds_def)
  from this [OF set_flag_builds [of index IFF_UP]] show ?thesis
    unfolding lxc_netdev_up_def netdev_set_flag_def Let_def assms(4) up_message_def
    using request_accepted [OF assms(1,2), where s = s] assms(3,5) by simp
qed

lemma addr_add_taken:
  assumes "good_net env" and "kernel_takes env (addr_message i n a b)" and "4 \<le> length a" and "4 \<le> length b"
  shows "\<exists>s'. lxc_ipv4_addr_add env i a b n s = Some (0, s') \<and> asked s' = asked s @ [Message (addr_message i n a b)]"
  unfolding lxc_ipv4_addr_add_def ip_addr_add_def Let_def addr_message_def
  by (rule request_taken [OF assms(1) assms(2) [unfolded addr_message_def]], rule addr_builds [OF assms(3,4)])

lemmas addr_add_accepted = addr_add_taken [OF _ accepts_takes]

lemma gateway_add_accepted:
  assumes "good_net env" and "kernel_accepts env" and "4 \<le> length gw"
  shows "\<exists>s'. lxc_ipv4_gateway_add env i gw s = Some (0, s') \<and> asked s' = asked s @ [Message (gateway_message i gw)]"
  unfolding lxc_ipv4_gateway_add_def ip_gateway_add_def Let_def gateway_message_def
  by (rule request_accepted [OF assms(1,2)], rule builds_mono [OF route_builds [OF assms(3)]])
    (simp_all add: gateway_body_def Let_def addr_len_def)

lemma sample_accepts: "kernel_accepts sample_net_env"
  by (simp add: kernel_accepts_def sample_net_env_def netlink_open_def sys_socket_def sizeof_sockaddr_nl_def
      AF_NETLINK_def NLMSG_ERROR_def)

end
