(* ===== verification/LxcNames.thy ===== *)
theory LxcNames
  imports LxcNetwork
begin

unbundle bit_operations_syntax

text \<open>
  Properties of the hardware addresses and interface names of
  \<open>toy_docker/step_network/lxc_network/network.c\<close>: the parser of addresses is safe and reads what
  \<open>new_hwaddr\<close> prints, \<open>setup_hw_addr\<close> reads behind a short name, and \<open>lxc_mkifname\<close> finds a free
  name.
\<close>

section \<open>Hardware addresses and names\<close>

lemma char_at_inside: "p \<le> length mac \<Longrightarrow> \<exists>c. char_at mac p = Some c \<and> (c \<noteq> 0 \<longrightarrow> p < length mac)"
  by (simp add: char_at_def)

lemma mac_loop_total:
  "p \<le> length mac \<Longrightarrow> \<exists>r d. mac_loop mac p i = Some (r, d) \<and> length d \<le> ETH_ALEN - i \<and> (r = 0 \<or> r = - int EINVAL)"
proof (induction "ETH_ALEN - i" arbitrary: p i)
  case 0
  then show ?case using char_at_inside [of p mac] by (auto simp: mac_loop.simps [of mac p i])
next
  case (Suc n)
  obtain c where c: "char_at mac p = Some c" "c \<noteq> 0 \<longrightarrow> p < length mac"
    using char_at_inside [OF Suc.prems] by blast
  show ?case
  proof (cases "c = 0 \<or> hex_digit c = None")
    case True
    then show ?thesis using c Suc.hyps(2) by (auto simp: mac_loop.simps [of mac p i])
  next
    case False
    then obtain hi where hi: "c \<noteq> 0" "hex_digit c = Some hi" by auto
    obtain c2 where c2: "char_at mac (p + 1) = Some c2" "c2 \<noteq> 0 \<longrightarrow> p + 1 < length mac"
      using char_at_inside [of "p + 1" mac] c(2) hi(1) by auto
    define val where "val = (case hex_digit c2 of
                Some lo \<Rightarrow> Some (hi * 16 + lo)
              | None \<Rightarrow> if c2 = 58 \<or> c2 = 0 then Some hi else None)"
    define p2 where "p2 = (if c2 \<noteq> 0 then p + 2 else p + 1)"
    have p2: "p2 \<le> length mac" using c(2) c2(2) hi(1) by (auto simp: p2_def)
    obtain c3 where c3: "char_at mac p2 = Some c3" "c3 \<noteq> 0 \<longrightarrow> p2 < length mac"
      using char_at_inside [OF p2] by blast
    let ?p3 = "if c3 = 58 then p2 + 1 else p2"
    have p3: "?p3 \<le> length mac" using p2 c3(2) by auto
    have i: "i < ETH_ALEN" using Suc.hyps(2) by simp
    have n: "n = ETH_ALEN - (i + 1)" using Suc.hyps(2) by simp
    obtain r d where IH: "mac_loop mac ?p3 (i + 1) = Some (r, d)" "length d \<le> ETH_ALEN - (i + 1)"
      "r = 0 \<or> r = - int EINVAL"
      using Suc.hyps(1) [OF n p3] by blast
    have eq: "mac_loop mac p i = (case val of
               None \<Rightarrow> Some (- int EINVAL, [])
             | Some v \<Rightarrow> do {
                 (r, rest) \<leftarrow> mac_loop mac ?p3 (i + 1);
                 Some (r, word_of_nat v # rest)
               })"
      using c(1) hi c2(1) c3(1) n Suc.hyps(2) i
      by (simp add: mac_loop.simps [of mac p i] val_def [symmetric] p2_def [symmetric] cong: option.case_cong)
    show ?thesis using eq IH Suc.hyps(2) by (cases val) auto
  qed
qed

lemma hex_digit_char: "d < 16 \<Longrightarrow> hex_digit (hex_char d) = Some d"
proof -
  assume d: "d < 16"
  have u: "unat (hex_char d) = (if d < 10 then 48 + d else 87 + d)"
    using d unfolding hex_char_def by (auto simp del: of_nat_add simp: unsigned_of_nat take_bit_eq_mod)
  show ?thesis using d by (auto simp: hex_digit_def u Let_def)
qed

lemma hex_char_kind: "d < 16 \<Longrightarrow> hex_char d \<noteq> 0 \<and> hex_char d \<noteq> 58"
  using hex_digit_char [of d] by (auto simp: hex_digit_def)

text \<open>Six bytes printed with two digits each and colons between them.\<close>

fun mac_string :: "nat list \<Rightarrow> cstring" where
  "mac_string [] = []"
| "mac_string [b] = hex02 b"
| "mac_string (b # bs) = hex02 b @ [58] @ mac_string bs"

lemma hex02_length [simp]: "length (hex02 n) = 2"
  by (simp add: hex02_def)

lemma mac_loop_string:
  assumes "i + length bs = ETH_ALEN" and "\<forall>b \<in> set bs. b < 256"
  shows "mac_loop (pre @ mac_string bs) (length pre) i = Some (0, map word_of_nat bs)"
  using assms
proof (induction bs arbitrary: pre i rule: mac_string.induct)
  case 1
  then show ?case by (simp add: mac_loop.simps [of _ _ ETH_ALEN] char_at_def)
next
  case (2 b)
  have d: "b div 16 < 16" "b mod 16 < 16" "b div 16 * 16 + b mod 16 = b" using 2 by simp_all
  have i: "i < ETH_ALEN" "\<not> Suc i < ETH_ALEN" using 2 by simp_all
  show ?case using i d hex_char_kind [OF d(1)] hex_char_kind [OF d(2)] hex_digit_char [OF d(1)] hex_digit_char [OF d(2)]
    by (simp add: mac_loop.simps [of _ "length pre" i] mac_loop.simps [of _ "Suc (Suc (length pre))" "Suc i"]
        char_at_def hex02_def nth_append)
next
  case (3 b c bs)
  have "b < 256" using 3 by simp
  then have d: "b div 16 < 16" "b mod 16 < 16" "b div 16 * 16 + b mod 16 = b" by simp_all
  have i: "i < ETH_ALEN" using 3 by simp
  have IH: "mac_loop ((pre @ hex02 b @ [58]) @ mac_string (c # bs)) (length (pre @ hex02 b @ [58])) (Suc i) =
      Some (0, map word_of_nat (c # bs))"
    using 3 by (intro "3.IH") auto
  then show ?case using i d hex_char_kind [OF d(1)] hex_char_kind [OF d(2)] hex_digit_char [OF d(1)] hex_digit_char [OF d(2)]
    by (simp add: mac_loop.simps [of _ "length pre" i] char_at_def hex02_def nth_append)
qed

lemma convert_family:
  assumes "length sockaddr = 16"
  shows "put_le 0 2 ARPHRD_ETHER sockaddr = Some ([1, 0] @ drop 2 sockaddr)"
proof -
  have e: "le_bytes 2 ARPHRD_ETHER = [1, 0]"
    by (simp add: ARPHRD_ETHER_def numeral_2_eq_2)
  have d2: "drop (Suc (Suc 0)) sockaddr = drop 2 sockaddr" by (simp add: numeral_2_eq_2)
  show ?thesis
    using assms by (simp add: put_le_def put_bytes_def e d2)
qed

lemma convert_new_hwaddr:
  assumes "length sockaddr = 16"
  shows "lxc_convert_mac (new_hwaddr r1 r2 r3) sockaddr = Some (0,
      [1, 0, 0, 0x16, 0x3e, word_of_nat (r1 mod 255), word_of_nat (r2 mod 255), word_of_nat (r3 mod 255)] @
      drop 8 sockaddr)"
proof -
  let ?bs = "[0, 0x16, 0x3e, r1 mod 255, r2 mod 255, r3 mod 255]"
  have "hex02 0 = ascii ''00''" "hex02 0x16 = ascii ''16''" "hex02 0x3e = ascii ''3e''"
    by (simp_all add: hex02_def hex_char_def ascii_def)
  moreover have "ascii ''00:16:3e:'' = ascii ''00'' @ [58] @ ascii ''16'' @ [58] @ ascii ''3e'' @ [58]"
    by (simp add: ascii_def)
  ultimately have p: "ascii ''00:16:3e:'' @ hex02 (r1 mod 255) @ [58] @ hex02 (r2 mod 255) @ [58] @
      hex02 (r3 mod 255) = mac_string ?bs"
    by simp
  have "length (mac_string ?bs) = 17" by simp
  then have "new_hwaddr r1 r2 r3 = mac_string ?bs"
    unfolding new_hwaddr_def p by simp
  moreover have "r mod 255 < 256" for r :: nat by (rule less_trans [of _ 255]) simp_all
  then have "\<forall>b \<in> set ?bs. b < 256" by simp
  ultimately have "mac_loop (new_hwaddr r1 r2 r3) 0 0 = Some (0, map word_of_nat ?bs)"
    using mac_loop_string [of 0 ?bs "[]"] by (simp add: ETH_ALEN_def)
  then show ?thesis
    using convert_family [OF assms] assms by (simp add: lxc_convert_mac_def put_bytes_def)
qed

text \<open>
  C27: \<open>lxc_convert_mac\<close> is safe on every string: it never reads behind the terminating NUL nor
  writes behind the six address bytes, sets the family, and returns 0 or \<open>-EINVAL\<close>; and it reads
  back what \<open>new_hwaddr\<close> prints, whatever \<open>rand\<close> returned: the prefix 00:16:3e and three bytes
  below 255.
\<close>

theorem convert_mac_safe_roundtrip:
  assumes "length sockaddr = 16"
  shows "(\<exists>r sa. lxc_convert_mac mac sockaddr = Some (r, sa) \<and> (r = 0 \<or> r = - int EINVAL) \<and>
      length sa = 16 \<and> take 2 sa = [1, 0] \<and> drop 8 sa = drop 8 sockaddr) \<and>
    lxc_convert_mac (new_hwaddr r1 r2 r3) sockaddr = Some (0,
      [1, 0, 0, 0x16, 0x3e, word_of_nat (r1 mod 255), word_of_nat (r2 mod 255), word_of_nat (r3 mod 255)] @
      drop 8 sockaddr)"
proof
  have sa: "put_le 0 2 ARPHRD_ETHER sockaddr = Some ([1, 0] @ drop 2 sockaddr)"
    by (rule convert_family [OF assms])
  obtain r d where m: "mac_loop mac 0 0 = Some (r, d)" "length d \<le> ETH_ALEN" "r = 0 \<or> r = - int EINVAL"
    using mac_loop_total [of 0 mac 0] by auto
  then have "length d \<le> 6" by (simp add: ETH_ALEN_def)
  then show "\<exists>r sa. lxc_convert_mac mac sockaddr = Some (r, sa) \<and> (r = 0 \<or> r = - int EINVAL) \<and>
      length sa = 16 \<and> take 2 sa = [1, 0] \<and> drop 8 sa = drop 8 sockaddr"
    using m sa assms by (auto simp: lxc_convert_mac_def put_bytes_def)
  show "lxc_convert_mac (new_hwaddr r1 r2 r3) sockaddr = Some (0,
      [1, 0, 0, 0x16, 0x3e, word_of_nat (r1 mod 255), word_of_nat (r2 mod 255), word_of_nat (r3 mod 255)] @
      drop 8 sockaddr)"
    by (rule convert_new_hwaddr [OF assms])
qed

lemma convert_mac_safe_roundtrip_witness:
  "lxc_convert_mac (new_hwaddr 511 16 7) (replicate 16 0) =
     Some (0, [1, 0, 0, 0x16, 0x3e, 1, 16, 7] @ replicate 8 0)"
  using convert_mac_safe_roundtrip [of "replicate 16 0" "[]" 511 16 7] by simp

lemma fill_name_calls: "snd (fill_name rnd n t) = n + count_list t 88"
  by (induction t arbitrary: n) (auto split: prod.split simp: Let_def dest: arg_cong [where f = snd])

text \<open>A name made from a template: the same but for the characters \<open>X\<close>, which become one of 0 to Y.\<close>

definition from_template :: "cstring \<Rightarrow> cstring \<Rightarrow> bool" where
  "from_template t name \<longleftrightarrow>
     list_all2 (\<lambda>c d. if c = 88 then d \<in> set (take 35 padchar) else d = c) t name"

lemma fill_name_template: "from_template t (fst (fill_name rnd n t))"
proof (induction t arbitrary: n)
  case (Cons c cs)
  have len: "length padchar = 36" by (simp add: padchar_def ascii_def)
  then have "rnd n mod 35 < length (take 35 padchar)" by simp
  then have "take 35 padchar ! (rnd n mod 35) \<in> set (take 35 padchar)" by (rule nth_mem)
  then have "padchar ! (rnd n mod 35) \<in> set (take 35 padchar)" by simp
  then show ?case using Cons len by (simp add: from_template_def case_prod_beta Let_def cong: list.rel_cong)
qed (simp add: from_template_def)

text \<open>The loop runs until the first attempt that gives a free name.\<close>

lemma mkifname_loop_run:
  assumes "\<forall>n. dup n" and "fst (fill_name rnd (n + k * count_list t 88) t) \<notin> set names"
  shows "\<exists>j \<le> k. let name = fst (fill_name rnd (n + j * count_list t 88) t) in
    mkifname_loop dup rnd names t n = Some (Some name, False) \<and> name \<notin> set names"
  using assms(2)
proof (induction k arbitrary: n)
  case 0
  then show ?case using assms(1) by (auto simp: mkifname_loop.simps [of _ _ _ _ n] split: prod.split)
next
  case (Suc k)
  let ?x = "count_list t 88"
  obtain name n' where f: "fill_name rnd n t = (name, n')" by fastforce
  then have n': "n' = n + ?x" using fill_name_calls [of rnd n t] by simp
  show ?case
  proof (cases "name \<in> set names")
    case False
    then show ?thesis using assms(1) f
      by (intro exI [of _ 0]) (simp add: mkifname_loop.simps [of _ _ _ _ n])
  next
    case True
    then have eq: "mkifname_loop dup rnd names t n = mkifname_loop dup rnd names t n'"
      using assms(1) f by (simp add: mkifname_loop.simps [of _ _ _ _ n])
    obtain j where j: "j \<le> k" "let name = fst (fill_name rnd (n' + j * ?x) t) in
      mkifname_loop dup rnd names t n' = Some (Some name, False) \<and> name \<notin> set names"
      using Suc.IH [of n'] Suc.prems n' by (auto simp: algebra_simps)
    then show ?thesis using eq n' by (intro exI [of _ "Suc j"]) (simp add: Let_def algebra_simps)
  qed
qed

text \<open>
  C28: \<open>lxc_mkifname\<close> returns as soon as one of its attempts is a free name, and its result is no
  existing interface and the template with every \<open>X\<close> replaced by one of the characters 0 to Y (never
  Z: the code takes the remainder by one less than the number of characters).  Only when \<open>strdup\<close>
  fails does it leave the interface list allocated, and return NULL.
\<close>

theorem mkifname_fresh:
  assumes "\<forall>n. dup n" and "fst (fill_name rnd (k * count_list template 88) template) \<notin> set names"
  shows "\<exists>name. lxc_mkifname dup rnd (Some names) template = Some (Some name, False) \<and>
    name \<notin> set names \<and> from_template template name \<and> length name = length template \<and>
    (\<forall>i < length template. template ! i = 88 \<longrightarrow> name ! i \<noteq> 90)"
proof -
  obtain j where j: "mkifname_loop dup rnd names template 0 =
      Some (Some (fst (fill_name rnd (j * count_list template 88) template)), False)"
    "fst (fill_name rnd (j * count_list template 88) template) \<notin> set names"
    using mkifname_loop_run [OF assms(1), of rnd 0 k template names] assms(2) by (auto simp: Let_def)
  let ?name = "fst (fill_name rnd (j * count_list template 88) template)"
  have t: "from_template template ?name" by (rule fill_name_template)
  have z: "90 \<notin> set (take 35 padchar)" by (simp add: padchar_def ascii_def)
  have "length ?name = length template" using t by (simp add: from_template_def list_all2_lengthD)
  moreover have "template ! i = 88 \<longrightarrow> ?name ! i \<noteq> 90" if "i < length template" for i
    using list_all2_nthD [OF t [unfolded from_template_def] that] z by auto
  ultimately show ?thesis using j t by (auto simp: lxc_mkifname_def)
qed

lemma mkifname_fresh_witness:
  "\<exists>name. lxc_mkifname (\<lambda>_. True) (\<lambda>n. n) (Some [ascii ''veth01'']) (ascii ''vethXX'') = Some (Some name, False) \<and>
     name \<noteq> ascii ''veth01'' \<and> take 4 name = ascii ''veth''"
proof -
  have f: "count_list (ascii ''vethXX'') 88 = 2" by (simp add: ascii_def)
  have a: "fst (fill_name (\<lambda>n. n) (1 * 2) (ascii ''vethXX'')) \<notin> set [ascii ''veth01'']"
    by (simp add: ascii_def padchar_def)
  obtain name where n: "lxc_mkifname (\<lambda>_. True) (\<lambda>n. n) (Some [ascii ''veth01'']) (ascii ''vethXX'') = Some (Some name, False)"
    "name \<notin> set [ascii ''veth01'']" "from_template (ascii ''vethXX'') name"
    using mkifname_fresh [of "\<lambda>_. True" "\<lambda>n. n" 1 "ascii ''vethXX''" "[ascii ''veth01'']"] a f by auto
  then show ?thesis by (auto simp: from_template_def ascii_def list_all2_Cons1)
qed

text \<open>
  \<open>setup_hw_addr\<close> copies 16 bytes from the interface's name, however long the object is that the
  name is in.
\<close>

lemma setup_hw_addr_overread:
  assumes "length sockaddr = 16" and "length obj < 16"
  shows "setup_hw_addr env ifr sockaddr (new_hwaddr r1 r2 r3) obj s = None"
proof -
  obtain d where "lxc_convert_mac (new_hwaddr r1 r2 r3) sockaddr = Some (0, d)"
    using convert_new_hwaddr [OF assms(1)] by blast
  then show ?thesis using assms(2)
    by (simp add: setup_hw_addr_def get_bytes_def IFNAMSIZ_def)
qed

end
