(* ===== verification/ToyDocker.thy ===== *)
theory ToyDocker
  imports LxcRequests LxcNames
begin

unbundle bit_operations_syntax

text \<open>
  What the container programs under \<open>toy_docker\<close> do inside one process: the control group files,
  and the set-up of the network of \<open>step_network/toy_docker.c\<close>, in the parent (\<open>init_network\<close>) and
  in the container (\<open>start_network\<close>).  \<open>None\<close> is undefined behaviour; leaving by \<open>err_exit\<close> is a
  value.
\<close>

section \<open>Control group files\<close>

text \<open>\<open>sprintf\<close> with \<open>%d\<close>, into an array of \<open>n\<close> characters.\<close>

definition dec :: "int \<Rightarrow> cstring" where
  "dec v = (if v < 0 then 45 # dec_digits (nat (- v)) else dec_digits (nat v))"

definition sprintf_d :: "nat \<Rightarrow> int \<Rightarrow> cstring option" where
  "sprintf_d n v = (if length (dec v) < n then Some (dec v) else None)"

text \<open>
  The files written, in order.  \<open>opens\<close> tells which paths \<open>fopen\<close> opens; on the others the NULL it
  returns is used.
\<close>

type_synonym files = "(cstring \<times> cstring) list"

definition write_file :: "(cstring \<Rightarrow> bool) \<Rightarrow> cstring \<Rightarrow> cstring \<Rightarrow> files \<Rightarrow> files option" where
  "write_file opens path data fs = (if opens path then Some (fs @ [(path, data)]) else None)"

definition cfs_period_us :: int where "cfs_period_us = 100000"
definition cfs_quota_us :: int where "cfs_quota_us = 50 * 1000"
definition cpu_shares :: int where "cpu_shares = 512"

text \<open>The quota of \<open>step_cgroup/toy_docker.c\<close> differs.\<close>

definition step_cgroup_quota_us :: int where "step_cgroup_quota_us = 150 * 1000"

definition cgroup_file :: "string \<Rightarrow> cstring" where
  "cgroup_file name = ascii (''/sys/fs/cgroup/cpu/toy_docker/'' @ name)"

definition write_cgroup :: "(cstring \<Rightarrow> bool) \<Rightarrow> int \<Rightarrow> int \<Rightarrow> files \<Rightarrow> files option" where
  "write_cgroup opens quota pid fs = do {
     str \<leftarrow> sprintf_d 10 pid;
     fs \<leftarrow> write_file opens (cgroup_file ''cgroup.procs'') str fs;
     str \<leftarrow> sprintf_d 10 cfs_period_us;
     fs \<leftarrow> write_file opens (cgroup_file ''cpu.cfs_period_us'') str fs;
     str \<leftarrow> sprintf_d 10 quota;
     fs \<leftarrow> write_file opens (cgroup_file ''cpu.cfs_quota_us'') str fs;
     str \<leftarrow> sprintf_d 10 cpu_shares;
     write_file opens (cgroup_file ''cpu.shares'') str fs
   }"

text \<open>\<open>write_cgroup\<close> of \<open>step_cgroup/toy_docker.c\<close>, the same text with the other quota.\<close>

definition step_write_cgroup :: "(cstring \<Rightarrow> bool) \<Rightarrow> int \<Rightarrow> files \<Rightarrow> files option" where
  "step_write_cgroup opens pid fs = write_cgroup opens step_cgroup_quota_us pid fs"

section \<open>Addresses in dotted notation\<close>

text \<open>
  \<open>inet_pton\<close> for \<open>AF_INET\<close>: four numbers of one to three digits without a leading zero, none above
  255, with dots between.  On failure it returns 0 and leaves the address as it was, here empty.
\<close>

fun split_dots :: "cstring \<Rightarrow> cstring list" where
  "split_dots [] = [[]]"
| "split_dots (c # cs) =
     (if c = 46 then [] # split_dots cs
      else case split_dots cs of [] \<Rightarrow> [[c]] | p # ps \<Rightarrow> (c # p) # ps)"

definition digit_value :: "u8 \<Rightarrow> nat option" where
  "digit_value c = (if 48 \<le> unat c \<and> unat c \<le> 57 then Some (unat c - 48) else None)"

fun number :: "nat \<Rightarrow> cstring \<Rightarrow> nat option" where
  "number acc [] = Some acc"
| "number acc (c # cs) = do { d \<leftarrow> digit_value c; number (acc * 10 + d) cs }"

definition octet :: "cstring \<Rightarrow> u8 option" where
  "octet cs =
     (if cs = [] \<or> length cs > 3 \<or> (length cs > 1 \<and> hd cs = 48) then None
      else do { n \<leftarrow> number 0 cs; if n \<le> 255 then Some (word_of_nat n) else None })"

definition inet_pton4 :: "cstring \<Rightarrow> int \<times> u8 list" where
  "inet_pton4 s =
     (case map octet (split_dots s) of
        [Some a, Some b, Some c, Some d] \<Rightarrow> (1, [a, b, c, d])
      | _ \<Rightarrow> (0, []))"

section \<open>The network of the container\<close>

definition ip :: cstring where "ip = ascii ''192.168.0.102''"
definition broadcast :: cstring where "broadcast = ascii ''192.168.100.255''"
definition bridge_ip :: cstring where "bridge_ip = ascii ''192.168.0.100''"
definition network_mask :: nat where "network_mask = 8"
definition veth0buf :: cstring where "veth0buf = ascii ''veth00X''"
definition veth1buf :: cstring where "veth1buf = ascii ''veth01X''"

text \<open>
  What the functions find in memory and get from the library: the contents of the local \<open>ifreq\<close> and
  \<open>sockaddr\<close>, the object the literal \<open>"eth0"\<close> is in, three results of \<open>rand\<close>, and for the two
  interface names the results of \<open>strdup\<close> and \<open>rand\<close> and the existing interfaces.
\<close>

record surroundings =
  m_ifr :: "u8 list"
  m_sockaddr :: "u8 list"
  m_eth0 :: "u8 list"
  m_rand :: "nat \<times> nat \<times> nat"
  m_dup :: "nat \<Rightarrow> bool"
  m_rand0 :: "nat \<Rightarrow> nat"
  m_rand1 :: "nat \<Rightarrow> nat"
  m_names :: "cstring list option"

text \<open>The result tells whether the function returned (or left the program by \<open>err_exit\<close>).\<close>

definition start_network :: "net_env \<Rightarrow> surroundings \<Rightarrow> net \<Rightarrow> (bool \<times> net) option" where
  "start_network env mem s =
     (let (r1, ip_addr) = inet_pton4 ip;
          (r2, bcast_addr) = inet_pton4 broadcast;
          (r3, gateway) = inet_pton4 bridge_ip;
          if_index = k_nametoindex env s (ascii ''eth0'')
      in
      if r1 < 0 \<or> r2 < 0 \<or> r3 < 0 then Some (False, s)
      else if sint if_index < 0 then Some (False, s)
      else do {
        (err, s) \<leftarrow> lxc_ipv4_addr_add env if_index ip_addr bcast_addr network_mask s;
        if err < 0 then Some (False, s)
        else do {
          (_, s) \<leftarrow> lxc_netdev_up env (ascii ''lo'') s;
          (_, s) \<leftarrow> lxc_netdev_up env (ascii ''eth0'') s;
          (_, s) \<leftarrow> lxc_ipv4_gateway_add env if_index gateway s;
          let (d1, d2, d3) = m_rand mem;
          (_, s) \<leftarrow> setup_hw_addr env (m_ifr mem) (m_sockaddr mem) (new_hwaddr d1 d2 d3) (m_eth0 mem) s;
          Some (True, s)
        }
      })"

text \<open>
  The parent's part; the names of the pair of interfaces, or \<open>None\<close> if it left by \<open>err_exit\<close>.  The
  result of \<open>lxc_mkifname\<close> is used without a test for NULL.
\<close>

definition init_network :: "net_env \<Rightarrow> surroundings \<Rightarrow> net \<Rightarrow> ((cstring \<times> cstring) option \<times> net) option" where
  "init_network env mem s = do {
     (veth0, _) \<leftarrow> lxc_mkifname (m_dup mem) (m_rand0 mem) (m_names mem) veth0buf;
     (veth1, _) \<leftarrow> lxc_mkifname (m_dup mem) (m_rand1 mem) (m_names mem) veth1buf;
     veth0 \<leftarrow> veth0;
     veth1 \<leftarrow> veth1;
     (err, s) \<leftarrow> lxc_veth_create env veth0 veth1 s;
     if err < 0 then Some (None, s)
     else do {
       (_, s) \<leftarrow> setup_private_host_hw_addr env (m_ifr mem) veth0 s;
       (_, s) \<leftarrow> lxc_bridge_attach env (m_ifr mem) (ascii ''br0'') veth0 s;
       (_, s) \<leftarrow> lxc_netdev_up env veth0 s;
       Some (Some (veth0, veth1), s)
     }
   }"

section \<open>Bounds of the control group writes\<close>

lemma length_dec_digits: "n < 10 ^ k \<Longrightarrow> 0 < k \<Longrightarrow> length (dec_digits n) \<le> k"
proof (induction n arbitrary: k rule: dec_digits.induct)
  case (1 n)
  show ?case
  proof (cases "n < 10")
    case False
    then obtain j where k: "k = Suc j" "0 < j" using 1(2,3) by (cases k; cases "k - 1") auto
    then have "n div 10 < 10 ^ j" using 1(2) by (simp add: less_mult_imp_div_less mult.commute)
    then show ?thesis using 1(1) [OF False _ k(2)] False k(1) by (simp add: dec_digits.simps [of n])
  qed (use 1(3) in \<open>simp add: dec_digits.simps [of n]\<close>)
qed

lemma dec_digits_long: "10 ^ k \<le> n \<Longrightarrow> k < length (dec_digits n)"
proof (induction n arbitrary: k rule: dec_digits.induct)
  case (1 n)
  show ?case
  proof (cases "n < 10")
    case True
    have "k = 0"
    proof (rule ccontr)
      assume "k \<noteq> 0"
      then have "(10 :: nat) \<le> 10 ^ k" by (intro self_le_power) simp_all
      then show False using True 1(2) by simp
    qed
    then show ?thesis using True by (simp add: dec_digits.simps [of n])
  next
    case False
    show ?thesis
    proof (cases k)
      case (Suc j)
      then have "10 ^ j \<le> n div 10" using 1(2) by (simp add: less_eq_div_iff_mult_less_eq mult.commute)
      then show ?thesis using 1(1) [OF False] False Suc by (simp add: dec_digits.simps [of n])
    qed (simp add: dec_digits.simps [of n])
  qed
qed

lemma sprintf_d_fits: "0 \<le> v \<Longrightarrow> v < 10 ^ 9 \<Longrightarrow> sprintf_d 10 v = Some (dec v)"
proof -
  assume v: "0 \<le> v" "v < 10 ^ 9"
  then have "nat v < 10 ^ 9" by simp
  then show ?thesis using v length_dec_digits [of "nat v" 9] by (simp add: sprintf_d_def dec_def)
qed

lemma sprintf_d_overflows: "10 ^ 9 \<le> v \<Longrightarrow> sprintf_d 10 v = None"
proof -
  assume v: "10 ^ 9 \<le> v"
  then have "10 ^ 9 \<le> nat v" by simp
  then show ?thesis using v dec_digits_long [of 9 "nat v"] by (simp add: sprintf_d_def dec_def)
qed

lemma write_cgroup_returns:
  assumes "0 \<le> pid" and "pid < 10 ^ 9" and "\<forall>p. opens p" and "0 \<le> quota" and "quota < 10 ^ 9"
  shows "write_cgroup opens quota pid fs = Some (fs @
      [(cgroup_file ''cgroup.procs'', dec pid), (cgroup_file ''cpu.cfs_period_us'', dec 100000),
       (cgroup_file ''cpu.cfs_quota_us'', dec quota), (cgroup_file ''cpu.shares'', dec 512)])"
  using assms by (simp add: write_cgroup_def write_file_def cfs_period_us_def cpu_shares_def sprintf_d_fits)

text \<open>
  The ten characters of \<open>write_cgroup\<close> are enough for every process id Linux gives (at most
  4194304), and too few exactly for numbers of ten digits and more; then the files written are the
  id, the period, the quota and the shares, in this order.
\<close>

theorem write_cgroup_bounds:
  assumes "0 \<le> pid" and "\<forall>p. opens p" and "0 \<le> quota" and "quota < 10 ^ 9"
  shows "(pid < 10 ^ 9 \<longrightarrow> write_cgroup opens quota pid fs = Some (fs @
      [(cgroup_file ''cgroup.procs'', dec pid), (cgroup_file ''cpu.cfs_period_us'', dec 100000),
       (cgroup_file ''cpu.cfs_quota_us'', dec quota), (cgroup_file ''cpu.shares'', dec 512)])) \<and>
    (10 ^ 9 \<le> pid \<longrightarrow> write_cgroup opens quota pid fs = None)"
  using write_cgroup_returns [OF assms(1) _ assms(2-4), of fs] sprintf_d_overflows [of pid]
  by (simp add: write_cgroup_def)

lemma write_cgroup_bounds_witness:
  "write_cgroup (\<lambda>_. True) cfs_quota_us 4242 [] = Some
     [(cgroup_file ''cgroup.procs'', dec 4242), (cgroup_file ''cpu.cfs_period_us'', dec 100000),
      (cgroup_file ''cpu.cfs_quota_us'', dec 50000), (cgroup_file ''cpu.shares'', dec 512)]"
  using write_cgroup_bounds [of 4242 "\<lambda>_. True" cfs_quota_us "[]"] by (simp add: cfs_quota_us_def)

section \<open>The set-up of the network\<close>

text \<open>The three constant addresses.\<close>

lemma addresses:
  "inet_pton4 ip = (1, [192, 168, 0, 102])" "inet_pton4 broadcast = (1, [192, 168, 100, 255])"
  "inet_pton4 bridge_ip = (1, [192, 168, 0, 100])"
  by (simp_all add: inet_pton4_def ip_def broadcast_def bridge_ip_def ascii_def octet_def digit_value_def)

lemma addr_add_returns:
  assumes "good_net env" and "length a = 4" and "length b = 4"
  shows "\<exists>err s'. lxc_ipv4_addr_add env i a b n s = Some (err, s') \<and> n_blocks s' = n_blocks s"
    and "\<exists>err s'. lxc_ipv4_gateway_add env i a s = Some (err, s') \<and> n_blocks s' = n_blocks s"
  using addresses_ok [OF assms(1), of a b s i n] assms(2,3) by (auto dest: request_ok_returns)

lemma setup_hw_addr_returns:
  assumes "length sockaddr = 16" and "16 \<le> length obj" and "length ifr = 40"
  shows "\<exists>r s'. setup_hw_addr env ifr sockaddr (new_hwaddr d1 d2 d3) obj s = Some (r, s') \<and> n_blocks s' = n_blocks s"
proof -
  obtain d where d: "lxc_convert_mac (new_hwaddr d1 d2 d3) sockaddr = Some (0, d)" "length d = 16"
    using convert_new_hwaddr [OF assms(1), of d1 d2 d3] assms(1) by auto
  obtain b1 where b1: "put_bytes 0 (take 16 obj) ifr = Some b1" "length b1 = 40"
    using assms(2,3) by (auto simp: put_bytes_def)
  obtain b2 where b2: "put_bytes 15 [0] b1 = Some b2" "length b2 = 40"
    using b1(2) by (auto simp: put_bytes_def)
  obtain b3 where b3: "put_bytes 16 d b2 = Some b3"
    using b2(2) d(2) by (auto simp: put_bytes_def)
  show ?thesis using d(1) b1(1) b2(1) b3 assms(2)
    by (auto simp: setup_hw_addr_def get_bytes_def IFNAMSIZ_def sys_socket_def sys_ioctl_def sys_close_def
        log_event_def Let_def split: sum.split)
qed

lemma start_network_runs:
  assumes "good_net env" and "length (m_sockaddr mem) = 16" and "length (m_ifr mem) = 40"
  shows "(length (m_eth0 mem) < 16 \<longrightarrow>
      (case start_network env mem s of None \<Rightarrow> True | Some (returned, s') \<Rightarrow> \<not> returned)) \<and>
    (16 \<le> length (m_eth0 mem) \<longrightarrow>
      (\<exists>returned s'. start_network env mem s = Some (returned, s') \<and> n_blocks s' = n_blocks s))"
proof -
  obtain d1 d2 d3 where d: "m_rand mem = (d1, d2, d3)" by (cases "m_rand mem") auto
  let ?i = "k_nametoindex env s (ascii ''eth0'')"
  show ?thesis
  proof (cases "sint ?i < 0")
    case True
    then show ?thesis by (auto simp: start_network_def addresses)
  next
    case False
    obtain e1 s1 where s1: "lxc_ipv4_addr_add env ?i [192, 168, 0, 102] [192, 168, 100, 255] network_mask s = Some (e1, s1)"
      "n_blocks s1 = n_blocks s"
      using addr_add_returns(1) [OF assms(1), of "[192, 168, 0, 102]" "[192, 168, 100, 255]" ?i network_mask s] by auto
    obtain e2 s2 where s2: "lxc_netdev_up env (ascii ''lo'') s1 = Some (e2, s2)" "n_blocks s2 = n_blocks s1"
      using set_flag_returns [OF assms(1), of "ascii ''lo''" IFF_UP s1] by (auto simp: lxc_netdev_up_def)
    obtain e3 s3 where s3: "lxc_netdev_up env (ascii ''eth0'') s2 = Some (e3, s3)" "n_blocks s3 = n_blocks s2"
      using set_flag_returns [OF assms(1), of "ascii ''eth0''" IFF_UP s2] by (auto simp: lxc_netdev_up_def)
    obtain e4 s4 where s4: "lxc_ipv4_gateway_add env ?i [192, 168, 0, 100] s3 = Some (e4, s4)" "n_blocks s4 = n_blocks s3"
      using addr_add_returns(2) [OF assms(1), of "[192, 168, 0, 100]" "[192, 168, 0, 100]" ?i s3] by auto
    have run: "start_network env mem s = (if e1 < 0 then Some (False, s1)
        else do { (_, s5) \<leftarrow> setup_hw_addr env (m_ifr mem) (m_sockaddr mem) (new_hwaddr d1 d2 d3) (m_eth0 mem) s4;
                  Some (True, s5) })"
      using False s1(1) s2(1) s3(1) s4(1) d by (simp add: start_network_def addresses)
    show ?thesis
    proof (cases "16 \<le> length (m_eth0 mem)")
      case True
      then show ?thesis
        using run setup_hw_addr_returns [OF assms(2) True assms(3), of env d1 d2 d3 s4] s1(2) s2(2) s3(2) s4(2) by auto
    next
      case False
      then show ?thesis using run setup_hw_addr_overread [OF assms(2)] by simp
    qed
  qed
qed

lemma start_network_returns:
  assumes "good_net env" and "length (m_sockaddr mem) = 16" and "length (m_ifr mem) = 40"
    and "16 \<le> length (m_eth0 mem)"
  shows "\<exists>returned s'. start_network env mem s = Some (returned, s')"
  using start_network_runs [OF assms(1-3), of s] assms(4) by blast

text \<open>
  C35: \<open>start_network\<close> depends on what happens to lie behind the literal \<open>"eth0"\<close>: with the object's
  own five bytes every run that gets past adding the address reads beyond it, whatever the kernel
  answers; if 16 bytes can be read there, it returns, with the heap as it was.
\<close>

theorem start_network_overread:
  assumes "good_net env" and "length (m_sockaddr mem) = 16" and "length (m_ifr mem) = 40"
  shows "(length (m_eth0 mem) < 16 \<longrightarrow>
      (case start_network env mem s of None \<Rightarrow> True | Some (returned, s') \<Rightarrow> \<not> returned)) \<and>
    (16 \<le> length (m_eth0 mem) \<longrightarrow>
      (\<exists>returned s'. start_network env mem s = Some (returned, s') \<and> n_blocks s' = n_blocks s))"
  by (rule start_network_runs [OF assms])

definition sample_surroundings :: surroundings where
  "sample_surroundings = \<lparr>m_ifr = replicate 40 0, m_sockaddr = replicate 16 0,
     m_eth0 = ascii ''eth0'' @ replicate 12 0, m_rand = (1, 2, 3), m_dup = \<lambda>_. True,
     m_rand0 = \<lambda>n. n, m_rand1 = \<lambda>n. n, m_names = Some [ascii ''lo'', ascii ''eth0'']\<rparr>"

lemma sample_surroundings_sizes:
  "length (m_sockaddr sample_surroundings) = 16" "length (m_ifr sample_surroundings) = 40"
  "length (m_eth0 sample_surroundings) = 16"
  by (simp_all add: sample_surroundings_def ascii_def)

lemma start_network_overread_witness:
  "\<exists>returned s'. start_network sample_net_env sample_surroundings sample_net = Some (returned, s') \<and> n_blocks s' = 0"
  using start_network_overread [OF sample_good_net sample_surroundings_sizes(1,2), of sample_net]
    sample_surroundings_sizes(3) by (simp add: sample_net_def)

text \<open>The parent's names.\<close>

lemma mkifname_returns:
  assumes "\<forall>n. dup n" and "fst (fill_name rnd (k * count_list template 88) template) \<notin> set names"
  shows "\<exists>name. lxc_mkifname dup rnd (Some names) template = Some (Some name, False) \<and> from_template template name"
  using mkifname_loop_run [OF assms(1), of rnd 0 k template names] assms(2) fill_name_template
  by (auto simp: Let_def lxc_mkifname_def)

text \<open>Names can be found: \<open>strdup\<close> works, and for each template some attempt is free.\<close>

definition names_free :: "surroundings \<Rightarrow> bool" where
  "names_free mem \<longleftrightarrow> (\<forall>n. m_dup mem n) \<and> (\<exists>names. m_names mem = Some names \<and>
     (\<exists>k. fst (fill_name (m_rand0 mem) k veth0buf) \<notin> set names) \<and>
     (\<exists>k. fst (fill_name (m_rand1 mem) k veth1buf) \<notin> set names))"

lemma one_X: "count_list veth0buf 88 = 1" "count_list veth1buf 88 = 1"
  by (simp_all add: veth0buf_def veth1buf_def ascii_def)

lemma init_network_returns:
  assumes "good_net env" and "names_free mem" and "length (m_ifr mem) = 40"
    and "ifreq_ok env"
  shows "\<exists>r s'. init_network env mem s = Some (r, s') \<and> n_blocks s' = n_blocks s \<and>
    (\<forall>v0 v1. r = Some (v0, v1) \<longrightarrow> from_template veth0buf v0 \<and> from_template veth1buf v1)"
proof -
  obtain names k0 k1 where n: "\<forall>n. m_dup mem n" "m_names mem = Some names"
    "fst (fill_name (m_rand0 mem) (k0 * count_list veth0buf 88) veth0buf) \<notin> set names"
    "fst (fill_name (m_rand1 mem) (k1 * count_list veth1buf 88) veth1buf) \<notin> set names"
    using assms(2) unfolding names_free_def one_X by auto
  obtain v0 where v0: "lxc_mkifname (m_dup mem) (m_rand0 mem) (Some names) veth0buf = Some (Some v0, False)"
    "from_template veth0buf v0"
    using mkifname_returns [OF n(1) n(3)] by blast
  obtain v1 where v1: "lxc_mkifname (m_dup mem) (m_rand1 mem) (Some names) veth1buf = Some (Some v1, False)"
    "from_template veth1buf v1"
    using mkifname_returns [OF n(1) n(4)] by blast
  obtain e1 s1 where s1: "lxc_veth_create env v0 v1 s = Some (e1, s1)" "n_blocks s1 = n_blocks s"
    using request_ok_returns [OF veth_create_ok [OF assms(1)]] by blast
  obtain e2 s2 where s2: "setup_private_host_hw_addr env (m_ifr mem) v0 s1 = Some (e2, s2)" "n_blocks s2 = n_blocks s1"
    using ioctls_ok [OF assms(3,4), where s = s1 and veth = v0] by blast
  obtain e3 s3 where s3: "lxc_bridge_attach env (m_ifr mem) (ascii ''br0'') v0 s2 = Some (e3, s3)" "n_blocks s3 = n_blocks s2"
    using ioctls_ok [OF assms(3,4), where s = s2 and ifname = v0 and bridge = "ascii ''br0''"] by blast
  obtain e4 s4 where s4: "lxc_netdev_up env v0 s3 = Some (e4, s4)" "n_blocks s4 = n_blocks s3"
    using set_flag_returns [OF assms(1), of v0 IFF_UP s3] by (auto simp: lxc_netdev_up_def)
  show ?thesis
    using n(2) v0 v1 s1 s2 s3 s4 by (cases "e1 < 0") (simp_all add: init_network_def)
qed

lemma template_good_name: "from_template t name \<Longrightarrow> length t = 7 \<Longrightarrow> \<not> bad_name name"
  by (auto simp: from_template_def bad_name_def IFNAMSIZ_def dest: list_all2_lengthD)

text \<open>With a kernel that accepts everything the parent's part succeeds.\<close>

lemma init_network_accepted:
  assumes "good_net env" and "names_free mem" and "length (m_ifr mem) = 40" and "ifreq_ok env" and "kernel_accepts env"
  shows "\<exists>veths s'. init_network env mem s = Some (Some veths, s')"
proof -
  obtain names k0 k1 where n: "\<forall>n. m_dup mem n" "m_names mem = Some names"
    "fst (fill_name (m_rand0 mem) (k0 * count_list veth0buf 88) veth0buf) \<notin> set names"
    "fst (fill_name (m_rand1 mem) (k1 * count_list veth1buf 88) veth1buf) \<notin> set names"
    using assms(2) unfolding names_free_def one_X by auto
  obtain v0 where v0: "lxc_mkifname (m_dup mem) (m_rand0 mem) (Some names) veth0buf = Some (Some v0, False)"
    "from_template veth0buf v0"
    using mkifname_returns [OF n(1) n(3)] by blast
  obtain v1 where v1: "lxc_mkifname (m_dup mem) (m_rand1 mem) (Some names) veth1buf = Some (Some v1, False)"
    "from_template veth1buf v1"
    using mkifname_returns [OF n(1) n(4)] by blast
  have len: "length veth0buf = 7" "length veth1buf = 7" by (simp_all add: veth0buf_def veth1buf_def ascii_def)
  obtain s1 where s1: "lxc_veth_create env v0 v1 s = Some (0, s1)"
    using veth_create_accepted [OF assms(1,5) template_good_name [OF v0(2) len(1)] template_good_name [OF v1(2) len(2)]]
    by blast
  obtain r s2 where r: "init_network env mem s = Some (r, s2)"
    using init_network_returns [OF assms(1-4), of s] by blast
  then show ?thesis using n(2) v0(1) v1(1) s1 by (auto simp: init_network_def bind_eq_Some_conv)
qed

end
