(* ===== verification/Containers.thy ===== *)
theory Containers
  imports ToyDocker Transition
begin

text \<open>
  The container programs \<open>toy_docker/step_chroot\<close>, \<open>step_namespace\<close>, \<open>step_cgroup\<close> and
  \<open>step_network\<close> as two processes that run at the same time.  A program is the list of the calls
  of \<open>main\<close> and the list of the calls of \<open>child_setup_func\<close>; the state has what is left of both, the
  pipe, the state of each process and the log of the calls that have completed.
\<close>

section \<open>Programs\<close>

datatype action =
    PipeCall | InitNetwork | CloneCall | WriteCgroup int | MoveVeth | CloseWrite | WaitPid
  | SetRoot | ReadPipe | SetMount | StartNetwork | StartCmd
  | Command                              \<comment> \<open>the program that \<open>execv\<close> started\<close>

definition chroot_main :: "action list" where
  "chroot_main = [SetRoot, StartCmd]"

definition namespace_main :: "action list" where
  "namespace_main = [CloneCall, WaitPid]"

definition cgroup_main :: "action list" where
  "cgroup_main = [CloneCall, WriteCgroup step_cgroup_quota_us, WaitPid]"

definition namespace_child :: "action list" where
  "namespace_child = [SetRoot, StartCmd]"

definition cgroup_child :: "action list" where
  "cgroup_child = [SetRoot, StartCmd]"

definition network_main :: "action list" where
  "network_main = [PipeCall, InitNetwork, CloneCall, WriteCgroup cfs_quota_us, MoveVeth, CloseWrite, WaitPid]"

definition network_child :: "action list" where
  "network_child = [CloseWrite, SetRoot, ReadPipe, SetMount, StartNetwork, StartCmd]"

section \<open>Processes\<close>

text \<open>
  \<open>w_pwr\<close> and \<open>w_cwr\<close>: the parent and the child hold a write end of the pipe.  Nobody writes to it,
  so a read blocks until no write end is left.  \<open>clone\<close> without \<open>CLONE_VM\<close> and \<open>CLONE_FILES\<close> copies
  the memory and the descriptors.
\<close>

record docker_world =
  w_parent :: "action list"
  w_child :: "action list option"
  w_pwr :: bool
  w_cwr :: bool
  w_pnet :: net
  w_cnet :: net
  w_files :: files
  w_veth :: "(cstring \<times> cstring) option"
  w_log :: "(bool \<times> action) list"         \<comment> \<open>\<open>True\<close> is the parent\<close>

record docker_env =
  d_net :: net_env
  d_cnet :: net_env
  d_mem :: surroundings
  d_opens :: "cstring \<Rightarrow> bool"
  d_pipe :: bool
  d_pid :: int                            \<comment> \<open>the result of \<open>clone\<close>\<close>
  d_exec :: bool

definition docker_start :: "action list \<Rightarrow> docker_world" where
  "docker_start code =
     \<lparr>w_parent = code, w_child = None, w_pwr = False, w_cwr = False, w_pnet = \<lparr>n_fds = [], n_blocks = 0, n_trace = []\<rparr>,
      w_cnet = \<lparr>n_fds = [], n_blocks = 0, n_trace = []\<rparr>, w_files = [], w_veth = None, w_log = []\<rparr>"

text \<open>A call of the parent; \<open>None\<close>: it waits, has ended, or runs into undefined behaviour.\<close>

definition parent_step :: "docker_env \<Rightarrow> action list \<Rightarrow> docker_world \<Rightarrow> docker_world option" where
  "parent_step env child_code w =
     (case w_parent w of
        [] \<Rightarrow> None
      | a # rest \<Rightarrow>
          let done = w\<lparr>w_parent := rest, w_log := w_log w @ [(True, a)]\<rparr>;
              quit = w\<lparr>w_parent := [], w_pwr := False\<rparr>
          in case a of
            PipeCall \<Rightarrow> Some (if d_pipe env then done\<lparr>w_pwr := True\<rparr> else quit)
          | InitNetwork \<Rightarrow> do {
              (r, s) \<leftarrow> init_network (d_net env) (d_mem env) (w_pnet w);
              Some (case r of None \<Rightarrow> quit\<lparr>w_pnet := s\<rparr>
                            | Some veths \<Rightarrow> done\<lparr>w_pnet := s, w_veth := Some veths\<rparr>)
            }
          | CloneCall \<Rightarrow>
              Some (if d_pid env < 0 then quit
                    else done\<lparr>w_child := Some child_code, w_cwr := w_pwr w, w_cnet := w_pnet w\<rparr>)
          | WriteCgroup quota \<Rightarrow> do {
              fs \<leftarrow> write_cgroup (d_opens env) quota (d_pid env) (w_files w);
              Some (done\<lparr>w_files := fs\<rparr>)
            }
          | MoveVeth \<Rightarrow> do {
              (veth0, veth1) \<leftarrow> w_veth w;
              (_, s) \<leftarrow> lxc_netdev_move_by_name (d_net env) (Some veth1) (word_of_int (d_pid env))
                           (Some (ascii ''eth0'')) (w_pnet w);
              Some (done\<lparr>w_pnet := s\<rparr>)
            }
          | CloseWrite \<Rightarrow> Some (done\<lparr>w_pwr := False\<rparr>)
          | WaitPid \<Rightarrow> if w_child w = Some [] then Some done else None
          | SetRoot \<Rightarrow> Some done
          | StartCmd \<Rightarrow> Some (if d_exec env then done\<lparr>w_parent := [Command]\<rparr> else done)
          | Command \<Rightarrow> Some done
          | _ \<Rightarrow> None)"

definition child_step :: "docker_env \<Rightarrow> docker_world \<Rightarrow> docker_world option" where
  "child_step env w =
     (case w_child w of
        Some (a # rest) \<Rightarrow>
          let done = w\<lparr>w_child := Some rest, w_log := w_log w @ [(False, a)]\<rparr>;
              quit = w\<lparr>w_child := Some [], w_cwr := False\<rparr>
          in (case a of
            CloseWrite \<Rightarrow> Some (done\<lparr>w_cwr := False\<rparr>)
          | SetRoot \<Rightarrow> Some done
          | ReadPipe \<Rightarrow> if w_pwr w \<or> w_cwr w then None else Some done
          | SetMount \<Rightarrow> Some done
          | StartNetwork \<Rightarrow> do {
              (returned, s) \<leftarrow> start_network (d_cnet env) (d_mem env) (w_cnet w);
              Some ((if returned then done else quit)\<lparr>w_cnet := s\<rparr>)
            }
          | StartCmd \<Rightarrow> Some (if d_exec env then done\<lparr>w_child := Some [Command]\<rparr> else done)
          | Command \<Rightarrow> Some done
          | _ \<Rightarrow> None)
      | _ \<Rightarrow> None)"

definition docker_step :: "docker_env \<Rightarrow> action list \<Rightarrow> docker_world \<Rightarrow> docker_world \<Rightarrow> bool" where
  "docker_step env child_code w w' \<longleftrightarrow>
     parent_step env child_code w = Some w' \<or> child_step env w = Some w'"

section \<open>The order the pipe enforces\<close>

text \<open>
  The invariant of \<open>step_network\<close>: both processes are at a place of their programs; the pipe's ends
  are open as far as they have not passed \<open>CloseWrite\<close>; behind the read the parent is behind its own
  \<open>CloseWrite\<close>.
\<close>

definition parent_at :: "nat \<Rightarrow> docker_world \<Rightarrow> bool" where
  "parent_at k w \<longleftrightarrow> k \<le> 7 \<and> w_parent w = drop k network_main \<and> (w_pwr w \<longleftrightarrow> 1 \<le> k \<and> k \<le> 5) \<and>
     (2 \<le> k \<longrightarrow> w_veth w \<noteq> None) \<and>
     (4 \<le> k \<longrightarrow> (True, WriteCgroup cfs_quota_us) \<in> set (w_log w)) \<and> (5 \<le> k \<longrightarrow> (True, MoveVeth) \<in> set (w_log w))"

definition child_at :: "nat \<Rightarrow> docker_world \<Rightarrow> bool" where
  "child_at j w \<longleftrightarrow> j \<le> 8 \<and>
     w_child w = Some (if j \<le> 6 then drop j network_child else if j = 7 then [Command] else []) \<and>
     (w_cwr w \<longleftrightarrow> j < 1) \<and> ((False, ReadPipe) \<in> set (w_log w) \<longrightarrow> 3 \<le> j)"

definition docker_inv :: "docker_world \<Rightarrow> bool" where
  "docker_inv w \<longleftrightarrow>
     (w_child w = None \<and> \<not> w_cwr w \<and> (False, ReadPipe) \<notin> set (w_log w) \<and>
        ((\<exists>k \<le> 2. parent_at k w) \<or> w_parent w = [] \<and> \<not> w_pwr w)) \<or>
     (\<exists>k j. parent_at k w \<and> 3 \<le> k \<and> child_at j w \<and> (3 \<le> j \<longrightarrow> 6 \<le> k))"

lemma docker_inv_start: "docker_inv (docker_start network_main)"
  unfolding docker_inv_def parent_at_def docker_start_def by auto

lemma network_main_drop:
  "drop 0 network_main = PipeCall # drop 1 network_main" "drop 1 network_main = InitNetwork # drop 2 network_main"
  "drop 2 network_main = CloneCall # drop 3 network_main"
  "drop 3 network_main = WriteCgroup cfs_quota_us # drop 4 network_main"
  "drop 4 network_main = MoveVeth # drop 5 network_main" "drop 5 network_main = CloseWrite # drop 6 network_main"
  "drop 6 network_main = WaitPid # drop 7 network_main" "drop 7 network_main = []"
  by (simp_all add: network_main_def)

lemma network_child_drop:
  "drop 0 network_child = CloseWrite # drop 1 network_child" "drop 1 network_child = SetRoot # drop 2 network_child"
  "drop 2 network_child = ReadPipe # drop 3 network_child" "drop 3 network_child = SetMount # drop 4 network_child"
  "drop 4 network_child = StartNetwork # drop 5 network_child" "drop 5 network_child = StartCmd # drop 6 network_child"
  "drop 6 network_child = []"
  by (simp_all add: network_child_def)

lemma upto_7: "k \<le> 7 \<Longrightarrow> k = 0 \<or> k = 1 \<or> k = 2 \<or> k = 3 \<or> k = 4 \<or> k = 5 \<or> k = 6 \<or> k = (7 :: nat)"
  by arith

lemma upto_8: "j \<le> 8 \<Longrightarrow> j = 0 \<or> j = 1 \<or> j = 2 \<or> j = 3 \<or> j = 4 \<or> j = 5 \<or> j = 6 \<or> j = 7 \<or> j = (8 :: nat)"
  by arith

text \<open>Each call alone.\<close>

lemma parent_calls:
  "w_parent w = PipeCall # r \<Longrightarrow> parent_step env cc w =
     Some (if d_pipe env then w\<lparr>w_parent := r, w_log := w_log w @ [(True, PipeCall)], w_pwr := True\<rparr>
           else w\<lparr>w_parent := [], w_pwr := False\<rparr>)"
  "w_parent w = InitNetwork # r \<Longrightarrow> parent_step env cc w =
     do { (v, s) \<leftarrow> init_network (d_net env) (d_mem env) (w_pnet w);
          Some (case v of None \<Rightarrow> w\<lparr>w_parent := [], w_pwr := False, w_pnet := s\<rparr>
            | Some vs \<Rightarrow> w\<lparr>w_parent := r, w_log := w_log w @ [(True, InitNetwork)], w_pnet := s, w_veth := Some vs\<rparr>) }"
  "w_parent w = CloneCall # r \<Longrightarrow> parent_step env cc w =
     Some (if d_pid env < 0 then w\<lparr>w_parent := [], w_pwr := False\<rparr>
           else w\<lparr>w_parent := r, w_log := w_log w @ [(True, CloneCall)], w_child := Some cc, w_cwr := w_pwr w,
                  w_cnet := w_pnet w\<rparr>)"
  "w_parent w = WriteCgroup q # r \<Longrightarrow> parent_step env cc w =
     do { fs \<leftarrow> write_cgroup (d_opens env) q (d_pid env) (w_files w);
          Some (w\<lparr>w_parent := r, w_log := w_log w @ [(True, WriteCgroup q)], w_files := fs\<rparr>) }"
  "w_parent w = MoveVeth # r \<Longrightarrow> parent_step env cc w =
     do { (veth0, veth1) \<leftarrow> w_veth w;
          (e, s) \<leftarrow> lxc_netdev_move_by_name (d_net env) (Some veth1) (word_of_int (d_pid env))
                      (Some (ascii ''eth0'')) (w_pnet w);
          Some (w\<lparr>w_parent := r, w_log := w_log w @ [(True, MoveVeth)], w_pnet := s\<rparr>) }"
  "w_parent w = CloseWrite # r \<Longrightarrow> parent_step env cc w =
     Some (w\<lparr>w_parent := r, w_log := w_log w @ [(True, CloseWrite)], w_pwr := False\<rparr>)"
  "w_parent w = WaitPid # r \<Longrightarrow> parent_step env cc w =
     (if w_child w = Some [] then Some (w\<lparr>w_parent := r, w_log := w_log w @ [(True, WaitPid)]\<rparr>) else None)"
  "w_parent w = [] \<Longrightarrow> parent_step env cc w = None"
  by (simp_all add: parent_step_def Let_def)

lemma child_calls:
  "w_child w = Some (CloseWrite # r) \<Longrightarrow> child_step env w =
     Some (w\<lparr>w_child := Some r, w_log := w_log w @ [(False, CloseWrite)], w_cwr := False\<rparr>)"
  "w_child w = Some (SetRoot # r) \<Longrightarrow> child_step env w =
     Some (w\<lparr>w_child := Some r, w_log := w_log w @ [(False, SetRoot)]\<rparr>)"
  "w_child w = Some (ReadPipe # r) \<Longrightarrow> child_step env w =
     (if w_pwr w \<or> w_cwr w then None else Some (w\<lparr>w_child := Some r, w_log := w_log w @ [(False, ReadPipe)]\<rparr>))"
  "w_child w = Some (SetMount # r) \<Longrightarrow> child_step env w =
     Some (w\<lparr>w_child := Some r, w_log := w_log w @ [(False, SetMount)]\<rparr>)"
  "w_child w = Some (StartNetwork # r) \<Longrightarrow> child_step env w =
     do { (returned, s) \<leftarrow> start_network (d_cnet env) (d_mem env) (w_cnet w);
          Some (if returned then w\<lparr>w_child := Some r, w_log := w_log w @ [(False, StartNetwork)], w_cnet := s\<rparr>
                else w\<lparr>w_child := Some [], w_cwr := False, w_cnet := s\<rparr>) }"
  "w_child w = Some (StartCmd # r) \<Longrightarrow> child_step env w =
     Some (if d_exec env then w\<lparr>w_child := Some [Command], w_log := w_log w @ [(False, StartCmd)]\<rparr>
           else w\<lparr>w_child := Some r, w_log := w_log w @ [(False, StartCmd)]\<rparr>)"
  "w_child w = Some (Command # r) \<Longrightarrow> child_step env w =
     Some (w\<lparr>w_child := Some r, w_log := w_log w @ [(False, Command)]\<rparr>)"
  "w_child w = None \<Longrightarrow> child_step env w = None" "w_child w = Some [] \<Longrightarrow> child_step env w = None"
  by (simp_all add: child_step_def Let_def if_distrib [of "\<lambda>w. w_cnet_update _ w"] cong: if_cong)

lemma parent_places:
  "parent_at 0 w \<Longrightarrow> w_parent w = PipeCall # drop 1 network_main"
  "parent_at 1 w \<Longrightarrow> w_parent w = InitNetwork # drop 2 network_main"
  "parent_at 2 w \<Longrightarrow> w_parent w = CloneCall # drop 3 network_main"
  "parent_at 3 w \<Longrightarrow> w_parent w = WriteCgroup cfs_quota_us # drop 4 network_main"
  "parent_at 4 w \<Longrightarrow> w_parent w = MoveVeth # drop 5 network_main"
  "parent_at 5 w \<Longrightarrow> w_parent w = CloseWrite # drop 6 network_main"
  "parent_at 6 w \<Longrightarrow> w_parent w = WaitPid # drop 7 network_main"
  "parent_at 7 w \<Longrightarrow> w_parent w = []"
  by (simp_all only: parent_at_def network_main_drop [symmetric])

lemma parent_before_clone:
  assumes "parent_at k w" and "k \<le> 2" and "w_child w = None" and "\<not> w_cwr w"
    and "(False, ReadPipe) \<notin> set (w_log w)" and "parent_step env network_child w = Some w'"
  shows "docker_inv w'"
proof -
  consider "k = 0" | "k = 1" | "k = 2" using assms(2) by arith
  then show ?thesis
  proof cases
    case 1
    have "w' = w\<lparr>w_parent := drop 1 network_main, w_log := w_log w @ [(True, PipeCall)], w_pwr := True\<rparr> \<or>
        w' = w\<lparr>w_parent := [], w_pwr := False\<rparr>"
      using assms(6) unfolding parent_calls(1) [OF parent_places(1) [OF assms(1)[unfolded 1]]] by (auto split: if_splits)
    then show ?thesis
    proof
      assume w': "w' = w\<lparr>w_parent := drop 1 network_main, w_log := w_log w @ [(True, PipeCall)], w_pwr := True\<rparr>"
      have "parent_at 1 w'" unfolding w' parent_at_def by simp
      then show ?thesis using assms(3-5) unfolding docker_inv_def w' by fastforce
    next
      assume "w' = w\<lparr>w_parent := [], w_pwr := False\<rparr>"
      then show ?thesis using assms(3-5) unfolding docker_inv_def by simp
    qed
  next
    case 2
    obtain s r where "w' = w\<lparr>w_parent := [], w_pwr := False, w_pnet := s\<rparr> \<or>
        w' = w\<lparr>w_parent := drop 2 network_main, w_log := w_log w @ [(True, InitNetwork)], w_pnet := s, w_veth := Some r\<rparr>"
      using assms(6) unfolding parent_calls(2) [OF parent_places(2) [OF assms(1) [unfolded 2]]]
      by (fastforce simp: bind_eq_Some_conv split: option.splits)
    then show ?thesis
    proof
      assume w': "w' = w\<lparr>w_parent := drop 2 network_main, w_log := w_log w @ [(True, InitNetwork)], w_pnet := s, w_veth := Some r\<rparr>"
      have "parent_at 2 w'" using assms(1) 2 unfolding w' parent_at_def by simp
      then show ?thesis using assms(3-5) unfolding docker_inv_def w' by fastforce
    next
      assume "w' = w\<lparr>w_parent := [], w_pwr := False, w_pnet := s\<rparr>"
      then show ?thesis using assms(3-5) unfolding docker_inv_def by simp
    qed
  next
    case 3
    have "w' = w\<lparr>w_parent := drop 3 network_main, w_log := w_log w @ [(True, CloneCall)],
          w_child := Some network_child, w_cwr := w_pwr w, w_cnet := w_pnet w\<rparr> \<or>
        w' = w\<lparr>w_parent := [], w_pwr := False\<rparr>"
      using assms(6) unfolding parent_calls(3) [OF parent_places(3) [OF assms(1) [unfolded 3]]] by (auto split: if_splits)
    then show ?thesis
    proof
      assume w': "w' = w\<lparr>w_parent := drop 3 network_main, w_log := w_log w @ [(True, CloneCall)],
          w_child := Some network_child, w_cwr := w_pwr w, w_cnet := w_pnet w\<rparr>"
      have "parent_at 3 w'" "child_at 0 w'"
        using assms(1,5) 3 unfolding w' parent_at_def child_at_def by simp_all
      then show ?thesis unfolding docker_inv_def by fastforce
    next
      assume "w' = w\<lparr>w_parent := [], w_pwr := False\<rparr>"
      then show ?thesis using assms(3-5) unfolding docker_inv_def by simp
    qed
  qed
qed

text \<open>Behind \<open>clone\<close> every call of the parent takes it one place further.\<close>

lemma parent_after_clone:
  assumes "parent_at k w" and "3 \<le> k" and "parent_step env network_child w = Some w'"
  shows "parent_at (Suc k) w' \<and> w_child w' = w_child w \<and> w_cwr w' = w_cwr w \<and>
    (\<exists>a. w_log w' = w_log w @ [(True, a)])"
proof -
  have "k \<le> 7" using assms(1) by (simp add: parent_at_def)
  then consider "k = 3" | "k = 4" | "k = 5" | "k = 6" | "k = 7" using assms(2) by arith
  then show ?thesis
  proof cases
    case 1
    show ?thesis using assms(3) assms(1) [unfolded 1]
      unfolding parent_calls(4) [OF parent_places(4) [OF assms(1) [unfolded 1]]] 1
      by (auto simp: parent_at_def bind_eq_Some_conv)
  next
    case 2
    show ?thesis using assms(3) assms(1) [unfolded 2]
      unfolding parent_calls(5) [OF parent_places(5) [OF assms(1) [unfolded 2]]] 2
      by (auto simp: parent_at_def bind_eq_Some_conv)
  next
    case 3
    show ?thesis using assms(3) assms(1) [unfolded 3]
      unfolding parent_calls(6) [OF parent_places(6) [OF assms(1) [unfolded 3]]] 3
      by (auto simp: parent_at_def)
  next
    case 4
    show ?thesis using assms(3) assms(1) [unfolded 4]
      unfolding parent_calls(7) [OF parent_places(7) [OF assms(1) [unfolded 4]]] 4
      by (auto simp: parent_at_def split: if_splits)
  next
    case 5
    then show ?thesis using assms(1,3) parent_places(8) parent_calls(8) by auto
  qed
qed

lemma child_places:
  "child_at 0 w \<Longrightarrow> w_child w = Some (CloseWrite # drop 1 network_child)"
  "child_at 1 w \<Longrightarrow> w_child w = Some (SetRoot # drop 2 network_child)"
  "child_at 2 w \<Longrightarrow> w_child w = Some (ReadPipe # drop 3 network_child)"
  "child_at 3 w \<Longrightarrow> w_child w = Some (SetMount # drop 4 network_child)"
  "child_at 4 w \<Longrightarrow> w_child w = Some (StartNetwork # drop 5 network_child)"
  "child_at 5 w \<Longrightarrow> w_child w = Some (StartCmd # drop 6 network_child)"
  "child_at 6 w \<Longrightarrow> w_child w = Some []"
  "child_at 7 w \<Longrightarrow> w_child w = Some [Command]"
  "child_at 8 w \<Longrightarrow> w_child w = Some []"
  by (simp_all add: child_at_def network_child_def)

text \<open>Every step of the child takes it to a later place, and behind the read only if no write end is open.\<close>

lemma child_moves:
  assumes "child_at j w" and "child_step env w = Some w'"
  shows "\<exists>j'. j < j' \<and> child_at j' w' \<and> (3 \<le> j' \<longrightarrow> 3 \<le> j \<or> \<not> w_pwr w) \<and>
    w_parent w' = w_parent w \<and> w_pwr w' = w_pwr w \<and> w_veth w' = w_veth w \<and> set (w_log w) \<subseteq> set (w_log w')"
proof -
  have "j \<le> 8" using assms(1) by (simp add: child_at_def)
  then consider "j = 0" | "j = 1" | "j = 2" | "j = 3" | "j = 4" | "j = 5" | "j = 6" | "j = 7" | "j = 8" by arith
  then show ?thesis
  proof cases
    case 1
    show ?thesis using assms(2) assms(1) [unfolded 1]
      unfolding child_calls(1) [OF child_places(1) [OF assms(1) [unfolded 1]]] 1
      by (intro exI [of _ 1]) (auto simp: child_at_def)
  next
    case 2
    show ?thesis using assms(2) assms(1) [unfolded 2]
      unfolding child_calls(2) [OF child_places(2) [OF assms(1) [unfolded 2]]] 2
      by (intro exI [of _ 2]) (auto simp: child_at_def)
  next
    case 3
    show ?thesis using assms(2) assms(1) [unfolded 3]
      unfolding child_calls(3) [OF child_places(3) [OF assms(1) [unfolded 3]]] 3
      by (intro exI [of _ 3]) (auto simp: child_at_def split: if_splits)
  next
    case 4
    show ?thesis using assms(2) assms(1) [unfolded 4]
      unfolding child_calls(4) [OF child_places(4) [OF assms(1) [unfolded 4]]] 4
      by (intro exI [of _ 4]) (auto simp: child_at_def)
  next
    case 5
    from assms(2) obtain ok s where "w' = (if ok then w\<lparr>w_child := Some (drop 5 network_child),
        w_log := w_log w @ [(False, StartNetwork)], w_cnet := s\<rparr> else w\<lparr>w_child := Some [], w_cwr := False, w_cnet := s\<rparr>)"
      unfolding child_calls(5) [OF child_places(5) [OF assms(1) [unfolded 5]]] by (auto simp: bind_eq_Some_conv)
    then show ?thesis using assms(1) [unfolded 5] unfolding 5
      by (cases ok; intro exI [of _ "if ok then 5 else 8"]) (auto simp: child_at_def)
  next
    case 6
    show ?thesis using assms(2) assms(1) [unfolded 6]
      unfolding child_calls(6) [OF child_places(6) [OF assms(1) [unfolded 6]]] 6
      by (intro exI [of _ "if d_exec env then 7 else 6"]) (auto simp: child_at_def)
  next
    case 7
    show ?thesis using assms(2) child_calls(9) [OF child_places(7) [OF assms(1) [unfolded 7]]] by simp
  next
    case 8
    show ?thesis using assms(2) assms(1) [unfolded 8]
      unfolding child_calls(7) [OF child_places(8) [OF assms(1) [unfolded 8]]] 8
      by (intro exI [of _ 8]) (auto simp: child_at_def)
  next
    case 9
    show ?thesis using assms(2) child_calls(9) [OF child_places(9) [OF assms(1) [unfolded 9]]] by simp
  qed
qed

lemma docker_inv_step:
  assumes "docker_inv w" and "docker_step env network_child w w'"
  shows "docker_inv w'"
  using assms(1) unfolding docker_inv_def [of w]
proof (elim disjE conjE exE)
  assume c: "w_child w = None" "\<not> w_cwr w" "(False, ReadPipe) \<notin> set (w_log w)"
  then have p: "parent_step env network_child w = Some w'"
    using assms(2) by (simp add: docker_step_def child_calls(8))
  { fix k assume "k \<le> 2" "parent_at k w"
    then show ?thesis using parent_before_clone c p by blast }
  { assume "w_parent w = []"
    then show ?thesis using p parent_calls(8) by simp }
next
  fix k j assume k: "parent_at k w" "3 \<le> k" and j: "child_at j w" "3 \<le> j \<longrightarrow> 6 \<le> k"
  from assms(2) show ?thesis unfolding docker_step_def
  proof
    assume "parent_step env network_child w = Some w'"
    then obtain a where w': "parent_at (Suc k) w'" "w_child w' = w_child w" "w_cwr w' = w_cwr w"
      "w_log w' = w_log w @ [(True, a)]"
      using parent_after_clone [OF k] by blast
    then have "child_at j w'" using j(1) by (simp add: child_at_def)
    then show ?thesis using w'(1) k(2) j(2) unfolding docker_inv_def by (meson le_SucI)
  next
    assume "child_step env w = Some w'"
    then obtain j' where w': "j < j'" "child_at j' w'" "3 \<le> j' \<longrightarrow> 3 \<le> j \<or> \<not> w_pwr w"
      "w_parent w' = w_parent w" "w_pwr w' = w_pwr w" "w_veth w' = w_veth w" "set (w_log w) \<subseteq> set (w_log w')"
      using child_moves [OF j(1)] by blast
    then have "parent_at k w'" using k(1) by (auto simp: parent_at_def)
    moreover have "3 \<le> j' \<longrightarrow> 6 \<le> k" using w'(3) j(2) k by (auto simp: parent_at_def)
    ultimately show ?thesis using w'(2) k(2) unfolding docker_inv_def by blast
  qed
qed

interpretation network: inv_system "docker_start network_main" "docker_step env network_child" docker_inv for env
  by unfold_locales (fact docker_inv_start, fact docker_inv_step)

section \<open>Ending\<close>

text \<open>The calls of the program return, that is, they run into no undefined behaviour and end.\<close>

definition calls_return :: "docker_env \<Rightarrow> bool" where
  "calls_return env \<longleftrightarrow> (\<forall>s. init_network (d_net env) (d_mem env) s \<noteq> None) \<and>
     (\<forall>s. start_network (d_cnet env) (d_mem env) s \<noteq> None) \<and>
     (\<forall>fs. write_cgroup (d_opens env) cfs_quota_us (d_pid env) fs \<noteq> None) \<and>
     (\<forall>v1 s. lxc_netdev_move_by_name (d_net env) (Some v1) (word_of_int (d_pid env)) (Some (ascii ''eth0'')) s \<noteq> None)"

text \<open>What is left to do: \<open>clone\<close> counts for the child's program, \<open>execv\<close> for the command.\<close>

fun action_weight :: "action \<Rightarrow> nat" where
  "action_weight CloneCall = 20"
| "action_weight StartCmd = 2"
| "action_weight _ = 1"

definition docker_rank :: "docker_world \<Rightarrow> nat" where
  "docker_rank w = sum_list (map action_weight (w_parent w)) +
     (case w_child w of None \<Rightarrow> 0 | Some c \<Rightarrow> sum_list (map action_weight c))"

definition docker_final :: "docker_world \<Rightarrow> bool" where
  "docker_final w \<longleftrightarrow> w_parent w = [] \<and> (w_child w = None \<or> w_child w = Some [])"

text \<open>The rank of both processes goes down with their places.\<close>

lemma parent_weight: "parent_at k w \<Longrightarrow> sum_list (map action_weight (w_parent w)) =
    (if k \<le> 2 then 26 - k else 7 - k)"
  using upto_7 [of k] by (auto simp: parent_at_def network_main_def)

lemma child_weight: "child_at j w \<Longrightarrow> (case w_child w of None \<Rightarrow> 0 | Some c \<Rightarrow> sum_list (map action_weight c)) =
    (if j \<le> 5 then 7 - j else if j = 7 then 1 else 0)"
  using upto_8 [of j] by (auto simp: child_at_def network_child_def)

lemma parent_progress:
  assumes "calls_return env" and "parent_at k w" and "k \<le> 5"
  shows "\<exists>w'. parent_step env network_child w = Some w'"
proof -
  have ret: "\<exists>r s'. init_network (d_net env) (d_mem env) s = Some (r, s')"
    "\<exists>fs'. write_cgroup (d_opens env) cfs_quota_us (d_pid env) fs = Some fs'"
    "\<exists>r s'. lxc_netdev_move_by_name (d_net env) (Some v1) (word_of_int (d_pid env)) (Some (ascii ''eth0'')) s = Some (r, s')"
    for s fs v1
    using assms(1) unfolding calls_return_def by fastforce+
  consider "k = 0" | "k = 1" | "k = 2" | "k = 3" | "k = 4" | "k = 5" using assms(3) by arith
  then show ?thesis
  proof cases
    case 1
    show ?thesis unfolding parent_calls(1) [OF parent_places(1) [OF assms(2) [unfolded 1]]] by blast
  next
    case 2
    show ?thesis unfolding parent_calls(2) [OF parent_places(2) [OF assms(2) [unfolded 2]]]
      using ret(1) [of "w_pnet w"] by auto
  next
    case 3
    show ?thesis unfolding parent_calls(3) [OF parent_places(3) [OF assms(2) [unfolded 3]]] by blast
  next
    case 4
    show ?thesis unfolding parent_calls(4) [OF parent_places(4) [OF assms(2) [unfolded 4]]]
      using ret(2) [of "w_files w"] by auto
  next
    case 5
    have "w_veth w \<noteq> None" using assms(2) 5 by (simp add: parent_at_def)
    then obtain v0 v1 where "w_veth w = Some (v0, v1)" by auto
    then show ?thesis unfolding parent_calls(5) [OF parent_places(5) [OF assms(2) [unfolded 5]]]
      using ret(3) [of v1 "w_pnet w"] by auto
  next
    case 6
    show ?thesis unfolding parent_calls(6) [OF parent_places(6) [OF assms(2) [unfolded 6]]] by blast
  qed
qed

lemma child_progress:
  assumes "calls_return env" and "child_at j w" and "j < 8" and "j \<noteq> 6" and "\<not> w_pwr w"
  shows "\<exists>w'. child_step env w = Some w'"
proof -
  have ret: "\<exists>r s'. start_network (d_cnet env) (d_mem env) s = Some (r, s')" for s
    using assms(1) unfolding calls_return_def by fastforce
  have cwr: "\<not> w_cwr w" if "0 < j" using assms(2) that by (simp add: child_at_def)
  consider "j = 0" | "j = 1" | "j = 2" | "j = 3" | "j = 4" | "j = 5" | "j = 7" using assms(3,4) by arith
  then show ?thesis
  proof cases
    case 1
    show ?thesis unfolding child_calls(1) [OF child_places(1) [OF assms(2) [unfolded 1]]] by blast
  next
    case 2
    show ?thesis unfolding child_calls(2) [OF child_places(2) [OF assms(2) [unfolded 2]]] by blast
  next
    case 3
    then show ?thesis using child_calls(3) [OF child_places(3) [OF assms(2) [unfolded 3]]] cwr assms(5) by simp
  next
    case 4
    show ?thesis unfolding child_calls(4) [OF child_places(4) [OF assms(2) [unfolded 4]]] by blast
  next
    case 5
    show ?thesis unfolding child_calls(5) [OF child_places(5) [OF assms(2) [unfolded 5]]]
      using ret [of "w_cnet w"] by auto
  next
    case 6
    show ?thesis unfolding child_calls(6) [OF child_places(6) [OF assms(2) [unfolded 6]]] by blast
  next
    case 7
    show ?thesis unfolding child_calls(7) [OF child_places(8) [OF assms(2) [unfolded 7]]] by blast
  qed
qed

lemma parent_quits_or_moves:
  assumes "parent_at k w" and "k \<le> 2" and "w_child w = None" and "parent_step env network_child w = Some w'"
  shows "docker_rank w' < docker_rank w"
proof -
  consider "k = 0" | "k = 1" | "k = 2" using assms(2) by arith
  then show ?thesis
  proof cases
    case 1
    show ?thesis using assms(4,3) unfolding parent_calls(1) [OF parent_places(1) [OF assms(1) [unfolded 1]]]
      using parent_places(1) [OF assms(1) [unfolded 1]] by (auto simp: docker_rank_def split: if_splits)
  next
    case 2
    show ?thesis using assms(4,3) unfolding parent_calls(2) [OF parent_places(2) [OF assms(1) [unfolded 2]]]
      using parent_places(2) [OF assms(1) [unfolded 2]]
      by (auto simp: docker_rank_def bind_eq_Some_conv split: option.splits)
  next
    case 3
    show ?thesis using assms(4,3) unfolding parent_calls(3) [OF parent_places(3) [OF assms(1) [unfolded 3]]]
      using parent_places(3) [OF assms(1) [unfolded 3]]
      by (auto simp: docker_rank_def network_child_def split: if_splits)
  qed
qed

lemma docker_progress:
  assumes "calls_return env" and "docker_inv w" and "\<not> docker_final w"
  shows "\<exists>w'. docker_step env network_child w w' \<and> docker_rank w' < docker_rank w"
  using assms(2) unfolding docker_inv_def
proof (elim disjE conjE exE)
  fix k assume k: "k \<le> 2" "parent_at k w" and c: "w_child w = None"
  then obtain w' where "parent_step env network_child w = Some w'"
    using parent_progress [OF assms(1) k(2)] by auto
  then show ?thesis using parent_quits_or_moves [OF k(2,1) c] by (auto simp: docker_step_def)
next
  assume "w_parent w = []" "w_child w = None"
  then show ?thesis using assms(3) by (simp add: docker_final_def)
next
  fix k j assume k: "parent_at k w" "3 \<le> k" and j: "child_at j w" "3 \<le> j \<longrightarrow> 6 \<le> k"
  have kj: "k \<le> 7" "j \<le> 8" using k(1) j(1) by (simp_all add: parent_at_def child_at_def)
  have p: ?thesis if "parent_step env network_child w = Some w'" for w'
  proof -
    have w': "parent_at (Suc k) w'" "w_child w' = w_child w" using parent_after_clone [OF k that] by auto
    then have "Suc k \<le> 7" by (simp add: parent_at_def)
    then have "docker_rank w' < docker_rank w"
      using parent_weight [OF k(1)] parent_weight [OF w'(1)] k(2) w'(2) by (simp add: docker_rank_def)
    then show ?thesis using that by (auto simp: docker_step_def)
  qed
  show ?thesis
  proof (cases "k \<le> 5")
    case True
    then show ?thesis using parent_progress [OF assms(1) k(1)] p by blast
  next
    case False
    then have pwr: "\<not> w_pwr w" using k(1) by (simp add: parent_at_def)
    show ?thesis
    proof (cases "j < 8 \<and> j \<noteq> 6")
      case True
      then obtain w' where w': "child_step env w = Some w'" using child_progress [OF assms(1) j(1) _ _ pwr] by blast
      obtain j' where j': "j < j'" "child_at j' w'" "w_parent w' = w_parent w" using child_moves [OF j(1) w'] by blast
      then have "docker_rank w' < docker_rank w"
        using child_weight [OF j(1)] child_weight [OF j'(2)] True by (auto simp: docker_rank_def)
      then show ?thesis using w' by (auto simp: docker_step_def)
    next
      case no: False
      then have c: "w_child w = Some []" using child_places(7,9) j(1) kj(2) by (metis le_neq_implies_less)
      have "k \<noteq> 7" using c assms(3) parent_places(8) k(1) unfolding docker_final_def by blast
      then have "k = 6" using False kj(1) by arith
      then have "w_parent w = WaitPid # drop 7 network_main" using parent_places(7) k(1) by simp
      then show ?thesis using p parent_calls(7) c by simp
    qed
  qed
qed

locale returning_run =
  fixes env :: docker_env
  assumes returns: "calls_return env"
begin

lemma step_down: "docker_inv w \<Longrightarrow> \<not> docker_final w \<Longrightarrow>
    \<exists>w'. docker_step env network_child w w' \<and> docker_rank w' < docker_rank w"
  by (rule docker_progress [OF returns])

end

sublocale returning_run \<subseteq>
  run: ending_system "docker_start network_main" "docker_step env network_child" docker_inv docker_final docker_rank
  by unfold_locales (fact docker_inv_start, fact docker_inv_step, fact step_down)

context returning_run
begin

lemmas ends = run.reach_can_end

lemmas not_stuck = run.reach_no_deadlock

end

text \<open>
  An environment in which the calls return, because the kernel answers, the names can be found, the
  control group files open and 16 bytes can be read at \<open>"eth0"\<close>.
\<close>

lemma calls_return_if:
  assumes "good_net (d_net env)" and "good_net (d_cnet env)" and "ifreq_ok (d_net env)" and "names_free (d_mem env)"
    and "length (m_ifr (d_mem env)) = 40" and "length (m_sockaddr (d_mem env)) = 16" and "16 \<le> length (m_eth0 (d_mem env))"
    and "\<forall>p. d_opens env p" and "d_pid env < 10 ^ 9" and "0 \<le> d_pid env"
  shows "calls_return env"
  unfolding calls_return_def
proof (intro conjI allI)
  fix s
  show "init_network (d_net env) (d_mem env) s \<noteq> None"
    using init_network_returns [OF assms(1,4,5,3), of s] by auto
  show "start_network (d_cnet env) (d_mem env) s \<noteq> None"
    using start_network_returns [OF assms(2,6,5,7), of s] by auto
  fix fs
  show "write_cgroup (d_opens env) cfs_quota_us (d_pid env) fs \<noteq> None"
    using write_cgroup_returns [OF assms(10,9,8), of cfs_quota_us fs] by (simp add: cfs_quota_us_def)
next
  fix v1 s
  have "length (ascii ''eth0'') < 3000" by (simp add: ascii_def)
  then have m: "\<exists>err s'. lxc_netdev_move_by_index (d_net env) i p (Some (ascii ''eth0'')) s = Some (err, s')" for i p
    using request_ok_returns [OF move_ok [OF assms(1), of "Some (ascii ''eth0'')"]] by fastforce
  show "lxc_netdev_move_by_name (d_net env) (Some v1) (word_of_int (d_pid env)) (Some (ascii ''eth0'')) s \<noteq> None"
    using m by (auto simp: lxc_netdev_move_by_name_def Let_def)
qed

section \<open>Properties\<close>

definition sample_docker :: docker_env where
  "sample_docker = \<lparr>d_net = sample_net_env, d_cnet = sample_net_env, d_mem = sample_surroundings, d_opens = \<lambda>_. True,
     d_pipe = True, d_pid = 4242, d_exec = True\<rparr>"

lemma sample_ifreq_ok: "ifreq_ok sample_net_env"
  by (auto simp: ifreq_ok_def sample_net_env_def)

lemma sample_names_free: "names_free sample_surroundings"
proof -
  have "fst (fill_name (\<lambda>n. n) 0 veth0buf) \<notin> set [ascii ''lo'', ascii ''eth0'']"
    "fst (fill_name (\<lambda>n. n) 0 veth1buf) \<notin> set [ascii ''lo'', ascii ''eth0'']"
    by (simp_all add: veth0buf_def veth1buf_def ascii_def padchar_def)
  then show ?thesis unfolding names_free_def sample_surroundings_def by auto
qed

lemma sample_calls_return: "calls_return sample_docker"
  by (rule calls_return_if)
    (simp_all add: sample_docker_def sample_good_net sample_ifreq_ok sample_names_free sample_surroundings_sizes)

interpretation sample_run: returning_run sample_docker
  by unfold_locales (fact sample_calls_return)

text \<open>A run of the parent, from its place \<open>k\<close> up to behind its \<open>CloseWrite\<close>.\<close>

lemma parent_runs:
  assumes "calls_return env" and "parent_at k w" and "3 \<le> k" and "k \<le> 6"
  shows "\<exists>w'. (docker_step env network_child)\<^sup>*\<^sup>* w w' \<and> parent_at 6 w' \<and> w_child w' = w_child w \<and> w_cwr w' = w_cwr w \<and>
    ((False, ReadPipe) \<in> set (w_log w') \<longleftrightarrow> (False, ReadPipe) \<in> set (w_log w))"
  using assms(2-4)
proof (induction "6 - k" arbitrary: k w)
  case 0
  then show ?case by (metis diff_is_0_eq le_antisym rtranclp.rtrancl_refl)
next
  case (Suc n)
  then have "k \<le> 5" by arith
  then obtain w1 where w1: "parent_step env network_child w = Some w1" using parent_progress [OF assms(1) Suc.prems(1)] by blast
  then obtain a where s: "parent_at (Suc k) w1" "w_child w1 = w_child w" "w_cwr w1 = w_cwr w" "w_log w1 = w_log w @ [(True, a)]"
    using parent_after_clone [OF Suc.prems(1,2)] by blast
  have "n = 6 - Suc k" using Suc.hyps(2) by arith
  then obtain w' where "(docker_step env network_child)\<^sup>*\<^sup>* w1 w'" "parent_at 6 w'" "w_child w' = w_child w1"
    "w_cwr w' = w_cwr w1" "(False, ReadPipe) \<in> set (w_log w') \<longleftrightarrow> (False, ReadPipe) \<in> set (w_log w1)"
    using Suc.hyps(1) [of "Suc k" w1] s(1) Suc.prems(2) \<open>k \<le> 5\<close> by auto
  moreover have "docker_step env network_child w w1" using w1 by (simp add: docker_step_def)
  ultimately show ?case using s(2-4) by (metis (no_types, lifting) UnE Un_iff converse_rtranclp_into_rtranclp
        empty_iff insert_iff list.set(1) list.simps(15) prod.inject set_append)
qed

text \<open>The child reads once the parent has closed its end.\<close>

lemma child_reads:
  assumes "child_at j w" and "j \<le> 2" and "\<not> w_pwr w"
  shows "\<exists>w'. (docker_step env network_child)\<^sup>*\<^sup>* w w' \<and> (False, ReadPipe) \<in> set (w_log w') \<and>
    w_child w' = Some (drop 3 network_child)"
  using assms
proof (induction "2 - j" arbitrary: j w)
  case 0
  then have j: "j = 2" by simp
  have "\<not> w_cwr w" using 0(2) j by (simp add: child_at_def)
  then have "child_step env w = Some (w\<lparr>w_child := Some (drop 3 network_child), w_log := w_log w @ [(False, ReadPipe)]\<rparr>)"
    using child_calls(3) [OF child_places(3) [OF 0(2) [unfolded j]]] 0(4) by simp
  then show ?case by (intro exI conjI, intro r_into_rtranclp) (auto simp: docker_step_def)
next
  case (Suc n)
  then have "j = 0 \<or> j = 1" by arith
  then have "\<exists>w1. child_step env w = Some w1 \<and> child_at (Suc j) w1 \<and> \<not> w_pwr w1"
  proof
    assume j: "j = 0"
    show ?thesis using child_calls(1) [OF child_places(1) [OF Suc.prems(1) [unfolded j]]] Suc.prems(1,3)
      unfolding j by (auto simp: child_at_def)
  next
    assume j: "j = 1"
    show ?thesis using child_calls(2) [OF child_places(2) [OF Suc.prems(1) [unfolded j]]] Suc.prems(1,3)
      unfolding j by (auto simp: child_at_def numeral_2_eq_2)
  qed
  then obtain w1 where w1: "child_step env w = Some w1" "child_at (Suc j) w1" "\<not> w_pwr w1" by blast
  then obtain w' where "(docker_step env network_child)\<^sup>*\<^sup>* w1 w'" "(False, ReadPipe) \<in> set (w_log w')"
    "w_child w' = Some (drop 3 network_child)"
    using Suc.hyps(1) [of "Suc j" w1] Suc.hyps(2) by (metis Suc_diff_Suc Suc_inject diff_Suc_Suc leI not_less_eq_eq zero_less_Suc zero_less_diff Suc_leI)
  moreover have "docker_step env network_child w w1" using w1(1) by (simp add: docker_step_def)
  ultimately show ?case by (meson converse_rtranclp_into_rtranclp)
qed

text \<open>If the calls before \<open>clone\<close> succeed, the container gets behind its read.\<close>

lemma reaches_read:
  assumes "calls_return env" and "d_pipe env" and "0 \<le> d_pid env"
    and "init_network (d_net env) (d_mem env) (w_pnet (docker_start network_main)) = Some (Some vs, s)"
  shows "\<exists>w. (docker_step env network_child)\<^sup>*\<^sup>* (docker_start network_main) w \<and> (False, ReadPipe) \<in> set (w_log w) \<and>
    w_child w = Some (drop 3 network_child)"
proof -
  let ?step = "docker_step env network_child" and ?w0 = "docker_start network_main"
  let ?w1 = "?w0\<lparr>w_parent := drop 1 network_main, w_log := [(True, PipeCall)], w_pwr := True\<rparr>"
  have p0: "parent_at 0 ?w0" by (simp add: parent_at_def docker_start_def)
  have w1: "?step ?w0 ?w1"
    unfolding docker_step_def parent_calls(1) [OF parent_places(1) [OF p0]]
    using assms(2) by (simp add: docker_start_def)
  have p1: "parent_at 1 ?w1" by (simp add: parent_at_def)
  let ?w2 = "?w1\<lparr>w_parent := drop 2 network_main, w_log := w_log ?w1 @ [(True, InitNetwork)], w_pnet := s, w_veth := Some vs\<rparr>"
  have w2: "?step ?w1 ?w2"
    unfolding docker_step_def parent_calls(2) [OF parent_places(2) [OF p1]]
    using assms(4) by simp
  have p2: "parent_at 2 ?w2" by (simp add: parent_at_def)
  let ?w3 = "?w2\<lparr>w_parent := drop 3 network_main, w_log := w_log ?w2 @ [(True, CloneCall)], w_child := Some network_child,
      w_cwr := w_pwr ?w2, w_cnet := w_pnet ?w2\<rparr>"
  have w3: "?step ?w2 ?w3"
    unfolding docker_step_def parent_calls(3) [OF parent_places(3) [OF p2]]
    using assms(3) by simp
  have p3: "parent_at 3 ?w3" by (simp add: parent_at_def)
  obtain w6 where w6: "?step\<^sup>*\<^sup>* ?w3 w6" "parent_at 6 w6" "w_child w6 = w_child ?w3" "w_cwr w6 = w_cwr ?w3"
    "(False, ReadPipe) \<in> set (w_log w6) \<longleftrightarrow> (False, ReadPipe) \<in> set (w_log ?w3)"
    using parent_runs [OF assms(1) p3] by auto
  then have c: "child_at 0 w6" by (simp add: child_at_def)
  moreover have "\<not> w_pwr w6" using w6(2) by (simp add: parent_at_def)
  ultimately obtain w where "?step\<^sup>*\<^sup>* w6 w" "(False, ReadPipe) \<in> set (w_log w)" "w_child w = Some (drop 3 network_child)"
    using child_reads by blast
  then show ?thesis using w1 w2 w3 w6(1) by (meson converse_rtranclp_into_rtranclp rtranclp_trans)
qed

lemma sample_reaches_read:
  "\<exists>w. (docker_step sample_docker network_child)\<^sup>*\<^sup>* (docker_start network_main) w \<and> (False, ReadPipe) \<in> set (w_log w) \<and>
    w_child w = Some (drop 3 network_child)"
proof -
  obtain vs s where "init_network sample_net_env sample_surroundings (w_pnet (docker_start network_main)) = Some (Some vs, s)"
    using init_network_accepted [OF sample_good_net sample_names_free sample_surroundings_sizes(2) sample_ifreq_ok sample_accepts]
    by blast
  then show ?thesis by (intro reaches_read [OF sample_calls_return]) (simp_all add: sample_docker_def)
qed

lemma cgroup_race:
  assumes "0 \<le> d_pid env" and "d_exec env"
  shows "\<exists>w. (docker_step env cgroup_child)\<^sup>*\<^sup>* (docker_start cgroup_main) w \<and> (False, Command) \<in> set (w_log w) \<and>
    w_parent w = [WriteCgroup step_cgroup_quota_us, WaitPid] \<and> w_files w = []"
proof -
  let ?step = "docker_step env cgroup_child" and ?w0 = "docker_start cgroup_main"
  let ?w1 = "?w0\<lparr>w_parent := [WriteCgroup step_cgroup_quota_us, WaitPid], w_child := Some cgroup_child, w_log := [(True, CloneCall)]\<rparr>"
  let ?w2 = "?w1\<lparr>w_child := Some [StartCmd], w_log := w_log ?w1 @ [(False, SetRoot)]\<rparr>"
  let ?w3 = "?w2\<lparr>w_child := Some [Command], w_log := w_log ?w2 @ [(False, StartCmd)]\<rparr>"
  let ?w4 = "?w3\<lparr>w_child := Some [], w_log := w_log ?w3 @ [(False, Command)]\<rparr>"
  have "?step ?w0 ?w1" "?step ?w1 ?w2" "?step ?w2 ?w3" "?step ?w3 ?w4"
    using assms by (simp_all add: docker_step_def parent_step_def child_step_def docker_start_def cgroup_main_def cgroup_child_def)
  then have "?step\<^sup>*\<^sup>* ?w0 ?w4" by (meson converse_rtranclp_into_rtranclp rtranclp.rtrancl_refl)
  then show ?thesis by (intro exI [of _ ?w4]) (simp add: docker_start_def)
qed



text \<open>
  C34: No deadlock and no way to get stuck: when the calls of \<open>step_network\<close> return, every reachable
  state can still run to one where \<open>main\<close> is over and the container has ended or was never
  created, and a state in which neither process can move is such a state.
\<close>

theorem container_can_end:
  assumes "calls_return env" and "(docker_step env network_child)\<^sup>*\<^sup>* (docker_start network_main) w"
  shows "(\<exists>w'. (docker_step env network_child)\<^sup>*\<^sup>* w w' \<and> docker_final w') \<and>
    ((\<nexists>w'. docker_step env network_child w w') \<longrightarrow> docker_final w)"
proof -
  have run: "returning_run env" by unfold_locales (rule assms(1))
  show ?thesis
    using returning_run.ends [OF run assms(2)] returning_run.not_stuck [OF run assms(2)]
    by blast
qed

lemma container_can_end_witness:
  "\<exists>w'. (docker_step sample_docker network_child)\<^sup>*\<^sup>* (docker_start network_main) w' \<and> docker_final w'"
  using container_can_end [OF sample_calls_return rtranclp.rtrancl_refl] by blast

end
