(* ===== verification/AtomicOps.thy ===== *)
theory AtomicOps
  imports Transition
begin

unbundle bit_operations_syntax

text \<open>
  The programs under \<open>thread\<close> that use one atomic word: \<open>cas.cpp\<close>, \<open>atomic/atomic_test_01.cpp\<close>,
  \<open>atomic/cmp_and_swap.cpp\<close> and \<open>atomic/cmp_and_swap2.cpp\<close>, with the assembly routine
  \<open>atomic/cmp_and_swap.asm\<close>.  The two threads of \<open>cmp_and_swap2.cpp\<close> interleave at their accesses
  to the counter; their stack variables are part of the state of a thread.
\<close>

section \<open>One word\<close>

text \<open>\<open>lock cmpxchg\<close>: the flag it sets, the word, and \<open>eax\<close>.\<close>

definition cmpxchg :: "u32 \<Rightarrow> u32 \<Rightarrow> u32 \<Rightarrow> bool \<times> u32 \<times> u32" where
  "cmpxchg mem eax new = (if mem = eax then (True, new, eax) else (False, mem, mem))"

text \<open>\<open>compare_and_swap\<close> moves its second argument to \<open>eax\<close> and returns the flag.\<close>

definition compare_and_swap :: "u32 \<Rightarrow> u32 \<Rightarrow> u32 \<Rightarrow> bool \<times> u32" where
  "compare_and_swap mem a b = (let (zf, mem', eax) = cmpxchg mem a b in (zf, mem'))"

text \<open>\<open>compare_exchange_strong\<close> also stores the value it found in \<open>expected\<close>.\<close>

definition compare_exchange_strong :: "u32 \<Rightarrow> u32 \<Rightarrow> u32 \<Rightarrow> bool \<times> u32 \<times> u32" where
  "compare_exchange_strong mem expected desired =
     (let (zf, mem', eax) = cmpxchg mem expected desired in (zf, mem', if zf then expected else eax))"

definition fetch_add :: "u32 \<Rightarrow> u32 \<Rightarrow> u32 \<times> u32" where
  "fetch_add mem d = (mem, mem + d)"

text \<open>\<open>foo\<close> and \<open>bar\<close> of \<open>cas.cpp\<close>: what is printed, and the word afterwards.\<close>

definition cas_foo :: "u32 \<Rightarrow> u32 \<times> u32" where
  "cas_foo n = (let (old_n, n) = fetch_add n 1 in (old_n, n))"

definition cas_bar :: "bool \<times> u32" where
  "cas_bar = (let n = 10; expected_value = 10; update_value = 11;
                  (ok, n, expected_value) = compare_exchange_strong n expected_value update_value
              in (ok, n))"

text \<open>\<open>main\<close> of \<open>atomic_test_01.cpp\<close> from \<open>atoi\<close> of its argument on: the word printed.\<close>

definition atomic_test_main :: "u32 \<Rightarrow> u32" where
  "atomic_test_main num =
     (let n = num; (ok, n, expected) = compare_exchange_strong n 10 200 in n)"

text \<open>\<open>main\<close> of \<open>cmp_and_swap.cpp\<close>: whether it prints success, and the word it prints.\<close>

definition cmp_and_swap_main :: "bool \<times> u32" where
  "cmp_and_swap_main = (let value = 1234; expected = 10; new_value = 100
                        in compare_and_swap value expected new_value)"

section \<open>Two threads that count\<close>

definition INCREMENTS :: nat where "INCREMENTS = 1000000"

text \<open>
  A thread is before the load of iteration \<open>i\<close>, or before the exchange of iteration \<open>i\<close> with
  \<open>old_val\<close> in its local variable, or has left the loop.
\<close>

datatype increment_pc = BeforeLoad nat | BeforeCas nat u32 | Left

record counting =
  counter :: u32
  threads :: "nat \<Rightarrow> increment_pc"

definition next_increment :: "nat \<Rightarrow> increment_pc" where
  "next_increment i = (if i < INCREMENTS then BeforeLoad i else Left)"

definition counting_start :: counting where
  "counting_start = \<lparr>counter = 0, threads = (\<lambda>_. next_increment 0)\<rparr>"

definition increment_step :: "nat \<Rightarrow> counting \<Rightarrow> counting option" where
  "increment_step t s =
     (case threads s t of
        BeforeLoad i \<Rightarrow> Some (s\<lparr>threads := (threads s)(t := BeforeCas i (counter s))\<rparr>)
      | BeforeCas i old_val \<Rightarrow>
          let new_val = old_val + 1;
              (ok, c) = compare_and_swap (counter s) old_val new_val
          in Some (s\<lparr>counter := c,
               threads := (threads s)(t := if ok then next_increment (i + 1) else BeforeLoad i)\<rparr>)
      | Left \<Rightarrow> None)"

text \<open>\<open>t1\<close> and \<open>t2\<close> are 0 and 1; \<open>main\<close> prints the counter when both have been joined.\<close>

definition counting_step :: "counting \<Rightarrow> counting \<Rightarrow> bool" where
  "counting_step s s' \<longleftrightarrow> (\<exists>t < 2. increment_step t s = Some s')"

definition both_joined :: "counting \<Rightarrow> bool" where
  "both_joined s \<longleftrightarrow> threads s 0 = Left \<and> threads s 1 = Left"

section \<open>The count\<close>

fun increments_done :: "increment_pc \<Rightarrow> nat" where
  "increments_done (BeforeLoad i) = i"
| "increments_done (BeforeCas i v) = i"
| "increments_done Left = INCREMENTS"

fun pc_ok :: "increment_pc \<Rightarrow> bool" where
  "pc_ok (BeforeLoad i) \<longleftrightarrow> i < INCREMENTS"
| "pc_ok (BeforeCas i v) \<longleftrightarrow> i < INCREMENTS"
| "pc_ok Left \<longleftrightarrow> True"

definition counting_inv :: "counting \<Rightarrow> bool" where
  "counting_inv s \<longleftrightarrow> pc_ok (threads s 0) \<and> pc_ok (threads s 1) \<and>
     counter s = word_of_nat (increments_done (threads s 0) + increments_done (threads s 1))"

lemma next_increment_done: "i < INCREMENTS \<Longrightarrow> increments_done (next_increment (i + 1)) = i + 1 \<and> pc_ok (next_increment (i + 1))"
  by (simp add: next_increment_def)

text \<open>One step, seen from the thread: its count and the counter move together.\<close>

lemma increment_step_counts:
  assumes "increment_step t s = Some s'" and "pc_ok (threads s t)"
  shows "pc_ok (threads s' t) \<and> (\<forall>u. u \<noteq> t \<longrightarrow> threads s' u = threads s u) \<and>
    counter s' - word_of_nat (increments_done (threads s' t)) = counter s - word_of_nat (increments_done (threads s t))"
  using assms next_increment_done
  by (auto simp: increment_step_def compare_and_swap_def cmpxchg_def Let_def split: increment_pc.splits if_splits)

lemma counting_inv_step:
  assumes "counting_inv s" and "counting_step s s'"
  shows "counting_inv s'"
proof -
  obtain t where t: "t < 2" "increment_step t s = Some s'" using assms(2) by (auto simp: counting_step_def)
  then consider "t = 0" | "t = 1" by linarith
  then show ?thesis
  proof cases
    case 1
    then show ?thesis using increment_step_counts [OF t(2)] assms(1)
      by (auto simp: counting_inv_def algebra_simps)
  next
    case 2
    then show ?thesis using increment_step_counts [OF t(2)] assms(1)
      by (auto simp: counting_inv_def algebra_simps)
  qed
qed

lemma counting_inv_start: "counting_inv counting_start"
  by (simp add: counting_inv_def counting_start_def next_increment_def INCREMENTS_def)

text \<open>What is left to do, for a run in which no exchange fails.\<close>

definition increments_left :: "counting \<Rightarrow> increment_pc \<Rightarrow> nat" where
  "increments_left s pc = (case pc of BeforeLoad i \<Rightarrow> 2 * (INCREMENTS - i) + 1
     | BeforeCas i v \<Rightarrow> 2 * (INCREMENTS - i) + (if v = counter s then 0 else 2) | Left \<Rightarrow> 0)"

text \<open>
  First thread 0 runs alone to its end, then thread 1.  A failed exchange is followed by a load that
  finds the counter, so two steps more are charged to a stale value.
\<close>

definition counting_rank :: "counting \<Rightarrow> nat" where
  "counting_rank s = increments_left s (threads s 0) +
     (if threads s 0 = Left then increments_left s (threads s 1)
      else 2 * (INCREMENTS - increments_done (threads s 1)) + 3)"

lemma increments_left_bound: "increments_left s pc \<le> 2 * (INCREMENTS - increments_done pc) + 2"
  by (cases pc) (simp_all add: increments_left_def)

text \<open>A step of a thread that is not done costs it at least one.\<close>

lemma increment_step_left:
  assumes "threads s t \<noteq> Left" and "pc_ok (threads s t)"
  shows "\<exists>s'. increment_step t s = Some s' \<and> increments_left s' (threads s' t) < increments_left s (threads s t)"
proof (cases "threads s t")
  case (BeforeLoad i)
  then show ?thesis by (simp add: increment_step_def increments_left_def)
next
  case (BeforeCas i v)
  then have "i < INCREMENTS" using assms(2) by simp
  then show ?thesis using BeforeCas
    by (auto simp: increment_step_def increments_left_def compare_and_swap_def cmpxchg_def next_increment_def)
qed (use assms(1) in simp)

lemma counting_stepI: "t < 2 \<Longrightarrow> increment_step t s = Some s' \<Longrightarrow> counting_step s s'"
  by (auto simp: counting_step_def)

lemma counting_progress:
  assumes "counting_inv s" and "\<not> both_joined s"
  shows "\<exists>s'. counting_step s s' \<and> counting_rank s' < counting_rank s"
proof (cases "threads s 0 = Left")
  case False
  obtain s' where s': "increment_step 0 s = Some s'" "increments_left s' (threads s' 0) < increments_left s (threads s 0)"
    using increment_step_left [OF False] assms(1) by (auto simp: counting_inv_def)
  have "threads s' 1 = threads s 1"
    using increment_step_counts [OF s'(1)] assms(1) by (simp add: counting_inv_def)
  then have "counting_rank s' < counting_rank s"
    using s'(2) False increments_left_bound [of s' "threads s 1"] by (auto simp: counting_rank_def)
  then show ?thesis using counting_stepI [OF _ s'(1)] by auto
next
  case True
  then have l: "threads s 1 \<noteq> Left" using assms(2) by (simp add: both_joined_def)
  obtain s' where s': "increment_step 1 s = Some s'" "increments_left s' (threads s' 1) < increments_left s (threads s 1)"
    using increment_step_left [OF l] assms(1) by (auto simp: counting_inv_def)
  have "threads s' 0 = threads s 0"
    using increment_step_counts [OF s'(1)] assms(1) by (simp add: counting_inv_def)
  then have "counting_rank s' < counting_rank s" using s'(2) True by (simp add: counting_rank_def increments_left_def)
  then show ?thesis using counting_stepI [OF _ s'(1)] by auto
qed

interpretation counting: ending_system counting_start counting_step counting_inv both_joined counting_rank
  by unfold_locales (fact counting_inv_start, fact counting_inv_step, fact counting_progress)

section \<open>Properties\<close>

text \<open>
  C18: No increment is lost: when both threads of \<open>cmp_and_swap2.cpp\<close> have been joined the counter is
  2000000, in every interleaving; and every reachable state can still run to that point.
\<close>

theorem counter_exact:
  assumes "counting_step\<^sup>*\<^sup>* counting_start s"
  shows "(both_joined s \<longrightarrow> counter s = 2000000) \<and>
    (\<exists>s'. counting_step\<^sup>*\<^sup>* s s' \<and> both_joined s' \<and> counter s' = 2000000)"
proof -
  have printed: "counter s = 2000000" if "counting_inv s" "both_joined s" for s
    using that by (simp add: counting_inv_def both_joined_def INCREMENTS_def)
  obtain s' where s': "counting_step\<^sup>*\<^sup>* s s'" "both_joined s'" using counting.reach_can_end [OF assms] by blast
  then have "counting_inv s'" using counting.reach_inv assms by (meson rtranclp_trans)
  then show ?thesis using printed counting.reach_inv [OF assms] s' by blast
qed

lemma counter_exact_witness:
  "\<exists>s. counting_step\<^sup>*\<^sup>* counting_start s \<and> both_joined s \<and> counter s = 2000000"
  using counter_exact [OF rtranclp.rtrancl_refl] by blast

text \<open>What the other programs print.\<close>

lemma one_word_programs:
  "cas_foo 0 = (0, 1)" "cas_bar = (True, 11)" "cmp_and_swap_main = (False, 1234)"
  "atomic_test_main num = (if num = 10 then 200 else num)"
  by (simp_all add: cas_foo_def cas_bar_def cmp_and_swap_main_def atomic_test_main_def fetch_add_def
      compare_exchange_strong_def compare_and_swap_def cmpxchg_def)

end
