(* ===== verification/LockFreeStack.thy ===== *)
theory LockFreeStack
  imports Transition
begin

text \<open>
  The stack of \<open>thread/atomic/test.cpp\<close>, for any number of threads that push and pop whenever they
  like.  A step is one access to shared memory: the allocation, the load of \<open>top\<close>, the store or
  read of \<open>next\<close>, the exchange, the read of \<open>data\<close>.  Nodes are never freed.  The exchange is taken
  to store its second argument and give true exactly when \<open>top\<close> is its first.

  The abstract specification is a list of integers with the three atomic operations in
  \<open>stack_event\<close>; the theorem is that every step of the code is one of them or leaves the list alone.
\<close>

section \<open>The code\<close>

record node =
  nd_data :: int
  nd_next :: "nat option"

text \<open>
  The program points of a thread.  \<open>n\<close> is \<open>newTop\<close>, \<open>old\<close> is \<open>oldTop\<close>; in \<open>pop\<close> it is not NULL
  behind the test.
\<close>

datatype stack_pc =
    Outside
  | PushLoad nat                          \<comment> \<open>before \<open>top.load()\<close>\<close>
  | PushNext nat "nat option"             \<comment> \<open>before \<open>newTop->next = oldTop\<close>\<close>
  | PushCas nat "nat option"              \<comment> \<open>before the exchange\<close>
  | PopLoad
  | PopNext nat                           \<comment> \<open>before \<open>oldTop->next\<close> is read\<close>
  | PopCas nat "nat option"               \<comment> \<open>before the exchange\<close>
  | PopData nat                           \<comment> \<open>before \<open>val = oldTop->data\<close>\<close>

record stack_state =
  st_top :: "nat option"
  st_heap :: "nat \<rightharpoonup> node"
  st_pc :: "nat \<Rightarrow> stack_pc"

definition stack_start :: stack_state where
  "stack_start = \<lparr>st_top = None, st_heap = Map.empty, st_pc = (\<lambda>_. Outside)\<rparr>"

text \<open>What a step does to the abstract stack, and what \<open>pop\<close> will return.\<close>

datatype stack_event = Silent | Pushed int | Popped int | PopEmpty

abbreviation at :: "nat \<Rightarrow> stack_pc \<Rightarrow> stack_state \<Rightarrow> stack_state" where
  "at t pc s \<equiv> s\<lparr>st_pc := (st_pc s)(t := pc)\<rparr>"

text \<open>
  \<open>stack_step t e s s'\<close>: thread \<open>t\<close> takes \<open>s\<close> to \<open>s'\<close>.  A thread that is outside may begin either
  operation; \<open>new\<close> gives a node that is not in use.
\<close>

inductive stack_step :: "nat \<Rightarrow> stack_event \<Rightarrow> stack_state \<Rightarrow> stack_state \<Rightarrow> bool" where
  push_new: "st_pc s t = Outside \<Longrightarrow> st_heap s n = None \<Longrightarrow>
    stack_step t Silent s (at t (PushLoad n) (s\<lparr>st_heap := (st_heap s)(n \<mapsto> \<lparr>nd_data = v, nd_next = None\<rparr>)\<rparr>))"
| push_load: "st_pc s t = PushLoad n \<Longrightarrow> stack_step t Silent s (at t (PushNext n (st_top s)) s)"
| push_next: "st_pc s t = PushNext n old \<Longrightarrow> st_heap s n = Some nd \<Longrightarrow>
    stack_step t Silent s (at t (PushCas n old) (s\<lparr>st_heap := (st_heap s)(n \<mapsto> nd\<lparr>nd_next := old\<rparr>)\<rparr>))"
| push_cas: "st_pc s t = PushCas n old \<Longrightarrow> st_top s = old \<Longrightarrow> st_heap s n = Some nd \<Longrightarrow>
    stack_step t (Pushed (nd_data nd)) s (at t Outside (s\<lparr>st_top := Some n\<rparr>))"
| push_again: "st_pc s t = PushCas n old \<Longrightarrow> st_top s \<noteq> old \<Longrightarrow> stack_step t Silent s (at t (PushLoad n) s)"
| pop_begin: "st_pc s t = Outside \<Longrightarrow> stack_step t Silent s (at t PopLoad s)"
| pop_empty: "st_pc s t = PopLoad \<Longrightarrow> st_top s = None \<Longrightarrow> stack_step t PopEmpty s (at t Outside s)"
| pop_load: "st_pc s t = PopLoad \<Longrightarrow> st_top s = Some n \<Longrightarrow> stack_step t Silent s (at t (PopNext n) s)"
| pop_next: "st_pc s t = PopNext n \<Longrightarrow> st_heap s n = Some nd \<Longrightarrow>
    stack_step t Silent s (at t (PopCas n (nd_next nd)) s)"
| pop_cas: "st_pc s t = PopCas n nxt \<Longrightarrow> st_top s = Some n \<Longrightarrow> st_heap s n = Some nd \<Longrightarrow>
    stack_step t (Popped (nd_data nd)) s (at t (PopData n) (s\<lparr>st_top := nxt\<rparr>))"
| pop_again: "st_pc s t = PopCas n nxt \<Longrightarrow> st_top s \<noteq> Some n \<Longrightarrow> stack_step t Silent s (at t PopLoad s)"
| pop_data: "st_pc s t = PopData n \<Longrightarrow> st_heap s n = Some nd \<Longrightarrow> stack_step t Silent s (at t Outside s)"

text \<open>A step of any thread.\<close>

definition stack_moves :: "stack_state \<Rightarrow> stack_state \<Rightarrow> bool" where
  "stack_moves s s' \<longleftrightarrow> (\<exists>t e. stack_step t e s s')"

section \<open>The list in the heap\<close>

fun stack_of :: "(nat \<rightharpoonup> node) \<Rightarrow> nat option \<Rightarrow> int list \<Rightarrow> bool" where
  "stack_of h p [] \<longleftrightarrow> p = None"
| "stack_of h p (v # vs) \<longleftrightarrow> (case p of None \<Rightarrow> False
     | Some a \<Rightarrow> case h a of None \<Rightarrow> False | Some nd \<Rightarrow> nd_data nd = v \<and> stack_of h (nd_next nd) vs)"

text \<open>The nodes of the list.\<close>

fun chain :: "(nat \<rightharpoonup> node) \<Rightarrow> nat option \<Rightarrow> nat list \<Rightarrow> bool" where
  "chain h p [] \<longleftrightarrow> p = None"
| "chain h p (a # as) \<longleftrightarrow> p = Some a \<and> (\<exists>nd. h a = Some nd \<and> chain h (nd_next nd) as)"

lemma stack_of_unique: "stack_of h p vs \<Longrightarrow> stack_of h p ws \<Longrightarrow> vs = ws"
proof (induction vs arbitrary: p ws)
  case Nil
  then show ?case by (cases ws) simp_all
next
  case (Cons v vs)
  then show ?case by (cases ws) (auto split: option.splits)
qed

lemma chain_stack_of: "chain h p as \<Longrightarrow> stack_of h p (map (\<lambda>a. nd_data (the (h a))) as)"
  by (induction as arbitrary: p) auto

lemma chain_update: "chain h p as \<Longrightarrow> n \<notin> set as \<Longrightarrow> chain (h(n \<mapsto> x)) p as"
  by (induction as arbitrary: p) auto

lemma stack_of_update: "chain h p as \<Longrightarrow> n \<notin> set as \<Longrightarrow> stack_of (h(n \<mapsto> x)) p vs = stack_of h p vs"
proof (induction vs arbitrary: p as)
  case (Cons v vs)
  then show ?case by (cases as) auto
qed simp

lemma chain_in_heap: "chain h p as \<Longrightarrow> a \<in> set as \<Longrightarrow> h a \<noteq> None"
  by (induction as arbitrary: p) auto

section \<open>The invariant\<close>

text \<open>The node a thread is about to publish; the node a popping thread holds.\<close>

fun own_node :: "stack_pc \<Rightarrow> nat option" where
  "own_node (PushLoad n) = Some n"
| "own_node (PushNext n old) = Some n"
| "own_node (PushCas n old) = Some n"
| "own_node _ = None"

fun held_node :: "stack_pc \<Rightarrow> nat option" where
  "held_node (PopNext n) = Some n"
| "held_node (PopCas n nxt) = Some n"
| "held_node (PopData n) = Some n"
| "held_node _ = None"

text \<open>What a thread knows of the heap.  A published node never changes, so this stays true.\<close>

fun pc_knows :: "(nat \<rightharpoonup> node) \<Rightarrow> stack_pc \<Rightarrow> bool" where
  "pc_knows h (PushCas n old) \<longleftrightarrow> (\<exists>nd. h n = Some nd \<and> nd_next nd = old)"
| "pc_knows h (PopCas n nxt) \<longleftrightarrow> (\<exists>nd. h n = Some nd \<and> nd_next nd = nxt)"
| "pc_knows h pc \<longleftrightarrow> True"

definition stack_inv :: "stack_state \<Rightarrow> bool" where
  "stack_inv s \<longleftrightarrow>
     (\<exists>as. chain (st_heap s) (st_top s) as \<and> (\<forall>t n. own_node (st_pc s t) = Some n \<longrightarrow> n \<notin> set as)) \<and>
     (\<forall>t n. own_node (st_pc s t) = Some n \<longrightarrow> st_heap s n \<noteq> None) \<and>
     (\<forall>t n. held_node (st_pc s t) = Some n \<longrightarrow> st_heap s n \<noteq> None) \<and>
     (\<forall>t u n. own_node (st_pc s t) = Some n \<and> own_node (st_pc s u) = Some n \<longrightarrow> t = u) \<and>
     (\<forall>t u n. own_node (st_pc s t) = Some n \<longrightarrow> held_node (st_pc s u) \<noteq> Some n) \<and>
     (\<forall>t. pc_knows (st_heap s) (st_pc s t))"

lemma stack_inv_start: "stack_inv stack_start"
  by (auto simp: stack_inv_def stack_start_def intro: exI [of _ "[]"])

lemma stack_invI:
  assumes "chain (st_heap s) (st_top s) as" and "\<And>t n. own_node (st_pc s t) = Some n \<Longrightarrow> n \<notin> set as \<and> st_heap s n \<noteq> None"
    and "\<And>t n. held_node (st_pc s t) = Some n \<Longrightarrow> st_heap s n \<noteq> None"
    and "\<And>t u n. own_node (st_pc s t) = Some n \<Longrightarrow> own_node (st_pc s u) = Some n \<Longrightarrow> t = u"
    and "\<And>t u n. own_node (st_pc s t) = Some n \<Longrightarrow> held_node (st_pc s u) \<noteq> Some n"
    and "\<And>t. pc_knows (st_heap s) (st_pc s t)"
  shows "stack_inv s"
  using assms unfolding stack_inv_def by blast

lemma stack_invE:
  assumes "stack_inv s"
  obtains as where "chain (st_heap s) (st_top s) as"
    and "\<And>t n. own_node (st_pc s t) = Some n \<Longrightarrow> n \<notin> set as \<and> st_heap s n \<noteq> None"
    and "\<And>t n. held_node (st_pc s t) = Some n \<Longrightarrow> st_heap s n \<noteq> None"
    and "\<And>t u n. own_node (st_pc s t) = Some n \<Longrightarrow> own_node (st_pc s u) = Some n \<Longrightarrow> t = u"
    and "\<And>t u n. own_node (st_pc s t) = Some n \<Longrightarrow> held_node (st_pc s u) \<noteq> Some n"
    and "\<And>t. pc_knows (st_heap s) (st_pc s t)"
proof -
  obtain as where "chain (st_heap s) (st_top s) as" "\<forall>t n. own_node (st_pc s t) = Some n \<longrightarrow> n \<notin> set as"
    using assms unfolding stack_inv_def by blast
  then show ?thesis
    by (rule_tac that [of as]) (use assms in \<open>simp_all add: stack_inv_def\<close>)
qed

text \<open>A step that only moves its thread on.\<close>

lemma stack_inv_local:
  assumes "stack_inv s" and "own_node pc = None \<or> own_node pc = own_node (st_pc s t)"
    and "held_node pc = None \<or> held_node pc = held_node (st_pc s t) \<or> held_node pc = st_top s" and "pc_knows (st_heap s) pc"
  shows "stack_inv (at t pc s)"
proof -
  obtain as where as: "chain (st_heap s) (st_top s) as"
    and o: "\<And>t n. own_node (st_pc s t) = Some n \<Longrightarrow> n \<notin> set as \<and> st_heap s n \<noteq> None"
    and h: "\<And>t n. held_node (st_pc s t) = Some n \<Longrightarrow> st_heap s n \<noteq> None"
    and u: "\<And>t u n. own_node (st_pc s t) = Some n \<Longrightarrow> own_node (st_pc s u) = Some n \<Longrightarrow> t = u"
    and d: "\<And>t u n. own_node (st_pc s t) = Some n \<Longrightarrow> held_node (st_pc s u) \<noteq> Some n"
    and k: "\<And>t. pc_knows (st_heap s) (st_pc s t)"
    using stack_invE [OF assms(1)] by blast
  have top: "n \<in> set as" if "st_top s = Some n" for n using as that by (cases as) auto
  have hn: "st_heap s n \<noteq> None" "own_node (st_pc s v) \<noteq> Some n" if "held_node pc = Some n" for n v
    using assms(3) that h [of t n] d [of v n t] o [of v n] top [of n] chain_in_heap [OF as] by auto
  show ?thesis
  proof (rule stack_invI [of _ as])
    show "chain (st_heap (at t pc s)) (st_top (at t pc s)) as" using as by simp
  next
    fix v n assume "own_node (st_pc (at t pc s) v) = Some n"
    then have "own_node (st_pc s v) = Some n" using assms(2) by (auto split: if_splits)
    then show "n \<notin> set as \<and> st_heap (at t pc s) n \<noteq> None" using o by simp
  next
    fix v n assume "held_node (st_pc (at t pc s) v) = Some n"
    then show "st_heap (at t pc s) n \<noteq> None" using hn(1) h by (auto split: if_splits)
  next
    fix v w n assume "own_node (st_pc (at t pc s) v) = Some n" "own_node (st_pc (at t pc s) w) = Some n"
    then have "own_node (st_pc s v) = Some n" "own_node (st_pc s w) = Some n" using assms(2) by (auto split: if_splits)
    then show "v = w" by (rule u)
  next
    fix v w n assume "own_node (st_pc (at t pc s) v) = Some n"
    then have "own_node (st_pc s v) = Some n" using assms(2) by (auto split: if_splits)
    then show "held_node (st_pc (at t pc s) w) \<noteq> Some n" using d hn(2) by (auto split: if_splits)
  next
    fix v show "pc_knows (st_heap (at t pc s)) (st_pc (at t pc s) v)" using k assms(4) by simp
  qed
qed

text \<open>A store to a node that a thread owns, or that is new, disturbs nobody else.\<close>

lemma pc_knows_update:
  "pc_knows h pc \<Longrightarrow> own_node pc \<noteq> Some n \<Longrightarrow> held_node pc \<noteq> Some n \<Longrightarrow> pc_knows (h(n \<mapsto> x)) pc"
  by (cases pc) auto

lemma stack_inv_store:
  assumes "stack_inv s" and "own_node pc = Some n" and "held_node pc = None"
    and "own_node (st_pc s t) = Some n \<or> st_heap s n = None" and "pc_knows ((st_heap s)(n \<mapsto> x)) pc"
  shows "stack_inv (at t pc (s\<lparr>st_heap := (st_heap s)(n \<mapsto> x)\<rparr>))" (is "stack_inv ?s")
proof -
  obtain as where as: "chain (st_heap s) (st_top s) as"
    and o: "\<And>t n. own_node (st_pc s t) = Some n \<Longrightarrow> n \<notin> set as \<and> st_heap s n \<noteq> None"
    and h: "\<And>t n. held_node (st_pc s t) = Some n \<Longrightarrow> st_heap s n \<noteq> None"
    and u: "\<And>t u n. own_node (st_pc s t) = Some n \<Longrightarrow> own_node (st_pc s u) = Some n \<Longrightarrow> t = u"
    and d: "\<And>t u n. own_node (st_pc s t) = Some n \<Longrightarrow> held_node (st_pc s u) \<noteq> Some n"
    and k: "\<And>t. pc_knows (st_heap s) (st_pc s t)"
    using stack_invE [OF assms(1)] by blast
  have n: "n \<notin> set as" "\<And>v. v \<noteq> t \<Longrightarrow> own_node (st_pc s v) \<noteq> Some n" "\<And>v. held_node (st_pc s v) \<noteq> Some n"
    using assms(4) o u d h chain_in_heap [OF as] by blast+
  show ?thesis
  proof (rule stack_invI [of _ as])
    show "chain (st_heap ?s) (st_top ?s) as" using chain_update [OF as n(1)] by simp
  next
    fix v m assume "own_node (st_pc ?s v) = Some m"
    then show "m \<notin> set as \<and> st_heap ?s m \<noteq> None" using o n(1) assms(2) by (auto split: if_splits)
  next
    fix v m assume "held_node (st_pc ?s v) = Some m"
    then show "st_heap ?s m \<noteq> None" using h assms(3) by (auto split: if_splits)
  next
    fix v w m assume "own_node (st_pc ?s v) = Some m" "own_node (st_pc ?s w) = Some m"
    then show "v = w" using u n(2) assms(2) by (fastforce split: if_splits)
  next
    fix v w m assume "own_node (st_pc ?s v) = Some m"
    then show "held_node (st_pc ?s w) \<noteq> Some m" using d n(3) assms(2,3) by (fastforce split: if_splits)
  next
    fix v show "pc_knows (st_heap ?s) (st_pc ?s v)"
      using k assms(5) pc_knows_update [OF k n(2) n(3)] by simp
  qed
qed

lemma stack_inv_push:
  assumes "stack_inv s" and "st_pc s t = PushCas n (st_top s)"
  shows "stack_inv (at t Outside (s\<lparr>st_top := Some n\<rparr>))" (is "stack_inv ?s")
proof -
  obtain as where as: "chain (st_heap s) (st_top s) as"
    and o: "\<And>t n. own_node (st_pc s t) = Some n \<Longrightarrow> n \<notin> set as \<and> st_heap s n \<noteq> None"
    and h: "\<And>t n. held_node (st_pc s t) = Some n \<Longrightarrow> st_heap s n \<noteq> None"
    and u: "\<And>t u n. own_node (st_pc s t) = Some n \<Longrightarrow> own_node (st_pc s u) = Some n \<Longrightarrow> t = u"
    and d: "\<And>t u n. own_node (st_pc s t) = Some n \<Longrightarrow> held_node (st_pc s u) \<noteq> Some n"
    and k: "\<And>t. pc_knows (st_heap s) (st_pc s t)"
    using stack_invE [OF assms(1)] by blast
  have own: "own_node (st_pc s t) = Some n" using assms(2) by simp
  have ch: "chain (st_heap s) (Some n) (n # as)" using k [of t] as assms(2) by auto
  show ?thesis
  proof (rule stack_invI [of _ "n # as"])
    fix v m assume "own_node (st_pc ?s v) = Some m"
    then have v: "v \<noteq> t" "own_node (st_pc s v) = Some m" by (auto split: if_splits)
    then have "m \<noteq> n" using u own by blast
    then show "m \<notin> set (n # as) \<and> st_heap ?s m \<noteq> None" using o [OF v(2)] by simp
    fix w show "held_node (st_pc ?s w) \<noteq> Some m" using d [OF v(2)] by simp
  next
    fix v w m assume "own_node (st_pc ?s v) = Some m" "own_node (st_pc ?s w) = Some m"
    then show "v = w" using u by (auto split: if_splits)
  qed (use ch h k in \<open>auto split: if_splits\<close>)
qed

lemma stack_inv_pop:
  assumes "stack_inv s" and "st_pc s t = PopCas n nxt" and "st_top s = Some n"
  shows "stack_inv (at t (PopData n) (s\<lparr>st_top := nxt\<rparr>))" (is "stack_inv ?s")
proof -
  obtain as where as: "chain (st_heap s) (st_top s) as"
    and o: "\<And>t n. own_node (st_pc s t) = Some n \<Longrightarrow> n \<notin> set as \<and> st_heap s n \<noteq> None"
    and h: "\<And>t n. held_node (st_pc s t) = Some n \<Longrightarrow> st_heap s n \<noteq> None"
    and u: "\<And>t u n. own_node (st_pc s t) = Some n \<Longrightarrow> own_node (st_pc s u) = Some n \<Longrightarrow> t = u"
    and d: "\<And>t u n. own_node (st_pc s t) = Some n \<Longrightarrow> held_node (st_pc s u) \<noteq> Some n"
    and k: "\<And>t. pc_knows (st_heap s) (st_pc s t)"
    using stack_invE [OF assms(1)] by blast
  obtain rest where rest: "as = n # rest" "chain (st_heap s) nxt rest"
    using as assms(2,3) k [of t] by (cases as) auto
  have held: "held_node (st_pc s t) = Some n" using assms(2) by simp
  show ?thesis
  proof (rule stack_invI [of _ rest])
    fix v m assume "own_node (st_pc ?s v) = Some m"
    then have v: "own_node (st_pc s v) = Some m" by (auto split: if_splits)
    then show "m \<notin> set rest \<and> st_heap ?s m \<noteq> None" using o [OF v] rest(1) by simp
    fix w show "held_node (st_pc ?s w) \<noteq> Some m" using d [OF v] held by (auto split: if_splits)
  next
    fix v w m assume "own_node (st_pc ?s v) = Some m" "own_node (st_pc ?s w) = Some m"
    then show "v = w" using u by (auto split: if_splits)
  next
    fix v m assume "held_node (st_pc ?s v) = Some m"
    then show "st_heap ?s m \<noteq> None" using h held by (auto split: if_splits)
  qed (use rest k in \<open>auto split: if_splits\<close>)
qed

lemma stack_inv_step:
  assumes "stack_inv s" and "stack_step t e s s'"
  shows "stack_inv s'"
  using assms(2,1)
proof (cases rule: stack_step.cases)
  case (push_new n v)
  then show ?thesis using stack_inv_store [OF assms(1), of "PushLoad n" n t] by simp
next
  case (push_next n old nd)
  then show ?thesis using stack_inv_store [OF assms(1), of "PushCas n old" n t "nd\<lparr>nd_next := old\<rparr>"] by simp
next
  case (push_cas n old nd)
  then show ?thesis using stack_inv_push [OF assms(1), of t n] by simp
next
  case (pop_cas n nxt nd)
  then show ?thesis using stack_inv_pop [OF assms(1), of t n nxt] by simp
qed (auto intro!: stack_inv_local)

lemma stack_moves_inv: "stack_inv s \<Longrightarrow> stack_moves s s' \<Longrightarrow> stack_inv s'"
  by (auto simp: stack_moves_def intro: stack_inv_step)

interpretation stack: inv_system stack_start stack_moves stack_inv
  by unfold_locales (fact stack_inv_start, fact stack_moves_inv)

section \<open>The refinement\<close>

text \<open>The specification: a sequence of events on a list, \<open>None\<close> if one of them does not fit.\<close>

fun spec_run :: "stack_event list \<Rightarrow> int list \<Rightarrow> int list option" where
  "spec_run [] vs = Some vs"
| "spec_run (Silent # es) vs = spec_run es vs"
| "spec_run (Pushed v # es) vs = spec_run es (v # vs)"
| "spec_run (Popped v # es) vs =
     (case vs of [] \<Rightarrow> None | w # ws \<Rightarrow> if w = v then spec_run es ws else None)"
| "spec_run (PopEmpty # es) vs = (if vs = [] then spec_run es vs else None)"

lemma spec_run_append: "spec_run (es @ fs) vs = Option.bind (spec_run es vs) (spec_run fs)"
  by (induction es vs rule: spec_run.induct) (auto split: list.splits)

lemma stack_of_None: "stack_of h None vs \<longleftrightarrow> vs = []"
  by (cases vs) simp_all

text \<open>One step of the code is one event of the specification.\<close>

lemma stack_step_refines:
  assumes "stack_inv s" and "stack_step t e s s'" and "stack_of (st_heap s) (st_top s) vs"
  shows "\<exists>vs'. spec_run [e] vs = Some vs' \<and> stack_of (st_heap s') (st_top s') vs'"
proof -
  obtain as where as: "chain (st_heap s) (st_top s) as"
    and o: "\<And>t n. own_node (st_pc s t) = Some n \<Longrightarrow> n \<notin> set as \<and> st_heap s n \<noteq> None"
    and k: "\<And>t. pc_knows (st_heap s) (st_pc s t)"
    using stack_invE [OF assms(1)] by metis
  have store: "stack_of ((st_heap s)(n \<mapsto> x)) (st_top s) vs" if "n \<notin> set as" for n x
    using stack_of_update [OF as that] assms(3) by simp
  show ?thesis using assms(2)
  proof (cases rule: stack_step.cases)
    case (push_new n v)
    then have "n \<notin> set as" using chain_in_heap [OF as] by blast
    then show ?thesis using push_new store by simp
  next
    case (push_next n old nd)
    then have "n \<notin> set as" using o [of t n] by simp
    then show ?thesis using push_next store by simp
  next
    case (push_cas n old nd)
    then show ?thesis using assms(3) k [of t] by auto
  next
    case (pop_cas n nxt nd)
    then show ?thesis using assms(3) k [of t] by (cases vs) auto
  next
    case pop_empty
    then show ?thesis using assms(3) stack_of_None by simp
  qed (use assms(3) in simp_all)
qed

text \<open>A run with the events of its steps.\<close>

inductive stack_run :: "stack_event list \<Rightarrow> stack_state \<Rightarrow> bool" where
  run_start: "stack_run [] stack_start"
| run_step: "stack_run es s \<Longrightarrow> stack_step t e s s' \<Longrightarrow> stack_run (es @ [e]) s'"

lemma stack_run_inv: "stack_run es s \<Longrightarrow> stack_inv s"
  by (induction rule: stack_run.induct) (auto intro: stack_inv_start stack_inv_step)

lemma stack_run_refines: "stack_run es s \<Longrightarrow> \<exists>vs. spec_run es [] = Some vs \<and> stack_of (st_heap s) (st_top s) vs"
proof (induction rule: stack_run.induct)
  case run_start
  then show ?case by (simp add: stack_start_def)
next
  case (run_step es s t e s')
  then obtain vs where vs: "spec_run es [] = Some vs" "stack_of (st_heap s) (st_top s) vs" by blast
  then obtain vs' where "spec_run [e] vs = Some vs'" "stack_of (st_heap s') (st_top s') vs'"
    using stack_step_refines [OF stack_run_inv [OF run_step(1)] run_step(2)] by blast
  then show ?case using vs(1) by (auto simp: spec_run_append)
qed

text \<open>A thread inside an operation always has a step: no dangling pointer, no blocking.\<close>

lemma stack_thread_moves:
  assumes "stack_inv s" and "st_pc s t \<noteq> Outside"
  shows "\<exists>e s'. stack_step t e s s'"
proof -
  have o: "\<And>n. own_node (st_pc s t) = Some n \<Longrightarrow> st_heap s n \<noteq> None"
    and h: "\<And>n. held_node (st_pc s t) = Some n \<Longrightarrow> st_heap s n \<noteq> None"
    using assms(1) unfolding stack_inv_def by blast+
  show ?thesis
  proof (cases "st_pc s t")
    case (PushNext n old)
    then show ?thesis using o [of n] stack_step.push_next by fastforce
  next
    case (PushCas n old)
    then obtain nd where "st_heap s n = Some nd" using o [of n] by auto
    then show ?thesis using PushCas stack_step.push_cas stack_step.push_again by metis
  next
    case (PopCas n nxt)
    then obtain nd where "st_heap s n = Some nd" using h [of n] by auto
    then show ?thesis using PopCas stack_step.pop_cas stack_step.pop_again by metis
  next
    case (PopNext n)
    then show ?thesis using h [of n] stack_step.pop_next by fastforce
  next
    case (PopData n)
    then show ?thesis using h [of n] stack_step.pop_data by fastforce
  next
    case PopLoad
    then show ?thesis using stack_step.pop_empty stack_step.pop_load by (metis not_None_eq)
  qed (use assms(2) stack_step.push_load in blast)+
qed

lemma stack_step_data:
  "stack_step t e s s' \<Longrightarrow> st_heap s n = Some nd \<Longrightarrow> \<exists>nd'. st_heap s' n = Some nd' \<and> nd_data nd' = nd_data nd"
  by (cases rule: stack_step.cases) auto

section \<open>The property\<close>

text \<open>
  C17: The stack is linearizable: in every run of any number of threads, the successful exchanges and
  the loads that find it empty, in the order in which they happen, are a run of a sequential stack,
  and the list in memory is that stack's contents.  A thread inside \<open>push\<close> or \<open>pop\<close> always has a
  next step (no node it looks at is missing), and the data of a node never changes, so what \<open>pop\<close>
  reads after its exchange is the value it took.  Freeing no node is what makes this true: an address
  is never used twice.
\<close>

theorem stack_linearizable:
  assumes "stack_run es s"
  shows "(\<exists>vs. spec_run es [] = Some vs \<and> stack_of (st_heap s) (st_top s) vs) \<and>
    (\<forall>t. st_pc s t \<noteq> Outside \<longrightarrow> (\<exists>e s'. stack_step t e s s')) \<and>
    (\<forall>t e s' n nd. stack_step t e s s' \<and> st_heap s n = Some nd \<longrightarrow>
       (\<exists>nd'. st_heap s' n = Some nd' \<and> nd_data nd' = nd_data nd))"
  using stack_run_refines [OF assms] stack_thread_moves [OF stack_run_inv [OF assms]] stack_step_data by blast

text \<open>Thread 0 pushes 5 while thread 1 pops it.\<close>

lemma sample_stack_run:
  "\<exists>s. stack_run [Silent, Silent, Silent, Silent, Pushed 5, Silent, Silent, Popped 5] s \<and> st_top s = None"
proof -
  let ?s1 = "at 1 PopLoad stack_start"
  let ?s2 = "at 0 (PushLoad 9) (?s1\<lparr>st_heap := (st_heap ?s1)(9 \<mapsto> \<lparr>nd_data = 5, nd_next = None\<rparr>)\<rparr>)"
  let ?s3 = "at 0 (PushNext 9 (st_top ?s2)) ?s2"
  let ?s4 = "at 0 (PushCas 9 None) (?s3\<lparr>st_heap := (st_heap ?s3)(9 \<mapsto> \<lparr>nd_data = 5, nd_next = None\<rparr>\<lparr>nd_next := None\<rparr>)\<rparr>)"
  let ?s5 = "at 0 Outside (?s4\<lparr>st_top := Some 9\<rparr>)"
  let ?s6 = "at 1 (PopNext 9) ?s5"
  let ?s7 = "at 1 (PopCas 9 (nd_next \<lparr>nd_data = 5, nd_next = None\<rparr>)) ?s6"
  let ?s8 = "at 1 (PopData 9) (?s7\<lparr>st_top := None\<rparr>)"
  have steps: "stack_step 1 Silent stack_start ?s1" "stack_step 0 Silent ?s1 ?s2" "stack_step 0 Silent ?s2 ?s3"
    "stack_step 0 Silent ?s3 ?s4" "stack_step 0 (Pushed (nd_data \<lparr>nd_data = 5, nd_next = None\<rparr>)) ?s4 ?s5"
    "stack_step 1 Silent ?s5 ?s6" "stack_step 1 Silent ?s6 ?s7"
    "stack_step 1 (Popped (nd_data \<lparr>nd_data = 5, nd_next = None\<rparr>)) ?s7 ?s8"
           apply (rule stack_step.pop_begin, simp add: stack_start_def)
          apply (rule stack_step.push_new, simp_all add: stack_start_def)[1]
         apply (rule stack_step.push_load, simp)
        apply (rule stack_step.push_next, simp_all add: stack_start_def)[1]
       apply (rule stack_step.push_cas, simp_all add: stack_start_def)[1]
      apply (rule stack_step.pop_load, simp_all)[1]
     apply (rule stack_step.pop_next, simp_all)[1]
    apply (rule stack_step.pop_cas, simp_all)[1]
    done
  have "stack_run ([] @ [Silent] @ [Silent] @ [Silent] @ [Silent] @ [Pushed 5] @ [Silent] @ [Silent] @ [Popped 5]) ?s8"
    using run_step [OF run_step [OF run_step [OF run_step [OF run_step [OF run_step [OF run_step [OF run_step
      [OF run_start steps(1)] steps(2)] steps(3)] steps(4)] steps(5)] steps(6)] steps(7)] steps(8)]
    by (simp only: append_assoc append_Nil node.simps)
  then show ?thesis by (intro exI [of _ ?s8]) simp
qed

lemma stack_linearizable_witness:
  "\<exists>s vs. stack_run [Silent, Silent, Silent, Silent, Pushed 5, Silent, Silent, Popped 5] s \<and> stack_of (st_heap s) (st_top s) vs \<and>
     spec_run [Silent, Silent, Silent, Silent, Pushed 5, Silent, Silent, Popped 5] [] = Some vs \<and> vs = []"
  using sample_stack_run stack_linearizable by fastforce

end
