(* ===== verification/RouteTrie.thy ===== *)
theory RouteTrie
  imports Prelude Refinement "HOL-Library.Sublist"
begin

text \<open>
  The routing table of \<open>network/route/route_test.cpp\<close>: a binary trie over addresses written as
  strings of \<open>0\<close> and \<open>1\<close>.  \<open>None\<close> is undefined behaviour: an index outside \<open>children\<close>, which any
  other character gives (also the NUL behind the last one), or a null pointer.  A node belongs to one
  parent, so the heap is a tree.
\<close>

section \<open>The code\<close>

datatype trie = Null | TrieNode trie trie bool string string   \<comment> \<open>children, \<open>isLeaf\<close>, \<open>prefix\<close>, \<open>nexthop\<close>\<close>

definition new_node :: trie where
  "new_node = TrieNode Null Null False '''' ''''"

definition child_index :: "char \<Rightarrow> bool option" where
  "child_index c = (if c = CHR ''0'' then Some False else if c = CHR ''1'' then Some True else None)"

fun child :: "bool \<Rightarrow> trie \<Rightarrow> trie" where
  "child idx Null = Null"
| "child idx (TrieNode c0 c1 leaf pre hop) = (if idx then c1 else c0)"

fun set_child :: "bool \<Rightarrow> trie \<Rightarrow> trie \<Rightarrow> trie" where
  "set_child idx x Null = Null"
| "set_child idx x (TrieNode c0 c1 leaf pre hop) =
     (if idx then TrieNode c0 x leaf pre hop else TrieNode x c1 leaf pre hop)"

fun set_prefix :: "string \<Rightarrow> trie \<Rightarrow> trie" where
  "set_prefix p Null = Null"
| "set_prefix p (TrieNode c0 c1 leaf pre hop) = TrieNode c0 c1 leaf p hop"

fun make_leaf :: "string \<Rightarrow> trie \<Rightarrow> trie" where
  "make_leaf nexthop Null = Null"
| "make_leaf nexthop (TrieNode c0 c1 leaf pre hop) = TrieNode c0 c1 True pre nexthop"

text \<open>
  The loop of \<open>insert\<close> from index \<open>i\<close> on, with \<open>n\<close> iterations left; it gives the new version of the
  node it starts at.
\<close>

fun insert_loop :: "string \<Rightarrow> nat \<Rightarrow> nat \<Rightarrow> string \<Rightarrow> trie \<Rightarrow> trie option" where
  "insert_loop ip i 0 nexthop node = Some (make_leaf nexthop node)"
| "insert_loop ip i (Suc n) nexthop node =
     (if i < length ip then do {
        idx \<leftarrow> child_index (ip ! i);
        let next = (if child idx node = Null then new_node else child idx node);
        next \<leftarrow> insert_loop ip (i + 1) n nexthop (set_prefix (take (i + 1) ip) next);
        Some (set_child idx next node)
      } else None)"

definition trie_insert :: "string \<Rightarrow> int \<Rightarrow> string \<Rightarrow> trie \<Rightarrow> trie option" where
  "trie_insert ip prefixLen nexthop root = insert_loop ip 0 (nat prefixLen) nexthop root"

text \<open>The first loop of \<open>search\<close>, over the characters that are left.\<close>

fun search_down :: "string \<Rightarrow> trie \<Rightarrow> trie option" where
  "search_down [] node = Some node"
| "search_down (c # cs) node = do {
     idx \<leftarrow> child_index c;
     if child idx node = Null then Some node else search_down cs (child idx node)
   }"

text \<open>The second loop, which is meant to go back to the longest prefix.\<close>

fun search_leaf :: "trie \<Rightarrow> string option" where
  "search_leaf Null = None"
| "search_leaf (TrieNode c0 c1 leaf pre hop) =
     (if leaf then Some hop else if c0 \<noteq> Null then search_leaf c0 else search_leaf c1)"

definition trie_search :: "string \<Rightarrow> trie \<Rightarrow> string option" where
  "trie_search ip root = do { node \<leftarrow> search_down ip root; search_leaf node }"

text \<open>The table and the searches of \<open>main\<close>.\<close>

definition main_table :: "trie option" where
  "main_table = do {
     t \<leftarrow> trie_insert ''10000000'' 1 ''192.168.1.1'' new_node;
     t \<leftarrow> trie_insert ''11000000'' 2 ''192.168.2.1'' t;
     t \<leftarrow> trie_insert ''11000000'' 3 ''192.168.3.1'' t;
     trie_insert ''11100000'' 3 ''192.168.4.1'' t
   }"

definition main_output :: "string list option" where
  "main_output = do {
     t \<leftarrow> main_table;
     a \<leftarrow> trie_search ''11000011'' t;
     b \<leftarrow> trie_search ''11010101'' t;
     c \<leftarrow> trie_search ''11100011'' t;
     d \<leftarrow> trie_search ''10011000'' t;
     Some [a, b, c, d]
   }"

section \<open>The table as a map\<close>

definition bits :: "string \<Rightarrow> bool" where
  "bits ip \<longleftrightarrow> set ip \<subseteq> {CHR ''0'', CHR ''1''}"

fun node_at :: "string \<Rightarrow> trie \<Rightarrow> trie" where
  "node_at [] t = t"
| "node_at (c # cs) t = (case child_index c of None \<Rightarrow> Null | Some idx \<Rightarrow> node_at cs (child idx t))"

fun leaf_hop :: "trie \<Rightarrow> string option" where
  "leaf_hop Null = None"
| "leaf_hop (TrieNode c0 c1 leaf pre hop) = (if leaf then Some hop else None)"

definition route :: "trie \<Rightarrow> string \<Rightarrow> string option" where
  "route t p = leaf_hop (node_at p t)"

lemma node_at_Null [simp]: "node_at p Null = Null"
  by (induction p) (simp_all split: option.split)

lemma child_simps [simp]:
  "node \<noteq> Null \<Longrightarrow> child idx (set_child idx x node) = x"
  "child (\<not> idx) (set_child idx x node) = child (\<not> idx) node"
  "leaf_hop (set_child idx x node) = leaf_hop node" "child idx (make_leaf h node) = child idx node"
  "child idx (set_prefix p node) = child idx node" "leaf_hop (set_prefix p node) = leaf_hop node"
  "node \<noteq> Null \<Longrightarrow> leaf_hop (make_leaf h node) = Some h" "leaf_hop new_node = None" "child idx new_node = Null"
  "new_node \<noteq> Null" "set_prefix p node = Null \<longleftrightarrow> node = Null" "make_leaf h node = Null \<longleftrightarrow> node = Null"
  "set_child idx x node = Null \<longleftrightarrow> node = Null"
  by (cases node; simp add: new_node_def)+

lemma node_at_set_child:
  "node \<noteq> Null \<Longrightarrow> child_index c = Some idx \<Longrightarrow> child_index d = Some jdx \<Longrightarrow>
    node_at (d # ds) (set_child idx x node) = (if d = c then node_at ds x else node_at (d # ds) node)"
  by (cases node) (auto simp: child_index_def split: if_splits)

lemma route_prefix [simp]: "route (set_prefix p t) q = route t q"
  by (cases q) (simp_all add: route_def split: option.split)

lemma route_make_leaf: "t \<noteq> Null \<Longrightarrow> route (make_leaf h t) q = (if q = [] then Some h else route t q)"
  by (cases q) (simp_all add: route_def split: option.split)

lemma route_new [simp]: "route new_node q = None" "route Null q = None"
  by (cases q; simp add: route_def split: option.split)+

lemma route_Cons: "child_index c = Some idx \<Longrightarrow> route t (c # cs) = route (child idx t) cs"
  by (simp add: route_def)

lemma route_set_child:
  "t \<noteq> Null \<Longrightarrow> child_index c = Some idx \<Longrightarrow> child_index d = Some jdx \<Longrightarrow>
    route (set_child idx x t) (d # ds) = (if d = c then route x ds else route t (d # ds))"
  using node_at_set_child [of t c idx d jdx ds x] by (simp add: route_def)

lemma child_index_bits: "bits ip \<Longrightarrow> i < length ip \<Longrightarrow> \<exists>idx. child_index (ip ! i) = Some idx"
proof -
  assume "bits ip" "i < length ip"
  then have "ip ! i \<in> {CHR ''0'', CHR ''1''}" using nth_mem unfolding bits_def by blast
  then show ?thesis by (auto simp: child_index_def)
qed

text \<open>Inserting is updating the map at the prefix.\<close>

lemma insert_loop_route:
  assumes "bits ip" and "i + n \<le> length ip" and "t \<noteq> Null"
  shows "\<exists>t'. insert_loop ip i n h t = Some t' \<and> t' \<noteq> Null \<and>
    (\<forall>q. route t' q = (if q = take n (drop i ip) then Some h else route t q))"
  using assms(2,3)
proof (induction n arbitrary: i t)
  case 0
  then show ?case by (simp add: route_make_leaf)
next
  case (Suc n)
  then obtain idx where idx: "child_index (ip ! i) = Some idx" using child_index_bits [OF assms(1), of i] by auto
  let ?next = "if child idx t = Null then new_node else child idx t"
  have nxt: "set_prefix (take (i + 1) ip) ?next \<noteq> Null"
    "route (set_prefix (take (i + 1) ip) ?next) q = route ?next q" for q
    by (simp_all only: route_prefix) simp
  obtain t' where t': "insert_loop ip (i + 1) n h (set_prefix (take (i + 1) ip) ?next) = Some t'" "t' \<noteq> Null"
    "\<And>q. route t' q = (if q = take n (drop (i + 1) ip) then Some h else route ?next q)"
    using Suc.IH [of "i + 1" "set_prefix (take (i + 1) ip) ?next"] Suc.prems nxt by auto
  have d: "take (Suc n) (drop i ip) = ip ! i # take n (drop (Suc i) ip)"
    using Suc.prems(1) by (simp add: Cons_nth_drop_Suc [symmetric])
  have "route (set_child idx t' t) q = (if q = take (Suc n) (drop i ip) then Some h else route t q)" for q
  proof (cases q)
    case Nil
    then show ?thesis unfolding d by (simp add: route_def)
  next
    case (Cons c cs)
    show ?thesis
    proof (cases "child_index c")
      case None
      then show ?thesis unfolding d using Cons idx by (auto simp: route_def)
    next
      case (Some jdx)
      then show ?thesis
        unfolding d Cons using route_set_child [OF Suc.prems(2) idx Some, of t' cs] t'(3) [of cs] route_Cons [OF idx, of t cs]
        by auto
    qed
  qed
  then show ?case using Suc.prems idx t'(1,2) by auto
qed

section \<open>No dead ends\<close>

text \<open>
  Every node of a table with at least one route is a leaf or has a child, so \<open>search\<close> cannot run
  into a null pointer.  In the table without routes the root alone is a dead end.
\<close>

fun live :: "trie \<Rightarrow> bool" where
  "live Null \<longleftrightarrow> True"
| "live (TrieNode c0 c1 leaf pre hop) \<longleftrightarrow> (leaf \<or> c0 \<noteq> Null \<or> c1 \<noteq> Null) \<and> live c0 \<and> live c1"

text \<open>The same below the root.\<close>

fun live_below :: "trie \<Rightarrow> bool" where
  "live_below Null \<longleftrightarrow> True"
| "live_below (TrieNode c0 c1 leaf pre hop) \<longleftrightarrow> live c0 \<and> live c1"

lemma live_imp_below: "live t \<Longrightarrow> live_below t"
  by (cases t) simp_all

lemma live_child: "live_below t \<Longrightarrow> live (child idx t)"
  by (cases t) simp_all

lemma live_set_child: "live_below t \<Longrightarrow> live x \<Longrightarrow> x \<noteq> Null \<Longrightarrow> live (set_child idx x t)"
  by (cases t) simp_all

lemma live_below_simps [simp]: "live_below (set_prefix p t) = live_below t" "live_below new_node"
  by (cases t; simp add: new_node_def)+

lemma insert_loop_live: "insert_loop ip i n h t = Some t' \<Longrightarrow> live_below t \<Longrightarrow> t \<noteq> Null \<Longrightarrow> live t' \<and> t' \<noteq> Null"
proof (induction n arbitrary: i t t')
  case 0
  then show ?case by (cases t) auto
next
  case (Suc n)
  then obtain idx where idx: "child_index (ip ! i) = Some idx" "i < length ip"
    by (auto simp: bind_eq_Some_conv split: if_splits)
  then obtain x where x: "insert_loop ip (i + 1) n h (set_prefix (take (i + 1) ip)
      (if child idx t = Null then new_node else child idx t)) = Some x" "t' = set_child idx x t"
    using Suc.prems(1) by (auto simp: bind_eq_Some_conv Let_def)
  have "live x \<and> x \<noteq> Null"
    by (rule Suc.IH [OF x(1)]) (use Suc.prems(2) live_imp_below live_child in auto)
  then show ?case using x(2) Suc.prems(2,3) live_set_child by simp
qed

lemma search_leaf_route:
  "live t \<Longrightarrow> t \<noteq> Null \<Longrightarrow> \<exists>r. search_leaf t = route t r \<and> route t r \<noteq> None \<and> bits r \<and> (leaf_hop t \<noteq> None \<longrightarrow> r = [])"
proof (induction t)
  case (TrieNode c0 c1 leaf pre hop)
  have down: "route (TrieNode c0 c1 leaf pre hop) (CHR ''0'' # r) = route c0 r"
    "route (TrieNode c0 c1 leaf pre hop) (CHR ''1'' # r) = route c1 r" for r
    by (simp_all add: route_def child_index_def)
  have b: "bits r \<Longrightarrow> bits (CHR ''0'' # r) \<and> bits (CHR ''1'' # r)" for r by (auto simp: bits_def)
  show ?case
  proof (cases leaf)
    case True
    then show ?thesis by (intro exI [of _ "[]"]) (simp add: route_def bits_def)
  next
    case no: False
    show ?thesis
    proof (cases "c0 = Null")
      case True
      then obtain r where "search_leaf c1 = route c1 r" "route c1 r \<noteq> None" "bits r"
        using TrieNode.IH(2) TrieNode.prems no by auto
      then show ?thesis using no True down(2) b by (intro exI [of _ "CHR ''1'' # r"]) simp
    next
      case False
      then obtain r where "search_leaf c0 = route c0 r" "route c0 r \<noteq> None" "bits r"
        using TrieNode.IH(1) TrieNode.prems by auto
      then show ?thesis using no False down(1) b by (intro exI [of _ "CHR ''0'' # r"]) simp
    qed
  qed
qed simp

text \<open>The first loop stops at the deepest node whose path is a prefix of the address.\<close>

lemma search_down_deepest:
  "bits ip \<Longrightarrow> t \<noteq> Null \<Longrightarrow> \<exists>q. prefix q ip \<and> search_down ip t = Some (node_at q t) \<and> node_at q t \<noteq> Null \<and>
    (\<forall>q'. prefix q' ip \<and> node_at q' t \<noteq> Null \<longrightarrow> length q' \<le> length q)"
proof (induction ip arbitrary: t)
  case Nil
  then show ?case by simp
next
  case (Cons c cs)
  have b: "bits cs" using Cons.prems(1) by (simp add: bits_def)
  obtain idx where idx: "child_index c = Some idx"
    using child_index_bits [OF Cons.prems(1), of 0] by auto
  show ?case
  proof (cases "child idx t = Null")
    case True
    have "length q' \<le> 0" if "prefix q' (c # cs)" "node_at q' t \<noteq> Null" for q'
      using that idx True by (cases q') auto
    then show ?thesis using Cons.prems(2) idx True by (intro exI [of _ "[]"]) auto
  next
    case False
    then obtain q where q: "prefix q cs" "search_down cs (child idx t) = Some (node_at q (child idx t))"
      "node_at q (child idx t) \<noteq> Null"
      "\<forall>q'. prefix q' cs \<and> node_at q' (child idx t) \<noteq> Null \<longrightarrow> length q' \<le> length q"
      using Cons.IH [OF b False] by blast
    have "length q' \<le> length (c # q)" if "prefix q' (c # cs)" "node_at q' t \<noteq> Null" for q'
      using that idx q(4) by (cases q') auto
    then show ?thesis using q(1-3) idx False by (intro exI [of _ "c # q"]) auto
  qed
qed

lemma node_at_append: "node_at (p @ q) t = node_at q (node_at p t)"
  by (induction p arbitrary: t) (simp_all split: option.split)

lemma live_node_at: "live t \<Longrightarrow> live (node_at p t)"
  by (induction p arbitrary: t) (auto simp: live_imp_below live_child split: option.split)

lemma route_node: "route t p \<noteq> None \<Longrightarrow> node_at p t \<noteq> Null"
  by (auto simp: route_def)

lemma route_append: "route t (p @ q) = route (node_at p t) q"
  by (simp add: route_def node_at_append)

section \<open>Properties\<close>

text \<open>Tables that \<open>insert\<close> has made from the empty one, with the map they stand for.\<close>

inductive table :: "trie \<Rightarrow> (string \<Rightarrow> string option) \<Rightarrow> bool" where
  table_empty: "table new_node (\<lambda>_. None)"
| table_insert: "table t m \<Longrightarrow> bits ip \<Longrightarrow> 0 \<le> len \<Longrightarrow> len \<le> int (length ip) \<Longrightarrow> trie_insert ip len hop t = Some t' \<Longrightarrow>
    table t' (m(take (nat len) ip \<mapsto> hop))"

lemma table_spec: "table t m \<Longrightarrow> t \<noteq> Null \<and> live_below t \<and> route t = m \<and> (m \<noteq> (\<lambda>_. None) \<longrightarrow> live t)"
proof (induction rule: table.induct)
  case table_empty
  show ?case by (auto simp: fun_eq_iff)
next
  case (table_insert t m ip len hop t')
  have "0 + nat len \<le> length ip" using table_insert by (simp add: nat_le_iff)
  then have "\<forall>q. route t' q = (if q = take (nat len) ip then Some hop else route t q)"
    using insert_loop_route [of ip 0 "nat len" t hop] table_insert by (auto simp: trie_insert_def)
  then have "route t' = m(take (nat len) ip \<mapsto> hop)" using table_insert by (auto simp: fun_eq_iff)
  moreover have "live t' \<and> t' \<noteq> Null"
    using insert_loop_live [of ip 0 "nat len" hop t t'] table_insert by (simp add: trie_insert_def)
  ultimately show ?case by (simp add: live_imp_below)
qed

lemma insert_table:
  assumes "table t m" and "bits ip" and "0 \<le> len" and "len \<le> int (length ip)"
  shows "\<exists>t'. trie_insert ip len hop t = Some t' \<and> table t' (m(take (nat len) ip \<mapsto> hop))"
proof -
  have "0 + nat len \<le> length ip" using assms(3,4) by (simp add: nat_le_iff)
  then obtain t' where "insert_loop ip 0 (nat len) hop t = Some t'"
    using insert_loop_route [OF assms(2)] table_spec [OF assms(1)] by blast
  then have "trie_insert ip len hop t = Some t'" by (simp add: trie_insert_def)
  then show ?thesis using table_insert [OF assms] by blast
qed

text \<open>
  C36: Inserting never fails on a valid prefix and makes the table the updated map; a search in a table
  with a route always returns the next hop of some route \<open>r\<close>.  If \<open>r\<close> is a prefix of the address it is
  the longest one in the table, and that is so exactly when the deepest node on the address's path is
  itself a route; otherwise the search has gone down instead of back, and \<open>r\<close> does not match the
  address at all.
\<close>

theorem trie_search_result:
  assumes "table t m" and "bits ip"
  shows "(\<forall>len hop. 0 \<le> len \<and> len \<le> int (length ip) \<longrightarrow>
      (\<exists>t'. trie_insert ip len hop t = Some t' \<and> table t' (m(take (nat len) ip \<mapsto> hop)))) \<and>
    (m \<noteq> (\<lambda>_. None) \<longrightarrow>
      (\<exists>r q. trie_search ip t = m r \<and> m r \<noteq> None \<and> prefix q ip \<and> node_at q t \<noteq> Null \<and>
         (\<forall>q'. prefix q' ip \<and> node_at q' t \<noteq> Null \<longrightarrow> length q' \<le> length q) \<and>
         (prefix r ip \<longleftrightarrow> m q \<noteq> None) \<and>
         (prefix r ip \<longrightarrow> (\<forall>r'. prefix r' ip \<and> m r' \<noteq> None \<longrightarrow> length r' \<le> length r))))"
proof (intro conjI allI impI)
  fix len :: int and hop assume "0 \<le> len \<and> len \<le> int (length ip)"
  then show "\<exists>t'. trie_insert ip len hop t = Some t' \<and> table t' (m(take (nat len) ip \<mapsto> hop))"
    using insert_table [OF assms] by blast
next
  have spec: "t \<noteq> Null" "route t = m" "m \<noteq> (\<lambda>_. None) \<Longrightarrow> live t" using table_spec [OF assms(1)] by auto
  assume "m \<noteq> (\<lambda>_. None)"
  then have live: "live t" by (rule spec(3))
  obtain q where q: "prefix q ip" "search_down ip t = Some (node_at q t)" "node_at q t \<noteq> Null"
    "\<forall>q'. prefix q' ip \<and> node_at q' t \<noteq> Null \<longrightarrow> length q' \<le> length q"
    using search_down_deepest [OF assms(2) spec(1)] by blast
  obtain r where r: "search_leaf (node_at q t) = route (node_at q t) r" "route (node_at q t) r \<noteq> None"
    "leaf_hop (node_at q t) \<noteq> None \<longrightarrow> r = []"
    using search_leaf_route [OF live_node_at [OF live] q(3)] by blast
  have "m (q @ r) = route (node_at q t) r" using spec(2) route_append by metis
  then have m: "m (q @ r) \<noteq> None" "trie_search ip t = m (q @ r)"
    using r q(2) by (simp_all add: trie_search_def)
  have hop: "leaf_hop (node_at q t) = m q" using spec(2) by (auto simp: route_def)
  have longest: "length r' \<le> length q" if "prefix r' ip" "m r' \<noteq> None" for r'
    using that q(4) route_node spec(2) by auto
  have r0: "prefix (q @ r) ip \<longleftrightarrow> r = []" using longest [OF _ m(1)] q(1) by auto
  have "m q \<noteq> None \<longleftrightarrow> r = []" using r(3) hop m(1) by auto
  then show "\<exists>r q. trie_search ip t = m r \<and> m r \<noteq> None \<and> prefix q ip \<and> node_at q t \<noteq> Null \<and>
         (\<forall>q'. prefix q' ip \<and> node_at q' t \<noteq> Null \<longrightarrow> length q' \<le> length q) \<and>
         (prefix r ip \<longleftrightarrow> m q \<noteq> None) \<and>
         (prefix r ip \<longrightarrow> (\<forall>r'. prefix r' ip \<and> m r' \<noteq> None \<longrightarrow> length r' \<le> length r))"
    using m q(1,3,4) r0 longest by (intro exI [of _ "q @ r"] exI [of _ q]) auto
qed

text \<open>
  A table in which going down is wrong: the routes 1 and 101, and an address that begins with 100.
  The route 1 matches it, the search gives the hop of 101.
\<close>

lemma trie_search_result_witness:
  "\<exists>t r. table t [''1'' \<mapsto> ''a'', ''101'' \<mapsto> ''b''] \<and> trie_search ''100'' t = Some ''b'' \<and>
     [''1'' \<mapsto> ''a'', ''101'' \<mapsto> ''b''] r = Some ''b'' \<and> \<not> prefix r ''100''"
proof -
  let ?m = "[''1'' \<mapsto> ''a'', ''101'' \<mapsto> ''b'']"
  have b: "bits ''101''" "bits ''100''" by (simp_all add: bits_def)
  obtain t1 where t1: "trie_insert ''101'' 1 ''a'' new_node = Some t1" "table t1 [''1'' \<mapsto> ''a'']"
    using trie_search_result [OF table_empty b(1), THEN conjunct1, rule_format, of 1 "''a''"] by auto
  obtain t2 where t2: "trie_insert ''101'' 3 ''b'' t1 = Some t2" "table t2 ?m"
    using trie_search_result [OF t1(2) b(1), THEN conjunct1, rule_format, of 3 "''b''"] by auto
  have s: "trie_search ''100'' t2 = Some ''b''"
    using t1(1) t2(1) by (auto simp: trie_insert_def new_node_def child_index_def numeral_eq_Suc trie_search_def)
  have "?m \<noteq> (\<lambda>_. None)" by (metis fun_upd_same option.distinct(1))
  then obtain r where r: "trie_search ''100'' t2 = ?m r"
    using trie_search_result [OF t2(2) b(2), THEN conjunct2] by blast
  have "?m r = Some ''b''" using r(1) s by simp
  then have "r = ''101''" by (simp split: if_splits)
  then show ?thesis using t2(2) s by (intro exI [of _ t2] exI [of _ r]) simp
qed

text \<open>
  The comments of \<open>main\<close> are right for all but the second search: 11010101 matches the route 110, so its
  longest match is 192.168.3.1.
\<close>

lemma main_output_is:
  "main_output = Some [''192.168.3.1'', ''192.168.3.1'', ''192.168.4.1'', ''192.168.1.1'']"
  by (simp add: main_output_def main_table_def trie_insert_def new_node_def child_index_def numeral_eq_Suc trie_search_def)

section \<open>Any sequence of calls\<close>

datatype route_call = AddRoute string int string | Lookup string

fun trie_call :: "route_call \<Rightarrow> trie \<Rightarrow> (string option \<times> trie) option" where
  "trie_call (AddRoute ip len hop) t = do { t' \<leftarrow> trie_insert ip len hop t; Some (None, t') }"
| "trie_call (Lookup ip) t = do { hop \<leftarrow> trie_search ip t; Some (Some hop, t) }"

text \<open>The table is a map from prefixes to hops; a search gives the hop of some route.\<close>

fun map_call :: "route_call \<Rightarrow> (string \<Rightarrow> string option) \<Rightarrow> string option \<Rightarrow> (string \<Rightarrow> string option) option" where
  "map_call (AddRoute ip len hop) m r = (if r = None then Some (m(take (nat len) ip \<mapsto> hop)) else None)"
| "map_call (Lookup ip) m r = (case r of None \<Rightarrow> None | Some hop \<Rightarrow> if \<exists>p. m p = Some hop then Some m else None)"

fun route_permitted :: "route_call \<Rightarrow> (string \<Rightarrow> string option) \<Rightarrow> bool" where
  "route_permitted (AddRoute ip len hop) m = (bits ip \<and> 0 \<le> len \<and> len \<le> int (length ip))"
| "route_permitted (Lookup ip) m = (bits ip \<and> m \<noteq> (\<lambda>_. None))"

lemma search_table:
  assumes "table t m" and "bits ip" and "m \<noteq> (\<lambda>_. None)"
  shows "\<exists>hop p. trie_search ip t = Some hop \<and> m p = Some hop"
proof -
  have t: "t \<noteq> Null" "route t = m" "live t" using table_spec [OF assms(1)] assms(3) by auto
  obtain q where q: "search_down ip t = Some (node_at q t)" "node_at q t \<noteq> Null"
    using search_down_deepest [OF assms(2) t(1)] by blast
  obtain r where "search_leaf (node_at q t) = route (node_at q t) r" "route (node_at q t) r \<noteq> None"
    using search_leaf_route [OF live_node_at [OF t(3)] q(2)] by blast
  then show ?thesis using q(1) t(2) route_append [of t q r] by (auto simp: trie_search_def)
qed

interpretation routes: call_refinement trie_call map_call route_permitted route "\<lambda>n t. table t (route t)"
proof
  fix n t c
  assume t: "table t (route t)" and c: "route_permitted c (route t)"
  show "\<exists>r t'. trie_call c t = Some (r, t') \<and> map_call c (route t) r = Some (route t') \<and> table t' (route t')"
  proof (cases c)
    case (AddRoute ip len hop)
    then obtain t' where t': "trie_insert ip len hop t = Some t'" "table t' ((route t)(take (nat len) ip \<mapsto> hop))"
      using insert_table [OF t, of ip len hop] c by auto
    then have "route t' = (route t)(take (nat len) ip \<mapsto> hop)" using table_spec by blast
    then show ?thesis using AddRoute t' by simp
  next
    case (Lookup ip)
    then obtain hop p where "trie_search ip t = Some hop" "route t p = Some hop"
      using search_table [OF t, of ip] c by auto
    then show ?thesis using Lookup t by auto
  qed
qed

text \<open>A table made by \<open>insert\<close> serves every sequence of valid calls as the map does.\<close>

lemma routes_run:
  assumes "table t m" and "keeps_contract map_call route_permitted cs m"
  shows "\<exists>rs t'. run_calls trie_call cs t = Some (rs, t') \<and> run_spec map_call cs m rs = Some (route t') \<and> table t' (route t')"
  using routes.run_refines [of t cs] assms table_spec by metis

end
