(* ===== verification/FuseFs.thy ===== *)
theory FuseFs
  imports Bytes
begin

unbundle bit_operations_syntax

text \<open>
  The one-file file systems of \<open>io/fuse/fuse_test_02.cpp\<close> and \<open>io/fuse/fuse_test_03.cpp\<close>: their four
  callbacks.  The definitions of \<open>fuse_test_03.cpp\<close> carry the suffix 3.  Sizes and offsets are 64-bit
  words; an \<open>off_t\<close> that is compared with a \<open>size_t\<close> is converted to it.  \<open>None\<close> is a copy from
  outside the string literal, which is the content and its NUL.
\<close>

section \<open>Constants and results\<close>

definition ENOENT :: int where "ENOENT = 2"
definition EACCES :: int where "EACCES = 13"
definition S_IFDIR :: nat where "S_IFDIR = 0x4000"
definition S_IFREG :: nat where "S_IFREG = 0x8000"
definition O_RDONLY :: u32 where "O_RDONLY = 0"

record stat =
  st_mode :: nat
  st_nlink :: nat
  st_size :: nat

definition zero_stat :: stat where
  "zero_stat = \<lparr>st_mode = 0, st_nlink = 0, st_size = 0\<rparr>"

definition root_stat :: stat where
  "root_stat = zero_stat\<lparr>st_mode := S_IFDIR OR 0x1ED, st_nlink := 2\<rparr>"

text \<open>\<open>memcpy\<close> of \<open>n\<close> bytes from offset \<open>off\<close> of a literal with content \<open>c\<close>.\<close>

definition copy_literal :: "cstring \<Rightarrow> nat \<Rightarrow> nat \<Rightarrow> u8 list option" where
  "copy_literal c off n = get_bytes off n (c @ [0])"

section \<open>The callbacks of \<open>fuse_test_02.cpp\<close>\<close>

definition file_path :: cstring where "file_path = ascii ''/data/dev/ya/fuse_test''"

definition file_content :: cstring where
  "file_content = ascii (''Hello from my FUSE filesystem!'' @ [CHR 0x0A])"

definition getattr_callback :: "cstring \<Rightarrow> int \<times> stat" where
  "getattr_callback path =
     (if path = ascii ''/'' then (0, root_stat)
      else if path = file_path then
        (0, zero_stat\<lparr>st_mode := S_IFREG OR 0x124, st_nlink := 1, st_size := length file_content\<rparr>)
      else (- ENOENT, zero_stat))"

text \<open>The names given to \<open>filler\<close>, whose results are not looked at.\<close>

definition readdir_callback :: "cstring \<Rightarrow> int \<times> cstring list" where
  "readdir_callback path =
     (if path \<noteq> ascii ''/'' then (- ENOENT, [])
      else (0, [ascii ''.'', ascii ''..'', drop 1 file_path]))"

definition open_callback :: "cstring \<Rightarrow> u32 \<Rightarrow> int" where
  "open_callback path flags =
     (if path \<noteq> file_path then - ENOENT
      else if flags AND 3 \<noteq> O_RDONLY then - EACCES else 0)"

text \<open>The bytes copied to the buffer and the result, which is converted to \<open>int\<close>.\<close>

definition read_callback :: "cstring \<Rightarrow> u64 \<Rightarrow> u64 \<Rightarrow> (int \<times> u8 list) option" where
  "read_callback path amount offset =
     (if path \<noteq> file_path then Some (- ENOENT, [])
      else
        let len = word_of_nat (length file_content) :: u64 in
        if offset < len then
          (let amount' = (if offset + amount > len then len - offset else amount) in do {
             b \<leftarrow> copy_literal file_content (unat offset) (unat amount');
             Some (sint (ucast amount' :: u32), b)
           })
        else Some (0, []))"

section \<open>The callbacks of \<open>fuse_test_03.cpp\<close>\<close>

definition text_file_path :: cstring where "text_file_path = ascii ''/a.txt''"

definition text_file_content :: cstring where
  "text_file_content = ascii (''FUSE filesystem, Hello, World!'' @ [CHR 0x0A])"

definition getattr_callback3 :: "cstring \<Rightarrow> int \<times> stat" where
  "getattr_callback3 path =
     (if path = ascii ''/'' then (0, root_stat)
      else if path = text_file_path then
        (- ENOENT, zero_stat\<lparr>st_mode := S_IFREG OR 0x124, st_nlink := 1, st_size := length text_file_content\<rparr>)
      else (- ENOENT, zero_stat))"

definition readdir_callback3 :: "cstring \<Rightarrow> int \<times> cstring list" where
  "readdir_callback3 path =
     (if path \<noteq> ascii ''/'' then (- ENOENT, [])
      else (0, [ascii ''.'', ascii ''..'', drop 1 text_file_path]))"

definition open_callback3 :: "cstring \<Rightarrow> u32 \<Rightarrow> int" where
  "open_callback3 path flags =
     (if path \<noteq> text_file_path then - ENOENT
      else if flags AND 3 \<noteq> O_RDONLY then - EACCES else 0)"

definition read_callback3 :: "cstring \<Rightarrow> u64 \<Rightarrow> u64 \<Rightarrow> (int \<times> u8 list) option" where
  "read_callback3 path amount offset =
     (if path \<noteq> text_file_path then Some (- ENOENT, [])
      else do {
        b \<leftarrow> copy_literal text_file_content (unat offset) (unat amount);
        Some (sint (ucast amount :: u32), b)
      })"

section \<open>The tables of callbacks\<close>

text \<open>
  \<open>main\<close> of \<open>fuse_test_01.cpp\<close>, of \<open>fuse_test_02.cpp\<close> and of \<open>fuse_test_03.cpp\<close>; \<open>fuse_main\<close> of the library is
  a parameter.  A callback that is not set is \<open>None\<close>.
\<close>

record fuse_operations =
  op_getattr :: "(cstring \<Rightarrow> int \<times> stat) option"
  op_readdir :: "(cstring \<Rightarrow> int \<times> cstring list) option"
  op_open :: "(cstring \<Rightarrow> u32 \<Rightarrow> int) option"
  op_read :: "(cstring \<Rightarrow> u64 \<Rightarrow> u64 \<Rightarrow> (int \<times> u8 list) option) option"

definition no_operations :: fuse_operations where
  "no_operations = \<lparr>op_getattr = None, op_readdir = None, op_open = None, op_read = None\<rparr>"

definition smoke_main :: "(cstring list \<Rightarrow> fuse_operations \<Rightarrow> int) \<Rightarrow> cstring list \<Rightarrow> int" where
  "smoke_main fuse_main argv = (let operations = no_operations in fuse_main argv operations)"

definition fuse2_main :: "(cstring list \<Rightarrow> fuse_operations \<Rightarrow> int) \<Rightarrow> cstring list \<Rightarrow> int" where
  "fuse2_main fuse_main argv = (let operations = no_operations in fuse_main argv operations)"

definition fuse3_main :: "(cstring list \<Rightarrow> fuse_operations \<Rightarrow> int) \<Rightarrow> cstring list \<Rightarrow> int" where
  "fuse3_main fuse_main argv =
     (let operations = no_operations;
          operations = operations\<lparr>op_getattr := Some getattr_callback3\<rparr>;
          operations = operations\<lparr>op_readdir := Some readdir_callback3\<rparr>;
          operations = operations\<lparr>op_open := Some open_callback3\<rparr>;
          operations = operations\<lparr>op_read := Some read_callback3\<rparr>
      in fuse_main argv operations)"

section \<open>Reading\<close>

lemma content_lengths: "length file_content = 31" "length text_file_content = 31"
  by (simp_all add: file_content_def text_file_content_def ascii_def)

lemma copy_literal_inside: "off + n \<le> length c \<Longrightarrow> copy_literal c off n = Some (take n (drop off c))"
  by (simp add: copy_literal_def get_bytes_def)

lemma small_result: "unat (w :: u64) \<le> 31 \<Longrightarrow> sint (ucast w :: u32) = int (unat w)"
proof -
  assume w: "unat w \<le> 31"
  have "uint w = int (unat w)" by simp
  then have "uint w \<le> 31" using w by linarith
  moreover have "- (2 ^ 31) \<le> uint w" by (rule order_trans [of _ 0]) simp_all
  ultimately have "signed_take_bit 31 (uint w) = uint w" by (intro signed_take_bit_int_eq_self) simp_all
  then show ?thesis by (simp add: signed_ucast_eq)
qed

text \<open>The first file system's \<open>read\<close>, before, across and behind the end of the file.\<close>

lemma read_callback_part:
  assumes "unat offset + unat amount < 2 ^ 64"
  shows "read_callback file_path amount offset =
      (let b = take (unat amount) (drop (unat offset) file_content) in Some (int (length b), b))"
proof (cases "unat offset < 31")
  case False
  have len: "unat (word_of_nat (length file_content) :: u64) = 31" by (simp add: content_lengths)
  then have "\<not> offset < word_of_nat (length file_content)" using False by (simp add: word_less_nat_alt)
  then show ?thesis using False by (simp add: read_callback_def content_lengths)
next
  case True
  have sum: "unat (offset + amount) = unat offset + unat amount"
    using assms by (simp add: unat_word_ariths(1))
  have len: "unat (word_of_nat (length file_content) :: u64) = 31" by (simp add: content_lengths)
  then have less: "offset < word_of_nat (length file_content)" using True by (simp add: word_less_nat_alt)
  show ?thesis
  proof (cases "31 < unat offset + unat amount")
    case more: True
    let ?n = "word_of_nat (length file_content) - offset"
    have n: "unat ?n = 31 - unat offset" using less len by (simp add: unat_sub less_imp_le)
    have i: "uint ?n = int (31 - unat offset)" unfolding n [symmetric] by simp
    have "word_of_nat (length file_content) < offset + amount" using more sum len by (simp add: word_less_nat_alt)
    then have "read_callback file_path amount offset = do {
        b \<leftarrow> copy_literal file_content (unat offset) (unat ?n); Some (sint (ucast ?n :: u32), b) }"
      using less by (simp add: read_callback_def Let_def)
    moreover have "copy_literal file_content (unat offset) (unat ?n) = Some (drop (unat offset) file_content)"
      using copy_literal_inside [of "unat offset" "unat ?n" file_content] n True content_lengths by simp
    ultimately show ?thesis using small_result [of ?n] n more content_lengths i by simp
  next
    case fits: False
    then have "\<not> word_of_nat (length file_content) < offset + amount" using sum len by (simp add: word_less_nat_alt)
    then have "read_callback file_path amount offset = do {
        b \<leftarrow> copy_literal file_content (unat offset) (unat amount); Some (sint (ucast amount :: u32), b) }"
      using less by (simp add: read_callback_def Let_def)
    then show ?thesis using small_result [of amount] fits content_lengths
        copy_literal_inside [of "unat offset" "unat amount" file_content] by simp
  qed
qed

text \<open>
  A program that reads a file from the start in requests of \<open>n\<close> bytes until a result is not positive.
\<close>

partial_function (option) read_file :: "(u64 \<Rightarrow> u64 \<Rightarrow> (int \<times> u8 list) option) \<Rightarrow> u64 \<Rightarrow> nat \<Rightarrow> u8 list option" where
  "read_file rd n off = do {
     (r, b) \<leftarrow> rd n (word_of_nat off);
     if r \<le> 0 then Some []
     else do { rest \<leftarrow> read_file rd n (off + nat r); Some (b @ rest) }
   }"

lemma read_file_whole:
  assumes "n \<noteq> 0" and "unat n + 31 < 2 ^ 64" and "off \<le> 31"
  shows "read_file (read_callback file_path) n off = Some (drop off file_content)"
  using assms(3)
proof (induction "31 - off" arbitrary: off rule: less_induct)
  case less
  let ?b = "take (unat n) (drop off file_content)"
  have n: "0 < unat n" using assms(1) by (simp add: unat_gt_0)
  have o: "unat (word_of_nat off :: u64) = off" using less.prems by (simp add: unat_of_nat)
  have r: "read_callback file_path n (word_of_nat off) = Some (int (length ?b), ?b)"
    using read_callback_part [of "word_of_nat off" n] assms(2) less.prems o by (simp add: Let_def)
  show ?case
  proof (cases "off = 31")
    case True
    then show ?thesis using r content_lengths by (subst read_file.simps) simp
  next
    case False
    define k where "k = min (31 - off) (unat n)"
    have k: "0 < k" "k \<le> 31 - off" "length ?b = k" using False less.prems n content_lengths by (auto simp: k_def)
    have "read_file (read_callback file_path) n (off + k) = Some (drop (off + k) file_content)"
      using less.hyps [of "off + k"] k(1,2) less.prems False by simp
    moreover have "?b @ drop (off + k) file_content = drop off file_content"
    proof -
      have "?b = take k (drop off file_content)" using content_lengths by (simp add: k_def min_def)
      then show ?thesis by (simp add: add.commute flip: drop_drop)
    qed
    ultimately show ?thesis using r k(1,3) by (subst read_file.simps) simp
  qed
qed

text \<open>
  C37: The first file system's \<open>read\<close> returns exactly the bytes of the file from the offset on, as many
  as asked for and present, for every offset and every size that does not make their 64-bit sum wrap, so
  that a program which reads the file in requests of any size gets exactly its content and ends;
  the second's agrees with that inside the file, and reads outside the literal as soon as offset and
  size pass the content and its NUL.
\<close>

theorem fuse_read:
  assumes "unat offset + unat amount < 2 ^ 64"
  shows "read_callback file_path amount offset =
      (let b = take (unat amount) (drop (unat offset) file_content) in Some (int (length b), b)) \<and>
    (amount \<noteq> 0 \<and> unat amount + length file_content < 2 ^ 64 \<longrightarrow>
      read_file (read_callback file_path) amount 0 = Some file_content) \<and>
    (unat offset + unat amount \<le> length text_file_content \<longrightarrow>
      read_callback3 text_file_path amount offset =
        (let b = take (unat amount) (drop (unat offset) text_file_content) in Some (int (length b), b))) \<and>
    (length text_file_content + 1 < unat offset + unat amount \<longrightarrow>
      read_callback3 text_file_path amount offset = None)"
proof (intro conjI impI read_callback_part [OF assms])
  assume "amount \<noteq> 0 \<and> unat amount + length file_content < 2 ^ 64"
  then show "read_file (read_callback file_path) amount 0 = Some file_content"
    using read_file_whole [of amount 0] content_lengths(1) by simp
next
  assume "unat offset + unat amount \<le> length text_file_content"
  then show "read_callback3 text_file_path amount offset =
        (let b = take (unat amount) (drop (unat offset) text_file_content) in Some (int (length b), b))"
    using small_result [of amount] content_lengths copy_literal_inside [of "unat offset" "unat amount" text_file_content]
    by (simp add: read_callback3_def)
next
  assume "length text_file_content + 1 < unat offset + unat amount"
  then show "read_callback3 text_file_path amount offset = None"
    by (simp add: read_callback3_def copy_literal_def get_bytes_def)
qed

lemma fuse_read_witness:
  "read_callback file_path 5 6 = Some (5, ascii ''from '') \<and> read_file (read_callback file_path) 5 0 = Some file_content \<and>
   read_callback3 text_file_path 4096 0 = None"
proof -
  have "take 5 (drop 6 file_content) = ascii ''from ''" by (simp add: file_content_def ascii_def)
  moreover have "length (ascii ''from '') = 5" by (simp add: ascii_def)
  ultimately show ?thesis using fuse_read [of 6 5] fuse_read [of 0 4096] by (simp add: content_lengths)
qed

text \<open>
  What a client sees: the first file system has a file under a path with inner slashes, the second
  lists a file whose attributes it refuses to give.
\<close>

lemma fuse_attributes:
  "fst (getattr_callback file_path) = 0" "fst (getattr_callback3 text_file_path) = - ENOENT"
  "\<exists>names. readdir_callback3 (ascii ''/'') = (0, names) \<and> drop 1 text_file_path \<in> set names"
  "st_mode (snd (getattr_callback (ascii ''/''))) = 16877" "st_mode (snd (getattr_callback file_path)) = 33060"
  by (simp_all add: getattr_callback_def getattr_callback3_def readdir_callback3_def file_path_def text_file_path_def
      ascii_def root_stat_def zero_stat_def S_IFDIR_def S_IFREG_def)

text \<open>The second program starts like the first, without a callback; the third with all four of its own.\<close>

lemma fuse_mains:
  "fuse2_main = smoke_main"
  "fuse3_main fuse_main argv = fuse_main argv
    \<lparr>op_getattr = Some getattr_callback3, op_readdir = Some readdir_callback3, op_open = Some open_callback3, op_read = Some read_callback3\<rparr>"
  by (auto simp: fun_eq_iff fuse2_main_def smoke_main_def fuse3_main_def no_operations_def Let_def)

end
