(* ===== verification/Packets.thy ===== *)
theory Packets
  imports Bytes
begin

unbundle bit_operations_syntax

text \<open>
  The programs that look at packets: the TCP dump of \<open>network/tcpdump/minidump.cpp\<close>, and the hooks
  of the kernel modules \<open>network/netfilter/helloworld\<close> and \<open>network/netfilter/ping-drop\<close>.  Fields
  in network byte order are read as \<open>ntohs\<close> and \<open>ntohl\<close> give them.
\<close>

section \<open>Network byte order\<close>

definition be_bytes :: "nat \<Rightarrow> nat \<Rightarrow> u8 list" where
  "be_bytes k n = rev (le_bytes k n)"

definition get_be :: "nat \<Rightarrow> nat \<Rightarrow> u8 list \<Rightarrow> nat option" where
  "get_be off k b = map_option (\<lambda>bs. le_nat (rev bs)) (get_bytes off k b)"

section \<open>The headers of \<open>minidump.cpp\<close>\<close>

text \<open>Offsets inside each structure and their sizes.\<close>

definition sizeof_EthernetHeader :: nat where "sizeof_EthernetHeader = 14"
definition sizeof_IPv4Header :: nat where "sizeof_IPv4Header = 20"
definition ether_type_at :: nat where "ether_type_at = 12"
definition ip_p_at :: nat where "ip_p_at = 9"
definition ip_src_at :: nat where "ip_src_at = 12"
definition ip_dst_at :: nat where "ip_dst_at = 16"
definition th_sport_at :: nat where "th_sport_at = 0"
definition th_dport_at :: nat where "th_dport_at = 2"
definition th_seq_at :: nat where "th_seq_at = 4"
definition th_ack_at :: nat where "th_ack_at = 8"
definition th_offset_at :: nat where "th_offset_at = 12"
definition th_flags_at :: nat where "th_flags_at = 13"
definition th_win_at :: nat where "th_win_at = 14"

definition ETHERTYPE_IP :: nat where "ETHERTYPE_IP = 0x800"
definition IPPROTO_TCP :: nat where "IPPROTO_TCP = 6"
definition IPPROTO_ICMP :: nat where "IPPROTO_ICMP = 1"
definition TH_FIN :: u8 where "TH_FIN = 0x01"
definition TH_SYN :: u8 where "TH_SYN = 0x02"
definition TH_RST :: u8 where "TH_RST = 0x04"
definition TH_PUSH :: u8 where "TH_PUSH = 0x08"
definition TH_ACK :: u8 where "TH_ACK = 0x10"
definition TH_URG :: u8 where "TH_URG = 0x20"

definition tcp_flags :: "u8 \<Rightarrow> string" where
  "tcp_flags flags =
     (if flags AND TH_FIN \<noteq> 0 then ''F'' else '''') @
     (if flags AND TH_SYN \<noteq> 0 then ''S'' else '''') @
     (if flags AND TH_RST \<noteq> 0 then ''R'' else '''') @
     (if flags AND TH_PUSH \<noteq> 0 then ''P'' else '''') @
     (if flags AND TH_URG \<noteq> 0 then ''U '' else '''') @
     (if flags AND TH_ACK \<noteq> 0 then ''.'' else '''')"

section \<open>One round of the loop\<close>

text \<open>What is printed, the addresses as bytes.\<close>

record tcp_line =
  ln_src :: "u8 list"
  ln_sport :: nat
  ln_dst :: "u8 list"
  ln_dport :: nat
  ln_flags :: string
  ln_seq :: nat
  ln_ack :: nat
  ln_win :: nat
  ln_length :: u64

text \<open>
  \<open>buf\<close> is the buffer of 2048 bytes after \<open>recvfrom\<close> has returned \<open>n\<close>; behind the \<open>n\<close>-th byte it
  holds whatever was there.  \<open>None\<close> is a read outside it.
\<close>

definition dump_packet :: "nat \<Rightarrow> u8 list \<Rightarrow> tcp_line option option" where
  "dump_packet n buf = do {
     ether_type \<leftarrow> get_be ether_type_at 2 buf;
     if ether_type = ETHERTYPE_IP then do {
       let ipv4 = sizeof_EthernetHeader;
       ip_p \<leftarrow> get_be (ipv4 + ip_p_at) 1 buf;
       if ip_p = IPPROTO_TCP then do {
         let tcp = sizeof_EthernetHeader + sizeof_IPv4Header;
         th_offset \<leftarrow> get_be (tcp + th_offset_at) 1 buf;
         let tcp_header_length = th_offset div 16 * 4;
         dport \<leftarrow> get_be (tcp + th_dport_at) 2 buf;
         sport \<leftarrow> get_be (tcp + th_sport_at) 2 buf;
         if dport = 8080 \<or> sport = 8080 then do {
           src \<leftarrow> get_bytes (ipv4 + ip_src_at) 4 buf;
           dst \<leftarrow> get_bytes (ipv4 + ip_dst_at) 4 buf;
           flags \<leftarrow> get_be (tcp + th_flags_at) 1 buf;
           seq \<leftarrow> get_be (tcp + th_seq_at) 4 buf;
           ack \<leftarrow> get_be (tcp + th_ack_at) 4 buf;
           win \<leftarrow> get_be (tcp + th_win_at) 2 buf;
           Some (Some \<lparr>ln_src = src, ln_sport = sport, ln_dst = dst, ln_dport = dport,
             ln_flags = tcp_flags (word_of_nat flags), ln_seq = seq, ln_ack = ack, ln_win = win,
             ln_length = word_of_nat n - word_of_nat sizeof_EthernetHeader - word_of_nat sizeof_IPv4Header -
               word_of_nat tcp_header_length\<rparr>)
         } else Some None
       } else Some None
     } else Some None
   }"

text \<open>
  The loop on a list of results of \<open>recvfrom\<close> (\<open>None\<close> a failure, which is skipped; otherwise the
  length and the buffer): the lines printed.
\<close>

fun minidump_loop :: "(nat \<times> u8 list) option list \<Rightarrow> tcp_line list option" where
  "minidump_loop [] = Some []"
| "minidump_loop (None # rs) = minidump_loop rs"
| "minidump_loop (Some (n, buf) # rs) = do {
     line \<leftarrow> dump_packet n buf;
     rest \<leftarrow> minidump_loop rs;
     Some (case line of None \<Rightarrow> rest | Some l \<Rightarrow> l # rest)
   }"

section \<open>The hooks\<close>

datatype verdict = NF_DROP | NF_ACCEPT

text \<open>
  A packet is the protocol field of its IP header; \<open>None\<close> is a NULL header, and a NULL \<open>skb\<close> is
  \<open>None\<close> again.  The second result is what is logged.
\<close>

type_synonym sk_buff = "nat option"

definition helloworld_hook :: "sk_buff option \<Rightarrow> verdict \<times> string list" where
  "helloworld_hook skb =
     (case skb of None \<Rightarrow> (NF_ACCEPT, [])
      | Some iph \<Rightarrow> case iph of None \<Rightarrow> (NF_ACCEPT, [])
        | Some protocol \<Rightarrow>
            if protocol = IPPROTO_ICMP then (NF_ACCEPT, [''Hello World, ICMP Packet Received''])
            else (NF_ACCEPT, []))"

definition pingdrop_hook :: "sk_buff option \<Rightarrow> verdict \<times> string list" where
  "pingdrop_hook skb =
     (case skb of None \<Rightarrow> (NF_ACCEPT, [])
      | Some iph \<Rightarrow> case iph of None \<Rightarrow> (NF_ACCEPT, [])
        | Some protocol \<Rightarrow>
            if protocol = IPPROTO_ICMP then (NF_DROP, [''ICMP Packet Received, drop it''])
            else (NF_ACCEPT, []))"

text \<open>The registered hooks; \<open>hook_init\<close> and \<open>hook_exit\<close> of either module.\<close>

record 'h hook_ops =
  op_hook :: 'h
  op_pf :: nat
  op_hooknum :: nat
  op_priority :: int

definition nfho :: "'h \<Rightarrow> 'h hook_ops" where
  "nfho h = \<lparr>op_hook = h, op_pf = 2, op_hooknum = 0, op_priority = - 2147483648\<rparr>"

definition hook_init :: "'h \<Rightarrow> 'h hook_ops list \<Rightarrow> 'h hook_ops list \<times> int" where
  "hook_init h net = (net @ [nfho h], 0)"

definition hook_exit :: "'h \<Rightarrow> 'h hook_ops list \<Rightarrow> 'h hook_ops list" where
  "hook_exit h net = remove1 (nfho h) net"

lemma hooks_decide:
  "fst (helloworld_hook skb) = NF_ACCEPT" "fst (pingdrop_hook skb) = NF_DROP \<longleftrightarrow> skb = Some (Some IPPROTO_ICMP)"
  "snd (helloworld_hook skb) \<noteq> [] \<longleftrightarrow> skb = Some (Some IPPROTO_ICMP)"
  "hook_exit h (fst (hook_init h net)) = (if nfho h \<in> set net then remove1 (nfho h) net @ [nfho h] else net)"
  by (auto simp: helloworld_hook_def pingdrop_hook_def hook_exit_def hook_init_def remove1_append split: option.splits)

section \<open>The dump\<close>

lemma get_be_append: "off = length p \<Longrightarrow> get_be off k (p @ be_bytes k v @ q) = Some (v mod 256 ^ k)"
  using get_bytes_append [of off p k "be_bytes k v" q] by (simp add: get_be_def be_bytes_def)

text \<open>A frame as a sender builds it: an IPv4 header without options, a TCP header of \<open>hl\<close> words.\<close>

definition frame :: "u8 list \<Rightarrow> u8 list \<Rightarrow> u8 list \<Rightarrow> u8 list \<Rightarrow> nat \<Rightarrow> nat \<Rightarrow> nat \<Rightarrow> nat \<Rightarrow> nat \<Rightarrow> u8 \<Rightarrow> nat \<Rightarrow> u8 list \<Rightarrow> u8 list" where
  "frame macs ip9 src dst sport dport seq ack hl flags win rest =
     macs @ be_bytes 2 ETHERTYPE_IP @ ip9 @ [word_of_nat IPPROTO_TCP, 0, 0] @ src @ dst @
     be_bytes 2 sport @ be_bytes 2 dport @ be_bytes 4 seq @ be_bytes 4 ack @ [word_of_nat (hl * 16), flags] @ be_bytes 2 win @ rest"

lemma be_bytes_length [simp]: "length (be_bytes k v) = k"
  by (simp add: be_bytes_def)

text \<open>The fields of a frame, with anything behind it.\<close>

lemma frame_fields:
  assumes "length macs = 12" and "length ip9 = 9" and "length src = 4" and "length dst = 4" and "hl < 16"
    and "b = frame macs ip9 src dst sport dport seq ack hl flags win rest"
  shows "get_be 12 2 b = Some ETHERTYPE_IP" and "get_be 23 1 b = Some IPPROTO_TCP"
    and "get_be 46 1 b = Some (hl * 16)" and "get_be 36 2 b = Some (dport mod 65536)"
    and "get_be 34 2 b = Some (sport mod 65536)" and "get_bytes 26 4 b = Some src" and "get_bytes 30 4 b = Some dst"
    and "get_be 47 1 b = Some (unat flags)" and "get_be 38 4 b = Some (seq mod 2 ^ 32)"
    and "get_be 42 4 b = Some (ack mod 2 ^ 32)" and "get_be 48 2 b = Some (win mod 65536)"
proof -
  let ?e = "be_bytes 2 ETHERTYPE_IP" and ?p = "[word_of_nat IPPROTO_TCP :: u8]" and ?s = "be_bytes 2 sport"
    and ?d = "be_bytes 2 dport" and ?q = "be_bytes 4 seq" and ?a = "be_bytes 4 ack" and ?h = "[word_of_nat (hl * 16) :: u8]"
    and ?w = "be_bytes 2 win"
  have byte: "get_be off 1 b = Some (unat x)" if "b = p @ x # q" "off = length p" for off x p q
    using get_bytes_append [of off p 1 "[x]" q] that by (simp add: get_be_def)
  have at: "get_be off k b = Some (v mod 256 ^ k)" if "b = p @ be_bytes k v @ q" "off = length p" for off k v p q
    using get_be_append [OF that(2)] that(1) by simp
  have piece: "get_bytes off 4 b = Some x" if "b = p @ x @ q" "off = length p" "length x = 4" for off x p q
    using get_bytes_append [of off p 4 x q] that by simp
  have b: "b = macs @ ?e @ ip9 @ ?p @ [0, 0] @ src @ dst @ ?s @ ?d @ ?q @ ?a @ ?h @ [flags] @ ?w @ rest"
    by (simp add: assms(6) frame_def)
  have l: "length (macs @ ?e @ ip9) = 23" "length (macs @ ?e @ ip9 @ ?p @ [0, 0]) = 26"
    "length (macs @ ?e @ ip9 @ ?p @ [0, 0] @ src) = 30" "length (macs @ ?e @ ip9 @ ?p @ [0, 0] @ src @ dst) = 34"
    using assms(1-4) by simp_all
  have "get_be 12 2 b = Some (ETHERTYPE_IP mod 256 ^ 2)"
    by (rule at [of macs]) (use b assms(1) in simp_all)
  then show "get_be 12 2 b = Some ETHERTYPE_IP" by (simp add: ETHERTYPE_IP_def)
  have "get_be 23 1 b = Some (unat (word_of_nat IPPROTO_TCP :: u8))"
    by (rule byte [of "macs @ ?e @ ip9"]) (use b l(1) in simp_all)
  then show "get_be 23 1 b = Some IPPROTO_TCP" by (simp add: IPPROTO_TCP_def)
  have "get_be 46 1 b = Some (unat (word_of_nat (hl * 16) :: u8))"
    by (rule byte [of "macs @ ?e @ ip9 @ ?p @ [0, 0] @ src @ dst @ ?s @ ?d @ ?q @ ?a"])
      (use b assms(1-4) in simp_all)
  moreover have "unat (word_of_nat (hl * 16) :: u8) = hl * 16"
    using assms(5) by (simp add: unsigned_of_nat take_bit_nat_eq_self del: of_nat_mult)
  ultimately show "get_be 46 1 b = Some (hl * 16)" using assms(5) by simp
  have "get_be 36 2 b = Some (dport mod 256 ^ 2)"
    by (rule at [of "macs @ ?e @ ip9 @ ?p @ [0, 0] @ src @ dst @ ?s"]) (use b assms(1-4) in simp_all)
  then show "get_be 36 2 b = Some (dport mod 65536)" by simp
  have "get_be 34 2 b = Some (sport mod 256 ^ 2)"
    by (rule at [of "macs @ ?e @ ip9 @ ?p @ [0, 0] @ src @ dst"]) (use b assms(1-4) in simp_all)
  then show "get_be 34 2 b = Some (sport mod 65536)" by simp
  show "get_bytes 26 4 b = Some src"
    by (rule piece [of "macs @ ?e @ ip9 @ ?p @ [0, 0]"]) (use b assms(1-4) in simp_all)
  show "get_bytes 30 4 b = Some dst"
    by (rule piece [of "macs @ ?e @ ip9 @ ?p @ [0, 0] @ src"]) (use b assms(1-4) in simp_all)
  show "get_be 47 1 b = Some (unat flags)"
    by (rule byte [of "macs @ ?e @ ip9 @ ?p @ [0, 0] @ src @ dst @ ?s @ ?d @ ?q @ ?a @ ?h"])
      (use b assms(1-4) in simp_all)
  have "get_be 38 4 b = Some (seq mod 256 ^ 4)"
    by (rule at [of "macs @ ?e @ ip9 @ ?p @ [0, 0] @ src @ dst @ ?s @ ?d"]) (use b assms(1-4) in simp_all)
  then show "get_be 38 4 b = Some (seq mod 2 ^ 32)" by simp
  have "get_be 42 4 b = Some (ack mod 256 ^ 4)"
    by (rule at [of "macs @ ?e @ ip9 @ ?p @ [0, 0] @ src @ dst @ ?s @ ?d @ ?q"]) (use b assms(1-4) in simp_all)
  then show "get_be 42 4 b = Some (ack mod 2 ^ 32)" by simp
  have "get_be 48 2 b = Some (win mod 256 ^ 2)"
    by (rule at [of "macs @ ?e @ ip9 @ ?p @ [0, 0] @ src @ dst @ ?s @ ?d @ ?q @ ?a @ ?h @ [flags]"])
      (use b assms(1-4) in simp_all)
  then show "get_be 48 2 b = Some (win mod 65536)" by simp
qed

text \<open>
  For a TCP segment to or from port 8080 in an IPv4 packet without options the line printed has
  exactly the fields the sender put in, whatever lies behind the frame in the buffer; its length is
  that of the data, but for a frame that ends inside the TCP header, as its offset field counts it,
  the subtraction wraps.
\<close>

theorem minidump_line:
  assumes "length macs = 12" and "length ip9 = 9" and "length src = 4" and "length dst = 4" and "hl < 16"
    and "sport < 65536" and "dport < 65536" and "seq < 2 ^ 32" and "ack < 2 ^ 32" and "win < 65536"
    and "sport = 8080 \<or> dport = 8080"
    and "n = length (frame macs ip9 src dst sport dport seq ack hl flags win rest)" and "n \<le> 2048"
  shows "\<exists>line. dump_packet n (frame macs ip9 src dst sport dport seq ack hl flags win rest @ stale) = Some (Some line) \<and>
    ln_src line = src \<and> ln_sport line = sport \<and> ln_dst line = dst \<and> ln_dport line = dport \<and>
    ln_flags line = tcp_flags flags \<and> ln_seq line = seq \<and> ln_ack line = ack \<and> ln_win line = win \<and>
    unat (ln_length line) = (if 34 + hl * 4 \<le> n then n - (34 + hl * 4) else 2 ^ 64 + n - (34 + hl * 4))"
proof -
  let ?b = "frame macs ip9 src dst sport dport seq ack hl flags win (rest @ stale)"
  let ?len = "word_of_nat n - word_of_nat 14 - word_of_nat 20 - word_of_nat (hl * 4) :: u64"
  have b: "frame macs ip9 src dst sport dport seq ack hl flags win rest @ stale = ?b"
    by (simp add: frame_def)
  note f = frame_fields [OF assms(1-5) refl, of sport dport seq ack flags win "rest @ stale"]
  have port: "dport = 8080 \<or> sport = 8080" using assms(11) by blast
  have "dump_packet n ?b = Some (Some \<lparr>ln_src = src, ln_sport = sport, ln_dst = dst, ln_dport = dport,
      ln_flags = tcp_flags flags, ln_seq = seq, ln_ack = ack, ln_win = win, ln_length = ?len\<rparr>)"
    using f assms(6-10) port
    by (simp add: dump_packet_def ether_type_at_def ip_p_at_def ip_src_at_def ip_dst_at_def th_sport_at_def th_dport_at_def
        th_seq_at_def th_ack_at_def th_offset_at_def th_flags_at_def th_win_at_def sizeof_EthernetHeader_def
        sizeof_IPv4Header_def del: of_nat_mult of_nat_numeral)
  moreover have "unat ?len = (if 34 + hl * 4 \<le> n then n - (34 + hl * 4) else 2 ^ 64 + n - (34 + hl * 4))"
  proof (cases "34 + hl * 4 \<le> n")
    case True
    then have "?len = word_of_nat (n - (34 + hl * 4))" by (simp add: of_nat_diff)
    then have "unat ?len = unat (word_of_nat (n - (34 + hl * 4)) :: u64)" by (rule arg_cong)
    also have "\<dots> = n - (34 + hl * 4)"
      using assms(13) by (simp add: unsigned_of_nat take_bit_nat_eq_self del: of_nat_diff)
    finally show ?thesis using True by simp
  next
    case False
    have "?len = word_of_int (int n - (34 + int hl * 4))" by simp
    also have "\<dots> = word_of_int (int n - (34 + int hl * 4) + 2 ^ 64)" by simp
    also have "int n - (34 + int hl * 4) + 2 ^ 64 = int (2 ^ 64 + n - (34 + hl * 4))"
      using assms(5) by simp
    finally have "?len = word_of_nat (2 ^ 64 + n - (34 + hl * 4))" by simp
    then have "unat ?len = unat (word_of_nat (2 ^ 64 + n - (34 + hl * 4)) :: u64)" by (rule arg_cong)
    also have "\<dots> = 2 ^ 64 + n - (34 + hl * 4)"
      using False by (simp add: unsigned_of_nat take_bit_nat_eq_self del: of_nat_add of_nat_diff)
    finally show ?thesis using False by simp
  qed
  ultimately show ?thesis unfolding b by simp
qed

lemma minidump_line_witness:
  "\<exists>line. dump_packet 58 (frame (replicate 12 1) (replicate 9 0x45) [10, 0, 0, 1] [10, 0, 0, 2] 51000 8080 7 9 5 0x12 512
      (replicate 4 0 @ [71, 69, 84, 32]) @ replicate 1990 0) = Some (Some line) \<and>
     ln_src line = [10, 0, 0, 1] \<and> ln_dport line = 8080 \<and> ln_flags line = ''S.'' \<and> unat (ln_length line) = 4"
proof -
  have n: "58 = length (frame (replicate 12 1) (replicate 9 0x45) [10, 0, 0, 1] [10, 0, 0, 2] 51000 8080 7 9 5 0x12 512
      (replicate 4 0 @ [71, 69, 84, 32]))"
    by (simp add: frame_def)
  have flags: "tcp_flags 0x12 = ''S.''"
    by (simp add: tcp_flags_def TH_FIN_def TH_SYN_def TH_RST_def TH_PUSH_def TH_ACK_def TH_URG_def)
  show ?thesis
    using minidump_line [where macs = "replicate 12 1" and ?ip9.0 = "replicate 9 0x45" and src = "[10, 0, 0, 1]"
        and dst = "[10, 0, 0, 2]" and hl = 5 and sport = 51000 and dport = 8080 and seq = 7 and ack = 9 and win = 512
        and n = 58 and flags = "0x12" and rest = "replicate 4 0 @ [71, 69, 84, 32]" and stale = "replicate 1990 0"] n flags by auto
qed

end
