(* ===== verification/FileServer.thy ===== *)
theory FileServer
  imports Bytes "HOL-Library.Sublist"
begin

text \<open>
  The two servers of \<open>io/zerocopy\<close>: \<open>zero_copy_basic/main.c\<close> copies a file to each client with
  \<open>read\<close> and \<open>write\<close>, \<open>zerocopy_sendfile/main.c\<close> with one \<open>sendfile\<close>.  What the kernel answers is
  a record of functions of the connection and the file position.
\<close>

section \<open>The kernel\<close>

record server_env =
  v_socket :: bool
  v_setsockopt :: bool
  v_bind :: bool
  v_listen :: bool
  v_open :: bool
  v_seek :: "nat \<Rightarrow> bool"
  v_accept :: "nat \<Rightarrow> bool"
  v_file :: "u8 list"
  v_read :: "nat \<Rightarrow> nat \<Rightarrow> nat option"      \<comment> \<open>how much a read may return; \<open>None\<close> is an error\<close>
  v_write :: "nat \<Rightarrow> nat \<Rightarrow> nat"            \<comment> \<open>how much a write takes; 0 is an error too\<close>
  v_fsize :: "nat \<Rightarrow> nat"                   \<comment> \<open>\<open>st_size\<close> after \<open>fstat\<close>\<close>
  v_sendfile :: "nat \<Rightarrow> nat option"         \<comment> \<open>how much \<open>sendfile\<close> may send; \<open>None\<close> is an error\<close>

datatype server_call = SocketCall | SetsockoptCall | CloseListen | BindCall | ListenCall | OpenCall

section \<open>The servers\<close>

definition BUFFER_SIZE :: nat where "BUFFER_SIZE = 64"

text \<open>
  The calls before the loop, and whether the program is still running; a failure after \<open>setsockopt\<close>
  leaves the descriptors to the end of the process.  Both servers begin like this.
\<close>

definition basic_setup :: "server_env \<Rightarrow> server_call list \<times> bool" where
  "basic_setup env =
     (if \<not> v_socket env then ([SocketCall], False)
      else if \<not> v_setsockopt env then ([SocketCall, SetsockoptCall, CloseListen], False)
      else if \<not> v_bind env then ([SocketCall, SetsockoptCall, BindCall], False)
      else if \<not> v_listen env then ([SocketCall, SetsockoptCall, BindCall, ListenCall], False)
      else ([SocketCall, SetsockoptCall, BindCall, ListenCall, OpenCall], v_open env))"

definition sendfile_setup :: "server_env \<Rightarrow> server_call list \<times> bool" where
  "sendfile_setup env =
     (if \<not> v_socket env then ([SocketCall], False)
      else if \<not> v_setsockopt env then ([SocketCall, SetsockoptCall, CloseListen], False)
      else if \<not> v_bind env then ([SocketCall, SetsockoptCall, BindCall], False)
      else if \<not> v_listen env then ([SocketCall, SetsockoptCall, BindCall, ListenCall], False)
      else ([SocketCall, SetsockoptCall, BindCall, ListenCall, OpenCall], v_open env))"

text \<open>What a read at a position returns: \<open>None\<close> for -1, else the bytes.\<close>

definition read_at :: "server_env \<Rightarrow> nat \<Rightarrow> nat \<Rightarrow> u8 list option" where
  "read_at env i pos = map_option (\<lambda>c. take (min c BUFFER_SIZE) (drop pos (v_file env))) (v_read env i pos)"

text \<open>The inner loop from a file position on: the bytes that reach the client.\<close>

function copy_loop :: "server_env \<Rightarrow> nat \<Rightarrow> nat \<Rightarrow> u8 list" where
  "copy_loop env i pos =
     (case read_at env i pos of
        None \<Rightarrow> []
      | Some buf \<Rightarrow>
          if length buf > 0 then take (v_write env i pos) buf @ copy_loop env i (pos + length buf) else [])"
  by pat_completeness auto
termination
  by (relation "measure (\<lambda>(env, i, pos). length (v_file env) - pos)") (auto simp: read_at_def)

declare copy_loop.simps [simp del]

text \<open>
  The outer loop for the next \<open>k\<close> connections: what each client got, and whether the server is still
  running.
\<close>

fun basic_serve :: "server_env \<Rightarrow> nat \<Rightarrow> nat \<Rightarrow> u8 list list \<times> bool" where
  "basic_serve env i 0 = ([], True)"
| "basic_serve env i (Suc k) =
     (if \<not> v_seek env i then ([], False)
      else if \<not> v_accept env i then ([], False)
      else let (rest, running) = basic_serve env (i + 1) k in (copy_loop env i 0 # rest, running))"

definition SENDFILE_MAX :: nat where "SENDFILE_MAX = 0x7ffff000"

definition sendfile_once :: "server_env \<Rightarrow> nat \<Rightarrow> u8 list option" where
  "sendfile_once env i =
     map_option (\<lambda>c. take (min (min c SENDFILE_MAX) (v_fsize env i)) (v_file env)) (v_sendfile env i)"

fun sendfile_serve :: "server_env \<Rightarrow> nat \<Rightarrow> nat \<Rightarrow> u8 list list \<times> bool" where
  "sendfile_serve env i 0 = ([], True)"
| "sendfile_serve env i (Suc k) =
     (if \<not> v_accept env i then ([], False)
      else case sendfile_once env i of
        None \<Rightarrow> ([], False)
      | Some sent \<Rightarrow> let (rest, running) = sendfile_serve env (i + 1) k in (sent # rest, running))"

definition basic_main :: "server_env \<Rightarrow> nat \<Rightarrow> u8 list list \<times> bool" where
  "basic_main env k = (if snd (basic_setup env) then basic_serve env 0 k else ([], False))"

definition sendfile_main :: "server_env \<Rightarrow> nat \<Rightarrow> u8 list list \<times> bool" where
  "sendfile_main env k = (if snd (sendfile_setup env) then sendfile_serve env 0 k else ([], False))"

section \<open>What the clients get\<close>

text \<open>Nothing but bytes of the file, in their order; but some may be missing.\<close>

lemma copy_loop_subseq: "subseq (copy_loop env i pos) (drop pos (v_file env))"
proof (induction env i pos rule: copy_loop.induct)
  case (1 env i pos)
  show ?case
  proof (cases "read_at env i pos")
    case (Some buf)
    show ?thesis
    proof (cases "0 < length buf")
      case True
      have b: "drop pos (v_file env) = buf @ drop (pos + length buf) (v_file env)"
        using Some by (auto simp: read_at_def min_def append_take_drop_id [symmetric] simp del: append_take_drop_id)
          (metis append_take_drop_id drop_drop add.commute)+
      have "subseq (take (v_write env i pos) buf) buf" by (simp add: prefix_imp_subseq take_is_prefix)
      then have "subseq (take (v_write env i pos) buf @ copy_loop env i (pos + length buf))
          (buf @ drop (pos + length buf) (v_file env))"
        using 1 [OF Some True] by (rule list_emb_append_mono)
      then show ?thesis using Some True b by (simp add: copy_loop.simps [of env i pos])
    qed (use Some in \<open>simp add: copy_loop.simps [of env i pos]\<close>)
  qed (simp add: copy_loop.simps [of env i pos])
qed

definition reads_on :: "server_env \<Rightarrow> bool" where
  "reads_on env \<longleftrightarrow> (\<forall>i pos. pos < length (v_file env) \<longrightarrow> (\<exists>c > 0. v_read env i pos = Some c))"

definition whole_writes :: "server_env \<Rightarrow> bool" where
  "whole_writes env \<longleftrightarrow> (\<forall>i pos. BUFFER_SIZE \<le> v_write env i pos)"

lemma read_at_on:
  assumes "reads_on env" and "pos < length (v_file env)"
  shows "\<exists>buf. read_at env i pos = Some buf \<and> 0 < length buf \<and> length buf \<le> BUFFER_SIZE \<and>
    drop pos (v_file env) = buf @ drop (pos + length buf) (v_file env)"
proof -
  obtain c where c: "0 < c" "v_read env i pos = Some c" using assms unfolding reads_on_def by blast
  let ?n = "min c BUFFER_SIZE" and ?rest = "drop pos (v_file env)"
  have len: "length (take ?n ?rest) = min (length ?rest) ?n" by simp
  have d: "drop (pos + length (take ?n ?rest)) (v_file env) = drop ?n ?rest"
    unfolding len by (cases "length ?rest \<le> ?n") (simp_all add: min_def add.commute)
  have "?rest = take ?n ?rest @ drop (pos + length (take ?n ?rest)) (v_file env)"
    by (subst d) (rule append_take_drop_id [symmetric])
  then show ?thesis using c assms(2) by (intro exI [of _ "take ?n ?rest"]) (simp add: read_at_def BUFFER_SIZE_def)
qed

lemma read_at_end: "\<not> pos < length (v_file env) \<Longrightarrow> copy_loop env i pos = []"
  by (auto simp: copy_loop.simps [of env i pos] read_at_def split: option.split)

lemma copy_loop_whole: "reads_on env \<Longrightarrow> whole_writes env \<Longrightarrow> copy_loop env i pos = drop pos (v_file env)"
proof (induction env i pos rule: copy_loop.induct)
  case (1 env i pos)
  show ?case
  proof (cases "pos < length (v_file env)")
    case True
    obtain buf where b: "read_at env i pos = Some buf" "0 < length buf" "length buf \<le> BUFFER_SIZE"
      "drop pos (v_file env) = buf @ drop (pos + length buf) (v_file env)"
      using read_at_on [OF 1(2) True] by blast
    have "BUFFER_SIZE \<le> v_write env i pos" using 1(3) by (simp add: whole_writes_def)
    then show ?thesis using 1(1) [OF b(1,2) 1(2,3)] b by (simp add: copy_loop.simps [of env i pos])
  qed (simp add: read_at_end)
qed

lemma copy_loop_loses:
  assumes "reads_on env" and "pos < length (v_file env)" and "v_write env i pos = 0"
  shows "length (copy_loop env i pos) < length (drop pos (v_file env))"
proof -
  obtain buf where b: "read_at env i pos = Some buf" "0 < length buf"
    "drop pos (v_file env) = buf @ drop (pos + length buf) (v_file env)"
    using read_at_on [OF assms(1,2)] by blast
  then have c: "copy_loop env i pos = copy_loop env i (pos + length buf)"
    using assms(3) by (simp add: copy_loop.simps [of env i pos])
  have "length (copy_loop env i (pos + length buf)) \<le> length (drop (pos + length buf) (v_file env))"
    by (rule list_emb_length [OF copy_loop_subseq])
  moreover have "length (drop pos (v_file env)) = length buf + length (drop (pos + length buf) (v_file env))"
    using arg_cong [OF b(3), of length] by simp
  ultimately show ?thesis unfolding c using b(2) by linarith
qed

text \<open>All the calls of both servers succeed, and \<open>sendfile\<close> sends what it may in one call.\<close>

definition server_up :: "server_env \<Rightarrow> bool" where
  "server_up env \<longleftrightarrow> v_socket env \<and> v_setsockopt env \<and> v_bind env \<and> v_listen env \<and> v_open env \<and>
     (\<forall>i. v_seek env i \<and> v_accept env i \<and> v_fsize env i = length (v_file env) \<and>
        (\<exists>c. v_sendfile env i = Some c \<and> length (v_file env) \<le> c))"

lemma basic_serve_up: "server_up env \<Longrightarrow> basic_serve env i k = (map (\<lambda>j. copy_loop env (i + j) 0) [0..<k], True)"
proof (induction k arbitrary: i)
  case (Suc k)
  have "map (\<lambda>j. copy_loop env (i + j) 0) [0..<Suc k] = copy_loop env i 0 # map (\<lambda>j. copy_loop env (i + 1 + j) 0) [0..<k]"
    by (simp only: upt_conv_Cons [OF zero_less_Suc] list.map map_Suc_upt [symmetric] map_map) simp
  then show ?case using Suc.IH [OF Suc.prems, of "i + 1"] Suc.prems by (simp add: server_up_def)
qed simp

lemma sendfile_serve_up: "server_up env \<Longrightarrow> sendfile_serve env i k = (replicate k (take SENDFILE_MAX (v_file env)), True)"
proof (induction k arbitrary: i)
  case (Suc k)
  obtain c where "v_sendfile env i = Some c" "length (v_file env) \<le> c" "v_fsize env i = length (v_file env)" "v_accept env i"
    using Suc.prems unfolding server_up_def by blast
  then have "sendfile_once env i = Some (take SENDFILE_MAX (v_file env))"
    by (simp add: sendfile_once_def min_def)
  then show ?case using Suc.IH [OF Suc.prems, of "i + 1"] \<open>v_accept env i\<close> by simp
qed simp


definition sample_server :: server_env where
  "sample_server = \<lparr>v_socket = True, v_setsockopt = True, v_bind = True, v_listen = True, v_open = True,
     v_seek = \<lambda>_. True, v_accept = \<lambda>_. True, v_file = replicate 100 7, v_read = \<lambda>_ _. Some 64,
     v_write = \<lambda>i _. if i = 0 then 64 else 0, v_fsize = \<lambda>_. 100, v_sendfile = \<lambda>_. Some 1000\<rparr>"


end
