(* ===== verification/CommandLine.thy ===== *)
theory CommandLine
  imports Bytes
begin

unbundle bit_operations_syntax

text \<open>
  Two programs that work on their arguments: \<open>toy_docker/busy.c\<close>, which starts as many busy threads
  as \<open>-j\<close> says, and \<open>network/dns/DnsC.c\<close>, which lists the addresses of a host.  Arguments are C
  strings, \<open>argv\<close> without its final NULL.
\<close>

section \<open>Reading the option\<close>

text \<open>
  The first call of \<open>getopt\<close> with \<open>"j:"\<close>, as the GNU library does it: it looks for the first argument
  that is an option, behind the others if need be, and stops at \<open>--\<close>.  The result is its letter (or
  \<open>?\<close>) with \<open>optarg\<close>, or \<open>None\<close> for -1.
\<close>

fun getopt_j :: "cstring list \<Rightarrow> (u8 \<times> cstring) option" where
  "getopt_j [] = None"
| "getopt_j (a # as) =
     (if a = ascii ''--'' then None
      else if length a \<ge> 2 \<and> hd a = 45 then
        (if a ! 1 = 106 then
           (if length a > 2 then Some (106, drop 2 a)
            else case as of [] \<Rightarrow> Some (63, []) | b # _ \<Rightarrow> Some (106, b))
         else Some (63, []))
      else getopt_j as)"

text \<open>
  \<open>atoi\<close>: blanks, a sign, digits; as \<open>strtol\<close> reads them, held between the limits of \<open>long\<close>, and
  then cut to \<open>int\<close>.
\<close>

definition is_blank :: "u8 \<Rightarrow> bool" where
  "is_blank c \<longleftrightarrow> unat c = 32 \<or> 9 \<le> unat c \<and> unat c \<le> 13"

fun digits_value :: "int \<Rightarrow> cstring \<Rightarrow> int" where
  "digits_value acc [] = acc"
| "digits_value acc (c # cs) =
     (if 48 \<le> unat c \<and> unat c \<le> 57 then digits_value (acc * 10 + int (unat c) - 48) cs else acc)"

definition clamp_long :: "int \<Rightarrow> int" where
  "clamp_long v = max (- (2 ^ 63)) (min (2 ^ 63 - 1) v)"

definition atoi :: "cstring \<Rightarrow> int" where
  "atoi s =
     (let t = dropWhile is_blank s;
          v = (case t of [] \<Rightarrow> 0
               | c # cs \<Rightarrow> if c = 45 then - digits_value 0 cs else if c = 43 then digits_value 0 cs
                           else digits_value 0 t)
      in sint (word_of_int (clamp_long v) :: u32))"

definition get_job_num :: "cstring list \<Rightarrow> int" where
  "get_job_num argv =
     (if length argv \<le> 1 then - 1
      else case getopt_j (drop 1 argv) of
        None \<Rightarrow> - 1
      | Some (ret, optarg) \<Rightarrow> if ret \<noteq> 106 then - 1 else atoi optarg)"

text \<open>\<open>main\<close>: the number of threads it creates, and joins in vain: \<open>busy\<close> never returns.\<close>

definition busy_jobs :: "cstring list \<Rightarrow> int" where
  "busy_jobs argv = (let num = get_job_num argv in if num \<le> 0 then 8 else num)"

text \<open>There is always a job, and never more than an \<open>int\<close> can say.\<close>

lemma atoi_int: "- (2 ^ 31) \<le> atoi s \<and> atoi s < 2 ^ 31"
proof -
  have "- (2 ^ 31) \<le> sint (w :: u32) \<and> sint w < 2 ^ 31" for w
    using sint_greater_eq [of w] sint_less [of w] by simp
  then show ?thesis by (simp only: atoi_def Let_def)
qed

lemma busy_jobs_range: "1 \<le> busy_jobs argv \<and> busy_jobs argv < 2 ^ 31"
  using atoi_int by (auto simp: busy_jobs_def get_job_num_def Let_def split: option.split prod.split)

lemma busy_jobs_examples:
  "busy_jobs [ascii ''busy'', ascii ''-j3''] = 3" "busy_jobs [ascii ''busy''] = 8"
  "busy_jobs [ascii ''busy'', ascii ''x'', ascii ''-j'', ascii ''12''] = 12" "busy_jobs [ascii ''busy'', ascii ''-j0''] = 8"
  by (simp_all add: busy_jobs_def get_job_num_def atoi_def clamp_long_def is_blank_def ascii_def)

section \<open>The addresses of a host\<close>

text \<open>
  \<open>getaddrinfo\<close> is a parameter that gives an error or the list of families and socket addresses; the
  address of a family is at offset 4 or 8 of its structure.  The result is what \<open>main\<close> returns and the
  addresses it prints; \<open>None\<close> is a null pointer used or a read outside.
\<close>

definition AF_INET4 :: nat where "AF_INET4 = 2"

fun dns_addresses :: "(nat \<times> u8 list) list \<Rightarrow> (nat \<times> u8 list) list option" where
  "dns_addresses [] = Some []"
| "dns_addresses ((family, sockaddr) # ps) = do {
     addr \<leftarrow> (if family = AF_INET4 then get_bytes 4 4 sockaddr else get_bytes 8 16 sockaddr);
     rest \<leftarrow> dns_addresses ps;
     Some ((family, addr) # rest)
   }"

definition dns_main :: "(cstring \<Rightarrow> int + (nat \<times> u8 list) list) \<Rightarrow> cstring list \<Rightarrow> (int \<times> (nat \<times> u8 list) list) option" where
  "dns_main getaddrinfo argv =
     (if length argv \<noteq> 2 then (if length argv = 1 then None else Some (1, []))
      else case getaddrinfo (argv ! 1) of
        Inl status \<Rightarrow> Some (2, [])
      | Inr res \<Rightarrow> do { lines \<leftarrow> dns_addresses res; Some (0, lines) })"

lemma dns_addresses_all:
  assumes "\<forall>(family, sa) \<in> set res. family = 2 \<and> length sa = 16 \<or> family = 10 \<and> length sa = 28"
  shows "dns_addresses res = Some (map (\<lambda>(family, sa). (family, if family = 2 then take 4 (drop 4 sa) else take 16 (drop 8 sa))) res)"
  using assms by (induction res rule: dns_addresses.induct) (auto simp: get_bytes_def AF_INET4_def)

end
