(* ===== verification/IntrusiveList.thy ===== *)
theory IntrusiveList
  imports Prelude
begin

text \<open>
  The intrusive list of \<open>io/fd/intrusive_lists_test.c\<close>: circular and doubly linked, with the links
  inside the items and a bare link as the head.  The memory maps addresses of links and of items;
  \<open>None\<close> is an access to anything else.  Every store of \<open>list_add\<close> is a step of its own, since
  \<open>prev\<close> and \<open>next\<close> are the same link when the list is empty.
\<close>

section \<open>The code\<close>

record list_head =
  lh_next :: u64
  lh_prev :: u64

record list_mem =
  lm_heads :: "u64 \<rightharpoonup> list_head"
  lm_data :: "u64 \<rightharpoonup> int"          \<comment> \<open>\<open>data\<close> of the item at an address\<close>

definition set_next :: "u64 \<Rightarrow> u64 \<Rightarrow> list_mem \<Rightarrow> list_mem option" where
  "set_next a v m =
     map_option (\<lambda>h. m\<lparr>lm_heads := (lm_heads m)(a \<mapsto> h\<lparr>lh_next := v\<rparr>)\<rparr>) (lm_heads m a)"

definition set_prev :: "u64 \<Rightarrow> u64 \<Rightarrow> list_mem \<Rightarrow> list_mem option" where
  "set_prev a v m =
     map_option (\<lambda>h. m\<lparr>lm_heads := (lm_heads m)(a \<mapsto> h\<lparr>lh_prev := v\<rparr>)\<rparr>) (lm_heads m a)"

definition list_add :: "u64 \<Rightarrow> u64 \<Rightarrow> u64 \<Rightarrow> list_mem \<Rightarrow> list_mem option" where
  "list_add new prev next m = do {
     m \<leftarrow> set_prev next new m;
     m \<leftarrow> set_next new next m;
     m \<leftarrow> set_prev new prev m;
     set_next prev new m
   }"

definition list_add_head :: "u64 \<Rightarrow> u64 \<Rightarrow> list_mem \<Rightarrow> list_mem option" where
  "list_add_head new head m = do {
     h \<leftarrow> lm_heads m head;
     list_add new head (lh_next h) m
   }"

text \<open>The item around a link.\<close>

definition item_of :: "u64 \<Rightarrow> u64" where
  "item_of iterator = iterator - 8"

text \<open>The loop of \<open>main\<close> from \<open>iterator\<close> on: what it prints.  It ends only where the links come back.\<close>

partial_function (option) list_print :: "list_mem \<Rightarrow> u64 \<Rightarrow> u64 \<Rightarrow> int list option" where
  "list_print m list iterator =
     (if iterator = list then Some []
      else do {
        data \<leftarrow> lm_data m (item_of iterator);
        h \<leftarrow> lm_heads m iterator;
        rest \<leftarrow> list_print m list (lh_next h);
        Some (data # rest)
      })"

text \<open>
  \<open>main\<close> with its variables at given addresses: the list's link, and the three items, whose links are
  8 bytes further.  \<open>m\<close> is the memory when it starts.
\<close>

definition set_data :: "u64 \<Rightarrow> int \<Rightarrow> list_mem \<Rightarrow> list_mem" where
  "set_data a d m = m\<lparr>lm_data := (lm_data m)(a \<mapsto> d)\<rparr>"

definition list_main :: "u64 \<Rightarrow> u64 \<Rightarrow> u64 \<Rightarrow> u64 \<Rightarrow> list_mem \<Rightarrow> int list option" where
  "list_main list item1 item2 item3 m = do {
     m \<leftarrow> set_next list list m;
     m \<leftarrow> set_prev list list m;
     let m = set_data item3 300 (set_data item2 200 (set_data item1 100 m));
     m \<leftarrow> list_add_head (item1 + 8) list m;
     m \<leftarrow> list_add_head (item2 + 8) list m;
     m \<leftarrow> list_add_head (item3 + 8) list m;
     h \<leftarrow> lm_heads m list;
     list_print m list (lh_next h)
   }"

section \<open>Rings\<close>

definition next_of :: "list_mem \<Rightarrow> u64 \<Rightarrow> u64 option" where
  "next_of m a = map_option lh_next (lm_heads m a)"

definition prev_of :: "list_mem \<Rightarrow> u64 \<Rightarrow> u64 option" where
  "prev_of m a = map_option lh_prev (lm_heads m a)"

text \<open>Every link of the sequence points to its neighbour, and is pointed back to.\<close>

fun linked :: "list_mem \<Rightarrow> u64 list \<Rightarrow> bool" where
  "linked m (a # b # cs) \<longleftrightarrow> next_of m a = Some b \<and> prev_of m b = Some a \<and> linked m (b # cs)"
| "linked m _ \<longleftrightarrow> True"

text \<open>The list at \<open>list\<close> holds the links \<open>xs\<close>.\<close>

definition ring :: "list_mem \<Rightarrow> u64 \<Rightarrow> u64 list \<Rightarrow> bool" where
  "ring m list xs \<longleftrightarrow> distinct (list # xs) \<and> linked m (list # xs @ [list])"

lemma linked_append: "linked m (as @ p # q # bs) \<longleftrightarrow>
    linked m (as @ [p]) \<and> next_of m p = Some q \<and> prev_of m q = Some p \<and> linked m (q # bs)"
  by (induction as rule: induct_list012) auto

lemma linked_cong:
  assumes "\<forall>a \<in> set (butlast zs). next_of m' a = next_of m a"
    and "\<forall>b \<in> set (tl zs). prev_of m' b = prev_of m b"
  shows "linked m' zs = linked m zs"
  using assms by (induction zs rule: induct_list012) (auto split: if_splits)

lemma set_next_ex:
  "a \<in> dom (lm_heads m) \<Longrightarrow> \<exists>m'. set_next a v m = Some m' \<and> next_of m' = (next_of m)(a \<mapsto> v) \<and>
     prev_of m' = prev_of m \<and> dom (lm_heads m') = dom (lm_heads m) \<and> lm_data m' = lm_data m"
  by (auto simp: set_next_def next_of_def prev_of_def fun_eq_iff)

lemma set_prev_ex:
  "a \<in> dom (lm_heads m) \<Longrightarrow> \<exists>m'. set_prev a v m = Some m' \<and> prev_of m' = (prev_of m)(a \<mapsto> v) \<and>
     next_of m' = next_of m \<and> dom (lm_heads m') = dom (lm_heads m) \<and> lm_data m' = lm_data m"
  by (auto simp: set_prev_def next_of_def prev_of_def fun_eq_iff)

text \<open>The four stores together, also when \<open>prev\<close> is \<open>next\<close>.\<close>

lemma list_add_stores:
  assumes "{new, p, q} \<subseteq> dom (lm_heads m)" "new \<noteq> p" "new \<noteq> q"
  obtains m' where "list_add new p q m = Some m'" "next_of m' = (next_of m)(new \<mapsto> q, p \<mapsto> new)"
    "prev_of m' = (prev_of m)(q \<mapsto> new, new \<mapsto> p)" "dom (lm_heads m') = dom (lm_heads m)" "lm_data m' = lm_data m"
proof -
  obtain m1 where 1: "set_prev q new m = Some m1" "prev_of m1 = (prev_of m)(q \<mapsto> new)" "next_of m1 = next_of m"
    "dom (lm_heads m1) = dom (lm_heads m)" "lm_data m1 = lm_data m"
    using set_prev_ex [of q m new] assms(1) by auto
  obtain m2 where 2: "set_next new q m1 = Some m2" "next_of m2 = (next_of m1)(new \<mapsto> q)" "prev_of m2 = prev_of m1"
    "dom (lm_heads m2) = dom (lm_heads m1)" "lm_data m2 = lm_data m1"
    using set_next_ex [of new m1 q] assms(1) 1(4) by blast
  obtain m3 where 3: "set_prev new p m2 = Some m3" "prev_of m3 = (prev_of m2)(new \<mapsto> p)" "next_of m3 = next_of m2"
    "dom (lm_heads m3) = dom (lm_heads m2)" "lm_data m3 = lm_data m2"
    using set_prev_ex [of new m2 p] assms(1) 1(4) 2(4) by blast
  obtain m4 where 4: "set_next p new m3 = Some m4" "next_of m4 = (next_of m3)(p \<mapsto> new)" "prev_of m4 = prev_of m3"
    "dom (lm_heads m4) = dom (lm_heads m3)" "lm_data m4 = lm_data m3"
    using set_next_ex [of p m3 new] assms(1) 1(4) 2(4) 3(4) by blast
  show thesis
    by (rule that [of m4]) (simp_all add: list_add_def 1 2 3 4)
qed

lemma linked_heads: "linked m zs \<Longrightarrow> 2 \<le> length zs \<Longrightarrow> set zs \<subseteq> dom (lm_heads m)"
proof (induction m zs rule: linked.induct)
  case (1 m a b cs)
  have "a \<in> dom (lm_heads m)" "b \<in> dom (lm_heads m)" using 1(2) by (auto simp: next_of_def prev_of_def)
  then show ?case using 1 by (cases cs) auto
qed auto

text \<open>Adding between any two neighbours of a ring.\<close>

lemma list_add_ring:
  assumes r: "ring m list (xs @ ys)" and new: "new \<in> dom (lm_heads m)" "new \<notin> set (list # xs @ ys)"
  obtains m' where "list_add new (last (list # xs)) (hd (ys @ [list])) m = Some m'"
    "ring m' list (xs @ new # ys)" "dom (lm_heads m') = dom (lm_heads m)" "lm_data m' = lm_data m"
proof -
  let ?p = "last (list # xs)" and ?q = "hd (ys @ [list])" and ?us = "butlast (list # xs)" and ?vs = "tl (ys @ [list])"
  have us: "list # xs = ?us @ [?p]" by simp
  have vs: "ys @ [list] = ?q # ?vs" by (cases ys) auto
  have dist: "distinct (list # xs @ ys)" and ln: "linked m (list # (xs @ ys) @ [list])" using r by (auto simp: ring_def)
  have "list # (xs @ ys) @ [list] = ?us @ ?p # ?q # ?vs" using us vs by (metis append_Cons append_Nil append_assoc)
  then have parts: "linked m (?us @ [?p])" "linked m (?q # ?vs)" using ln linked_append by metis+
  have pm: "?p \<in> set (list # xs)" by simp
  have qm: "?q \<in> set (ys @ [list])" by (cases ys) auto
  have heads: "{new, ?p, ?q} \<subseteq> dom (lm_heads m)"
    using linked_heads [OF ln] pm qm new(1) by auto
  have ne: "new \<noteq> ?p" "new \<noteq> ?q" using new(2) pm qm by auto
  obtain m' where m': "list_add new ?p ?q m = Some m'" "next_of m' = (next_of m)(new \<mapsto> ?q, ?p \<mapsto> new)"
    "prev_of m' = (prev_of m)(?q \<mapsto> new, new \<mapsto> ?p)" "dom (lm_heads m') = dom (lm_heads m)" "lm_data m' = lm_data m"
    using list_add_stores [OF heads ne] by blast
  have "distinct (?us @ [?p])" using dist us by (metis distinct_append append_Cons)
  then have pu: "?p \<notin> set ?us" by simp
  have "set ?us \<subseteq> set (list # xs)" using in_set_butlastD by fast
  then have nu: "new \<notin> set ?us" using new(2) by auto
  have "tl (?us @ [?p]) = xs" using us by (metis list.sel(3))
  moreover have "?q \<notin> set xs" using dist by (cases ys) auto
  ultimately have left: "linked m' (?us @ [?p])"
    using parts(1) pu nu new(2) by (subst linked_cong [of _ _ m]) (auto simp: m')
  have "butlast (?q # ?vs) = ys" by (metis vs butlast_snoc)
  moreover have "?p \<notin> set ys" using dist pm by auto
  moreover have "?q \<notin> set ?vs" "new \<notin> set ?vs" using dist new(2) by (cases ys; auto)+
  ultimately have right: "linked m' (?q # ?vs)"
    using parts(2) new(2) by (subst linked_cong [of _ _ m]) (auto simp: m')
  have "linked m' (new # ?q # ?vs)" using right ne unfolding linked.simps by (simp add: m' del: hd_append2 hd_append)
  then have "linked m' (?us @ ?p # new # ?q # ?vs)"
    using left ne by (subst linked_append) (simp add: m')
  moreover have "?us @ ?p # new # ?q # ?vs = (?us @ [?p]) @ new # (?q # ?vs)" by (simp only: append.simps append_assoc)
  then have "?us @ ?p # new # ?q # ?vs = list # (xs @ new # ys) @ [list]"
    using us vs by (metis append_Cons append_assoc)
  ultimately have "linked m' (list # (xs @ new # ys) @ [list])" by (simp only:)
  then have "ring m' list (xs @ new # ys)" using dist new(2) by (auto simp: ring_def)
  then show thesis using that m' by blast
qed

text \<open>The loop prints a ring, if there is data in front of every link.\<close>

lemma list_print_linked:
  assumes "linked m (a # cs @ [list])" "set (a # cs) \<subseteq> dom (lm_heads m)" "list \<notin> set (a # cs)"
    "\<forall>c \<in> set (a # cs). item_of c \<in> dom (lm_data m)"
  shows "list_print m list a = Some (map (\<lambda>c. the (lm_data m (item_of c))) (a # cs))"
  using assms
proof (induction cs arbitrary: a)
  case Nil
  then show ?case by (auto simp: list_print.simps [of m list] next_of_def)
next
  case (Cons b cs)
  have "list_print m list b = Some (map (\<lambda>c. the (lm_data m (item_of c))) (b # cs))"
    using Cons.prems by (intro Cons.IH) auto
  moreover obtain h where "lm_heads m a = Some h" "lh_next h = b"
    using Cons.prems(1) by (auto simp: next_of_def)
  ultimately show ?case
    using Cons.prems by (subst list_print.simps) auto
qed

lemma list_print_ring:
  assumes "ring m list xs" "\<forall>c \<in> set xs. item_of c \<in> dom (lm_data m)"
  shows "\<exists>h. lm_heads m list = Some h \<and>
    list_print m list (lh_next h) = Some (map (\<lambda>c. the (lm_data m (item_of c))) xs)"
proof (cases xs)
  case Nil
  then show ?thesis using assms(1) by (auto simp: ring_def next_of_def list_print.simps)
next
  case (Cons a cs)
  have l: "linked m (list # a # cs @ [list])" "list \<notin> set (a # cs)" using assms(1) Cons by (auto simp: ring_def)
  then have "set (a # cs) \<subseteq> dom (lm_heads m)" using linked_heads [OF l(1)] by auto
  then have "list_print m list a = Some (map (\<lambda>c. the (lm_data m (item_of c))) (a # cs))"
    using list_print_linked [of m a cs list] l assms(2) Cons by auto
  moreover have "next_of m list = Some a" using l(1) by simp
  ultimately show ?thesis using Cons by (auto simp: next_of_def)
qed

lemma list_add_head_ring:
  assumes "ring m list xs" "new \<in> dom (lm_heads m)" "new \<notin> set (list # xs)"
  shows "\<exists>m'. list_add_head new list m = Some m' \<and> ring m' list (new # xs) \<and>
    dom (lm_heads m') = dom (lm_heads m) \<and> lm_data m' = lm_data m"
proof -
  have l: "linked m (list # xs @ [list])" using assms(1) by (simp add: ring_def)
  then have "next_of m list = Some (hd (xs @ [list]))" by (cases xs) auto
  then obtain h where h: "lm_heads m list = Some h" "lh_next h = hd (xs @ [list])" by (auto simp: next_of_def)
  obtain m' where "list_add new (last [list]) (hd (xs @ [list])) m = Some m'" "ring m' list ([] @ new # xs)"
    "dom (lm_heads m') = dom (lm_heads m)" "lm_data m' = lm_data m"
    using list_add_ring [of m list "[]" xs new] assms by auto
  then show ?thesis using h by (auto simp: list_add_head_def)
qed

text \<open>
  C19: \<open>list_add\<close> puts a link that is not in the list between any two neighbours of it, with every
  access inside the links it is given: the result is the ring with the link at that place, the data
  untouched.  \<open>list_add_head\<close> puts it in front, also in an empty list.  The loop of \<open>main\<close> ends on
  every ring whose links lie in items, and prints their data in the order of the list.
\<close>

theorem list_add_keeps_ring:
  assumes "ring m list (xs @ ys)" "new \<in> dom (lm_heads m)" "new \<notin> set (list # xs @ ys)"
  shows "(\<exists>m'. list_add new (last (list # xs)) (hd (ys @ [list])) m = Some m' \<and>
        ring m' list (xs @ new # ys) \<and> lm_data m' = lm_data m) \<and>
    (\<exists>m'. list_add_head new list m = Some m' \<and> ring m' list (new # xs @ ys) \<and> lm_data m' = lm_data m) \<and>
    ((\<forall>c \<in> set (xs @ ys). item_of c \<in> dom (lm_data m)) \<longrightarrow>
      (\<exists>h. lm_heads m list = Some h \<and>
        list_print m list (lh_next h) = Some (map (\<lambda>c. the (lm_data m (item_of c))) (xs @ ys))))"
  using list_add_ring [OF assms] list_add_head_ring [OF assms] list_print_ring [OF assms(1)] by metis

text \<open>A link at 8 put behind the head of the empty list at 0, and what is printed then.\<close>

definition sample_list :: list_mem where
  "sample_list = \<lparr>lm_heads = [0 \<mapsto> \<lparr>lh_next = 0, lh_prev = 0\<rparr>, 24 \<mapsto> \<lparr>lh_next = 5, lh_prev = 6\<rparr>], lm_data = [16 \<mapsto> 7]\<rparr>"

lemma list_add_keeps_ring_witness:
  "\<exists>m' h. list_add_head 24 0 sample_list = Some m' \<and> ring m' 0 [24] \<and>
     lm_heads sample_list 0 = Some h \<and> list_print sample_list 0 (lh_next h) = Some []"
proof -
  have "ring sample_list 0 ([] @ [])" "24 \<in> dom (lm_heads sample_list)" "24 \<notin> set (0 # [] @ [] :: u64 list)"
    by (auto simp: ring_def next_of_def prev_of_def sample_list_def)
  from list_add_keeps_ring [OF this] show ?thesis by auto
qed

text \<open>\<open>main\<close> prints 300, 200, 100, wherever its four variables lie.\<close>

lemma list_main_prints:
  assumes "distinct [list, i1 + 8, i2 + 8, i3 + 8]" "{list, i1 + 8, i2 + 8, i3 + 8} \<subseteq> dom (lm_heads m)"
  shows "list_main list i1 i2 i3 m = Some [300, 200, 100]"
proof -
  obtain m1 where 1: "set_next list list m = Some m1" "next_of m1 = (next_of m)(list \<mapsto> list)"
    "dom (lm_heads m1) = dom (lm_heads m)" using set_next_ex [of list m list] assms(2) by auto
  obtain m2 where 2: "set_prev list list m1 = Some m2" "next_of m2 = next_of m1" "prev_of m2 = (prev_of m1)(list \<mapsto> list)"
    "dom (lm_heads m2) = dom (lm_heads m1)" using set_prev_ex [of list m1 list] assms(2) 1(3) by auto
  define d where "d = set_data i3 300 (set_data i2 200 (set_data i1 100 m2))"
  have dd: "lm_heads d = lm_heads m2" by (simp add: d_def set_data_def)
  then have "ring d list []" using 1(2) 2(2,3) by (simp add: ring_def next_of_def prev_of_def fun_eq_iff)
  moreover have dom: "dom (lm_heads d) = dom (lm_heads m)" using dd 1(3) 2(4) by simp
  ultimately obtain m3 where 3: "list_add_head (i1 + 8) list d = Some m3" "ring m3 list [i1 + 8]"
    "dom (lm_heads m3) = dom (lm_heads m)" "lm_data m3 = lm_data d"
    using list_add_head_ring [of d list "[]" "i1 + 8"] assms by auto
  then obtain m4 where 4: "list_add_head (i2 + 8) list m3 = Some m4" "ring m4 list [i2 + 8, i1 + 8]"
    "dom (lm_heads m4) = dom (lm_heads m)" "lm_data m4 = lm_data d"
    using list_add_head_ring [of m3 list "[i1 + 8]" "i2 + 8"] assms by auto
  then obtain m5 where 5: "list_add_head (i3 + 8) list m4 = Some m5" "ring m5 list [i3 + 8, i2 + 8, i1 + 8]"
    "lm_data m5 = lm_data d"
    using list_add_head_ring [of m4 list "[i2 + 8, i1 + 8]" "i3 + 8"] assms by auto
  have data: "lm_data d i1 = Some 100" "lm_data d i2 = Some 200" "lm_data d i3 = Some 300"
    using assms(1) by (auto simp: d_def set_data_def)
  obtain h where "lm_heads m5 list = Some h" "list_print m5 list (lh_next h) = Some [300, 200, 100]"
    using list_print_ring [OF 5(2)] 5(3) data by (auto simp: item_of_def)
  then show ?thesis by (simp add: list_main_def 1 2 d_def [symmetric] 3 4 5)
qed

end
