(* ===== verification/TunTap.thy ===== *)
theory TunTap
  imports Bytes "HOL-Library.Signed_Division"
begin

unbundle bit_operations_syntax

text \<open>
  The TUN device program \<open>network/tuntap/tuntap_test.c\<close>: opening the device, and printing the IP
  header and the payload of every packet that is read.  \<open>None\<close> is an access outside a buffer.
\<close>

section \<open>Opening the device\<close>

text \<open>The answers of the kernel: the descriptor (or a negative number), and the \<open>struct ifreq\<close> after
  \<open>TUNSETIFF\<close> if that succeeds.\<close>

record tun_env =
  te_open :: int
  te_ioctl :: "u8 list \<Rightarrow> u8 list option"

definition tun_name_size :: nat where "tun_name_size = 16"
definition sizeof_tun_ifreq :: nat where "sizeof_tun_ifreq = 40"
definition ifr_flags_at :: nat where "ifr_flags_at = 16"
definition IFF_TUN :: nat where "IFF_TUN = 0x0001"
definition IFF_NO_PI :: nat where "IFF_NO_PI = 0x1000"

text \<open>The string in a buffer; \<open>strncpy\<close> of it to \<open>n\<close> bytes.\<close>

definition str_in :: "u8 list \<Rightarrow> cstring option" where
  "str_in b = (if 0 \<in> set b then Some (takeWhile (\<lambda>c. c \<noteq> 0) b) else None)"

definition strncpy_bytes :: "nat \<Rightarrow> u8 list \<Rightarrow> u8 list option" where
  "strncpy_bytes n b =
     (let s = take n (takeWhile (\<lambda>c. c \<noteq> 0) b)
      in if 0 \<in> set b \<or> n \<le> length b then Some (s @ replicate (n - length s) 0) else None)"

text \<open>The result, the descriptors that are open, and \<open>dev\<close>.\<close>

definition tun_alloc :: "tun_env \<Rightarrow> u8 list \<Rightarrow> int list \<Rightarrow> (int \<times> int list \<times> u8 list) option" where
  "tun_alloc env dev fds =
     (let fd = te_open env in
      if fd < 0 then Some (- 1, fds, dev)
      else do {
        let fds' = fd # fds;
        ifr \<leftarrow> put_le ifr_flags_at 2 (IFF_TUN OR IFF_NO_PI) (replicate sizeof_tun_ifreq 0);
        c \<leftarrow> get_bytes 0 1 dev;
        ifr \<leftarrow> (if c \<noteq> [0] then do {
                 name \<leftarrow> strncpy_bytes tun_name_size dev;
                 put_bytes 0 name ifr
               } else Some ifr);
        case te_ioctl env ifr of
          None \<Rightarrow> Some (- 1, remove1 fd fds', dev)
        | Some ifr' \<Rightarrow> do {
            name \<leftarrow> str_in (take tun_name_size ifr');
            dev' \<leftarrow> put_bytes 0 (name @ [0]) dev;
            Some (fd, fds', dev')
          }
      })"

section \<open>Printing a packet\<close>

text \<open>The lines of \<open>print_ip_header\<close>; 16-bit fields are read in the byte order of the machine.\<close>

record ip_lines =
  il_version :: nat
  il_header_length :: nat
  il_tos :: nat
  il_tot_len :: nat
  il_id :: nat
  il_ttl :: nat
  il_protocol :: nat
  il_check :: nat
  il_saddr :: "nat list"
  il_daddr :: "nat list"

definition dotted :: "nat \<Rightarrow> nat list" where
  "dotted a = [a AND 0xFF, drop_bit 8 a AND 0xFF, drop_bit 16 a AND 0xFF, drop_bit 24 a AND 0xFF]"

definition print_ip_header :: "u8 list \<Rightarrow> ip_lines option" where
  "print_ip_header ip = do {
     b0 \<leftarrow> get_le 0 1 ip;
     tos \<leftarrow> get_le 1 1 ip;
     tot_len \<leftarrow> get_le 2 2 ip;
     ident \<leftarrow> get_le 4 2 ip;
     ttl \<leftarrow> get_le 8 1 ip;
     protocol \<leftarrow> get_le 9 1 ip;
     check \<leftarrow> get_le 10 2 ip;
     saddr \<leftarrow> get_le 12 4 ip;
     daddr \<leftarrow> get_le 16 4 ip;
     Some \<lparr>il_version = b0 div 16, il_header_length = b0 mod 16 * 4, il_tos = tos, il_tot_len = tot_len,
       il_id = ident, il_ttl = ttl, il_protocol = protocol, il_check = check, il_saddr = dotted saddr,
       il_daddr = dotted daddr\<rparr>
   }"

datatype payload_item = Hex u8 | NewLine

text \<open>The loop of \<open>print_payload\<close> from index \<open>i\<close> on; \<open>smod\<close> is C's remainder.\<close>

function payload_loop :: "u8 list \<Rightarrow> int \<Rightarrow> int \<Rightarrow> int \<Rightarrow> payload_item list option" where
  "payload_loop packet offset sz i =
     (if i < sz then do {
        b \<leftarrow> (if 0 \<le> i \<and> nat i < length packet then Some (packet ! nat i) else None);
        rest \<leftarrow> payload_loop packet offset sz (i + 1);
        Some (Hex b # (if i smod 8 = (offset - 1) smod 8 then NewLine # rest else rest))
      } else Some [])"
  by pat_completeness auto
termination by (relation "measure (\<lambda>(packet, offset, sz, i). nat (sz - i))") auto

declare payload_loop.simps [simp del]

definition print_payload :: "u8 list \<Rightarrow> int \<Rightarrow> int \<Rightarrow> payload_item list option" where
  "print_payload packet offset sz = payload_loop packet offset sz offset"

text \<open>
  The loop of \<open>main\<close> over a list of results of \<open>read\<close>, \<open>None\<close> a failure: what is printed, and
  whether the program is still running.  A packet overwrites the front of the buffer only.
\<close>

fun tun_loop :: "u8 list option list \<Rightarrow> u8 list \<Rightarrow> ((ip_lines \<times> payload_item list) list \<times> bool) option" where
  "tun_loop [] buffer = Some ([], True)"
| "tun_loop (None # rs) buffer = Some ([], False)"
| "tun_loop (Some packet # rs) buffer = do {
     buffer \<leftarrow> put_bytes 0 packet buffer;
     header \<leftarrow> print_ip_header buffer;
     payload \<leftarrow> print_payload buffer 20 (int (length packet));
     (rest, running) \<leftarrow> tun_loop rs buffer;
     Some ((header, payload) # rest, running)
   }"

definition tun_main :: "tun_env \<Rightarrow> u8 list \<Rightarrow> u8 list \<Rightarrow> u8 list option list \<Rightarrow>
    ((ip_lines \<times> payload_item list) list \<times> bool) option" where
  "tun_main env tun_name buffer reads = do {
     tun_name \<leftarrow> put_bytes 0 (ascii ''tun1'' @ [0]) tun_name;
     (tun_fd, fds, tun_name) \<leftarrow> tun_alloc env tun_name [];
     if tun_fd < 0 then Some ([], False) else tun_loop reads buffer
   }"

section \<open>What is printed\<close>

text \<open>Rows of eight bytes, each full row with its line end.\<close>

fun rows :: "u8 list \<Rightarrow> u8 list list" where
  "rows [] = []"
| "rows (b # bs) = take 8 (b # bs) # rows (drop 8 (b # bs))"

definition row_items :: "u8 list \<Rightarrow> payload_item list" where
  "row_items row = map Hex row @ (if length row = 8 then [NewLine] else [])"

text \<open>The same with a count of the bytes on the line.\<close>

fun items :: "nat \<Rightarrow> u8 list \<Rightarrow> payload_item list" where
  "items k [] = []"
| "items k (b # bs) = Hex b # (if k = 7 then NewLine # items 0 bs else items (Suc k) bs)"

lemma items_row: "k \<le> 7 \<Longrightarrow> items k bs =
    map Hex (take (8 - k) bs) @ (if 8 - k \<le> length bs then NewLine # items 0 (drop (8 - k) bs) else [])"
proof (induction bs arbitrary: k)
  case (Cons b bs)
  show ?case
  proof (cases "k = 7")
    case False
    then have "8 - k = Suc (8 - Suc k)" "Suc k \<le> 7" using Cons.prems by auto
    then show ?thesis using Cons.IH [of "Suc k"] False by simp
  qed simp
qed simp

lemma items_rows: "items 0 bs = concat (map row_items (rows bs))"
proof (induction bs rule: rows.induct)
  case (2 b bs)
  show ?case
    using items_row [of 0 "b # bs"] 2 by (auto simp: row_items_def)
qed simp

lemma payload_loop_items:
  assumes "1 \<le> offset" "offset \<le> i" "i \<le> sz" "sz \<le> int (length packet)"
  shows "payload_loop packet offset sz i =
    Some (items (nat ((i - offset) mod 8)) (take (nat (sz - i)) (drop (nat i) packet)))"
  using assms
proof (induction packet offset sz i rule: payload_loop.induct)
  case (1 packet offset sz i)
  show ?case
  proof (cases "i < sz")
    case True
    have "x smod 8 = x mod 8" if "0 \<le> x" for x :: int
      using that by (cases "x = 0") (simp_all add: signed_modulo_int_def)
    then have smods: "i smod 8 = i mod 8" "(offset - 1) smod 8 = (offset - 1) mod 8" using 1(2-) by simp_all
    define x where "x = i - offset"
    have "i mod 8 = (offset - 1) mod 8 \<longleftrightarrow> 8 dvd x + 1" by (simp add: mod_eq_dvd_iff x_def algebra_simps)
    moreover have "8 dvd x + 1 \<longleftrightarrow> x mod 8 = 7" by presburger
    moreover have "x mod 8 = 7 \<longleftrightarrow> nat (x mod 8) = 7" by (simp add: nat_eq_iff)
    ultimately have rem: "i mod 8 = (offset - 1) mod 8 \<longleftrightarrow> nat ((i - offset) mod 8) = 7" by (simp add: x_def)
    have "(x + 1) mod 8 = (x mod 8 + 1) mod 8" by (simp only: mod_add_left_eq)
    moreover have "0 \<le> x mod 8" "x mod 8 < 8" by simp_all
    ultimately have "(x + 1) mod 8 = (if x mod 8 = 7 then 0 else x mod 8 + 1)" by auto
    then have "nat ((x + 1) mod 8) = (if nat (x mod 8) = 7 then 0 else Suc (nat (x mod 8)))"
      by (simp add: nat_eq_iff Suc_nat_eq_nat_zadd1)
    then have succ8: "nat ((i + 1 - offset) mod 8) =
        (if nat ((i - offset) mod 8) = 7 then 0 else Suc (nat ((i - offset) mod 8)))"
      by (simp add: x_def algebra_simps)
    have "nat i < length packet" "nat (sz - i) = Suc (nat (sz - (i + 1)))" "nat (i + 1) = Suc (nat i)"
      using True 1(2-) by auto
    then have bytes: "take (nat (sz - i)) (drop (nat i) packet) =
        packet ! nat i # take (nat (sz - (i + 1))) (drop (nat (i + 1)) packet)"
      by (simp add: Cons_nth_drop_Suc [symmetric])
    have "payload_loop packet offset sz (i + 1) =
        Some (items (nat ((i + 1 - offset) mod 8)) (take (nat (sz - (i + 1))) (drop (nat (i + 1)) packet)))"
      using 1 True \<open>nat i < length packet\<close> by auto
    then show ?thesis
      using True 1(2-) \<open>nat i < length packet\<close> by (subst payload_loop.simps) (simp add: bytes succ8 smods rem)
  qed (simp add: payload_loop.simps)
qed

lemma print_payload_rows:
  assumes "1 \<le> offset" "offset \<le> sz" "sz \<le> int (length packet)"
  shows "print_payload packet offset sz =
    Some (concat (map row_items (rows (take (nat (sz - offset)) (drop (nat offset) packet)))))"
  using payload_loop_items [of offset offset sz packet] assms by (simp add: print_payload_def items_rows)

text \<open>A header on the wire, with its 16-bit fields in network byte order, and what is printed of it.\<close>

definition wire_header :: "nat \<Rightarrow> nat \<Rightarrow> u8 \<Rightarrow> nat \<Rightarrow> nat \<Rightarrow> u8 list \<Rightarrow> u8 \<Rightarrow> u8 \<Rightarrow> nat \<Rightarrow> u8 list \<Rightarrow> u8 list \<Rightarrow> u8 list" where
  "wire_header version words tos len ident frag ttl protocol check src dst =
     [word_of_nat (version * 16 + words), tos] @ rev (le_bytes 2 len) @ rev (le_bytes 2 ident) @ frag @
     [ttl, protocol] @ rev (le_bytes 2 check) @ src @ dst"

definition swap16 :: "nat \<Rightarrow> nat" where
  "swap16 v = v div 256 + 256 * (v mod 256)"

lemma swap16_twice: "v < 2 ^ 16 \<Longrightarrow> swap16 (swap16 v) = v"
  unfolding swap16_def by simp

lemma le_nat_swapped: "v < 2 ^ 16 \<Longrightarrow> le_nat (rev (le_bytes 2 v)) = swap16 v"
proof -
  assume "v < 2 ^ 16"
  then have "v div 256 mod 256 = v div 256" by simp
  moreover have "rev (le_bytes 2 v) = [word_of_nat (v div 256), word_of_nat v]" by (simp add: numeral_2_eq_2)
  ultimately show ?thesis by (simp add: unat_of_nat swap16_def)
qed

lemma dotted_bytes: "dotted (le_nat [a, b, c, d]) = map unat [a, b, c, d]"
proof -
  have m: "n AND 0xFF = n mod 256" for n :: nat
    using take_bit_eq_mask [of 8 n] by (simp add: mask_eq_exp_minus_1 take_bit_eq_mod)
  have dotted: "dotted n = [n mod 256, n div 256 mod 256, n div 256 div 256 mod 256, n div 256 div 256 div 256 mod 256]" for n
    by (simp add: dotted_def m drop_bit_eq_div div_mult2_eq [symmetric])
  have unat_lt: "unat x < 256" for x :: u8
  proof -
    have "unat x < 2 ^ LENGTH(8)" by (rule unsigned_less)
    then show ?thesis by simp
  qed
  have split: "(unat x + 256 * n) mod 256 = unat x" "(unat x + 256 * n) div 256 = n" for x :: u8 and n
    using unat_lt [of x] by simp_all
  show ?thesis by (simp only: dotted le_nat.simps split list.map)
qed

lemma print_wire_header:
  assumes "version < 16" "words < 16" "len < 2 ^ 16" "ident < 2 ^ 16" "check < 2 ^ 16"
    "length frag = 2" "length src = 4" "length dst = 4"
  shows "print_ip_header (wire_header version words tos len ident frag ttl protocol check src dst @ rest) =
    Some \<lparr>il_version = version, il_header_length = words * 4, il_tos = unat tos, il_tot_len = swap16 len,
      il_id = swap16 ident, il_ttl = unat ttl, il_protocol = unat protocol, il_check = swap16 check,
      il_saddr = map unat src, il_daddr = map unat dst\<rparr>"
proof -
  obtain s0 s1 s2 s3 where src: "src = [s0, s1, s2, s3]" using assms(7) by (auto simp: length_Suc_conv numeral_eq_Suc)
  obtain d0 d1 d2 d3 where dst: "dst = [d0, d1, d2, d3]" using assms(8) by (auto simp: length_Suc_conv numeral_eq_Suc)
  obtain f0 f1 where frag: "frag = [f0, f1]" using assms(6) by (auto simp: length_Suc_conv numeral_eq_Suc)
  have le2: "le_bytes 2 v = [word_of_nat v, word_of_nat (v div 256)]" for v by (simp add: numeral_2_eq_2)
  have sw: "le_nat [word_of_nat (v div 256), word_of_nat v] = swap16 v" if "v < 2 ^ 16" for v
    using le_nat_swapped [OF that] by (simp add: le2)
  have b0: "unat (word_of_nat (version * 16 + words) :: u8) = version * 16 + words"
    using assms(1,2) by (simp add: unat_of_nat del: of_nat_add of_nat_mult)
  then have b0': "unat (word_of_nat version * 16 + word_of_nat words :: u8) = version * 16 + words" by simp
  show ?thesis
    using assms(1-5)
    by (simp add: print_ip_header_def wire_header_def src dst frag le2 get_le_def get_bytes_def sw b0 dotted_bytes
        del: le_nat.simps) (simp add: b0' assms)
qed

lemma str_in_ok: "0 \<in> set b \<Longrightarrow> \<exists>s. str_in b = Some s \<and> length s < length b"
proof -
  assume "0 \<in> set b"
  then obtain ys zs where b: "b = ys @ 0 # zs" "0 \<notin> set ys" by (metis split_list_first)
  then have "takeWhile (\<lambda>c. c \<noteq> 0) b = ys" by (auto simp: takeWhile_append)
  then show ?thesis using b by (simp add: str_in_def)
qed

text \<open>
  \<open>tun_alloc\<close> leaves a descriptor open exactly if it returns it, when the kernel answers with a whole
  \<open>struct ifreq\<close> that holds a name with its NUL.
\<close>

definition tun_kernel :: "tun_env \<Rightarrow> bool" where
  "tun_kernel env \<longleftrightarrow> (\<forall>ifr ifr'. te_ioctl env ifr = Some ifr' \<longrightarrow>
     length ifr' = sizeof_tun_ifreq \<and> 0 \<in> set (take tun_name_size ifr'))"

lemma tun_alloc_ok:
  assumes "length dev = tun_name_size" "0 \<in> set dev" "tun_kernel env"
  shows "\<exists>r fds' dev'. tun_alloc env dev fds = Some (r, fds', dev') \<and> length dev' = tun_name_size \<and>
    (r = - 1 \<and> fds' = fds \<or> 0 \<le> r \<and> r = te_open env \<and> fds' = r # fds)"
proof (cases "te_open env < 0")
  case True
  then show ?thesis using assms(1) by (simp add: tun_alloc_def)
next
  case False
  obtain ifr0 where 0: "put_le ifr_flags_at 2 (IFF_TUN OR IFF_NO_PI) (replicate sizeof_tun_ifreq 0) = Some ifr0"
    "length ifr0 = sizeof_tun_ifreq"
    by (simp add: put_le_def put_bytes_def ifr_flags_at_def sizeof_tun_ifreq_def)
  obtain c where c: "get_bytes 0 1 dev = Some c" using assms(1) by (simp add: get_bytes_def tun_name_size_def)
  obtain ifr1 where 1: "(if c \<noteq> [0] then do { name \<leftarrow> strncpy_bytes tun_name_size dev; put_bytes 0 name ifr0 } else Some ifr0) = Some ifr1"
    using 0(2) assms(1)
    by (cases "c \<noteq> [0]") (simp_all add: strncpy_bytes_def put_bytes_def tun_name_size_def sizeof_tun_ifreq_def Let_def)
  have pre: "tun_alloc env dev fds = (case te_ioctl env ifr1 of
      None \<Rightarrow> Some (- 1, fds, dev)
    | Some ifr' \<Rightarrow> do {
        name \<leftarrow> str_in (take tun_name_size ifr');
        dev' \<leftarrow> put_bytes 0 (name @ [0]) dev;
        Some (te_open env, te_open env # fds, dev')
      })"
    using False 0(1) c 1 by (simp add: tun_alloc_def Let_def cong: option.case_cong)
  show ?thesis
  proof (cases "te_ioctl env ifr1")
    case None
    then show ?thesis using pre assms(1) by simp
  next
    case (Some ifr')
    have "length ifr' = sizeof_tun_ifreq" "0 \<in> set (take tun_name_size ifr')"
      using assms(3) Some by (simp_all add: tun_kernel_def)
    then obtain name where name: "str_in (take tun_name_size ifr') = Some name" "length name < tun_name_size"
      using str_in_ok [of "take tun_name_size ifr'"] by (auto simp: tun_name_size_def sizeof_tun_ifreq_def)
    moreover from name(2) assms(1) obtain dev' where "put_bytes 0 (name @ [0]) dev = Some dev'"
      by (simp add: put_bytes_def)
    moreover from this have "length dev' = tun_name_size" using assms(1) length_put_bytes by metis
    ultimately have "str_in (take tun_name_size ifr') = Some name" "put_bytes 0 (name @ [0]) dev = Some dev'"
      "length dev' = tun_name_size" by simp_all
    then show ?thesis using pre Some False by simp
  qed
qed

text \<open>
  C40: The program opens one descriptor or ends, and then prints every packet of at most 1500 bytes: for
  a header without options it prints its fields and addresses with the 16-bit fields swapped, since
  they are not brought to host order, and the bytes behind the header in rows of eight, each full row
  with its line end; nothing outside the buffer is read.
\<close>

theorem tun_prints:
  assumes env: "tun_kernel env"
    and name: "length tun_name = tun_name_size" and buffer: "length buffer = 1500"
    and hdr: "version < 16" "words < 16" "len < 2 ^ 16" "ident < 2 ^ 16" "check < 2 ^ 16"
      "length frag = 2" "length src = 4" "length dst = 4"
    and packet: "packet = wire_header version words tos len ident frag ttl protocol check src dst @ data" "length packet \<le> 1500"
  shows "(\<exists>r fds dev. tun_alloc env (ascii ''tun1'' @ [0] @ drop 5 tun_name) [] = Some (r, fds, dev) \<and>
      (r = - 1 \<and> fds = [] \<or> 0 \<le> r \<and> fds = [r]) \<and>
      tun_main env tun_name buffer reads = (if r < 0 then Some ([], False) else tun_loop reads buffer)) \<and>
    tun_loop (Some packet # reads) buffer = do {
      (rest, running) \<leftarrow> tun_loop reads (packet @ drop (length packet) buffer);
      Some ((\<lparr>il_version = version, il_header_length = words * 4, il_tos = unat tos, il_tot_len = swap16 len,
        il_id = swap16 ident, il_ttl = unat ttl, il_protocol = unat protocol, il_check = swap16 check,
        il_saddr = map unat src, il_daddr = map unat dst\<rparr>, concat (map row_items (rows data))) # rest, running)
    }"
proof
  let ?dev = "ascii ''tun1'' @ [0] @ drop 5 tun_name"
  have p: "put_bytes 0 (ascii ''tun1'' @ [0]) tun_name = Some ?dev"
    using name by (simp add: put_bytes_def ascii_def tun_name_size_def numeral_eq_Suc)
  have "length ?dev = tun_name_size" "0 \<in> set ?dev" using name by (simp_all add: ascii_def tun_name_size_def)
  from tun_alloc_ok [OF this env, of "[]"] obtain r fds dev where
    "tun_alloc env ?dev [] = Some (r, fds, dev)" "r = - 1 \<and> fds = [] \<or> 0 \<le> r \<and> fds = [r]" by auto
  then show "\<exists>r fds dev. tun_alloc env ?dev [] = Some (r, fds, dev) \<and> (r = - 1 \<and> fds = [] \<or> 0 \<le> r \<and> fds = [r]) \<and>
      tun_main env tun_name buffer reads = (if r < 0 then Some ([], False) else tun_loop reads buffer)"
    using p by (simp add: tun_main_def)
next
  have "put_bytes 0 packet buffer = Some (packet @ drop (length packet) buffer)"
    using buffer packet(2) by (simp add: put_bytes_def)
  moreover have n: "length packet = 20 + length data"
    using packet(1) hdr(6-8) by (simp add: wire_header_def)
  then have "drop 20 packet = data" using packet(1) hdr(6-8) by (simp add: wire_header_def)
  then have "print_payload (packet @ drop (length packet) buffer) 20 (int (length packet)) = Some (concat (map row_items (rows data)))"
    using n by (subst print_payload_rows) simp_all
  moreover note print_wire_header [OF hdr, of tos ttl protocol "data @ drop (length packet) buffer"]
  ultimately show "tun_loop (Some packet # reads) buffer = do {
      (rest, running) \<leftarrow> tun_loop reads (packet @ drop (length packet) buffer);
      Some ((\<lparr>il_version = version, il_header_length = words * 4, il_tos = unat tos, il_tot_len = swap16 len,
        il_id = swap16 ident, il_ttl = unat ttl, il_protocol = unat protocol, il_check = swap16 check,
        il_saddr = map unat src, il_daddr = map unat dst\<rparr>, concat (map row_items (rows data))) # rest, running)
    }"
    using packet(1) by simp
qed

text \<open>A datagram of 29 bytes: 29 is printed as 7424, and the nine bytes of data as a row and a rest.\<close>

definition sample_packet :: "u8 list" where
  "sample_packet = wire_header 4 5 0 29 1 [0, 0] 64 17 0 [10, 0, 0, 1] [10, 0, 0, 2] @ [1, 2, 3, 4, 5, 6, 7, 8, 9]"

definition sample_tun :: tun_env where
  "sample_tun = \<lparr>te_open = 3, te_ioctl = (\<lambda>_. Some (replicate 40 0))\<rparr>"

lemma tun_prints_witness:
  "\<exists>h rest. tun_loop [Some sample_packet] (replicate 1500 0) = Some ([(h, rest)], True) \<and> il_tot_len h = 7424 \<and>
     rest = map Hex [1, 2, 3, 4, 5, 6, 7, 8] @ [NewLine, Hex 9]"
proof -
  have env: "tun_kernel sample_tun"
    by (auto simp: tun_kernel_def sample_tun_def sizeof_tun_ifreq_def tun_name_size_def)
  have len: "length sample_packet \<le> 1500" by (simp add: sample_packet_def wire_header_def)
  show ?thesis
    using tun_prints [of sample_tun "replicate 16 0" "replicate 1500 0" 4 5 29 1 0 "[0, 0]" "[10, 0, 0, 1]" "[10, 0, 0, 2]"
        sample_packet 0 64 17 "[1, 2, 3, 4, 5, 6, 7, 8, 9]" "[]", OF env _ _ _ _ _ _ _ _ _ _ _ len, THEN conjunct2]
    by (simp add: sample_packet_def tun_name_size_def swap16_def row_items_def)
qed

end
