(* ===== verification/Ucontext.thy ===== *)
theory Ucontext
  imports Main
begin

text \<open>
  The four programs \<open>cpu/ucontext_test*.c\<close> on an abstract machine for \<open>getcontext\<close>, \<open>makecontext\<close>,
  \<open>setcontext\<close> and \<open>swapcontext\<close>: a context is the code that is left to run and the context its
  function returns to.  Code is a list of calls; the contents of stacks are left out.
\<close>

section \<open>The machine\<close>

datatype uc_call =
    Say string
  | Sleep
  | Getcontext nat
  | Makecontext nat "uc_call list" "nat option"   \<comment> \<open>with \<open>uc_link\<close> as it was set before\<close>
  | Setcontext nat
  | Swapcontext nat nat

record ucontext =
  uc_code :: "uc_call list"
  uc_link :: "nat option"

record uc_machine =
  um_run :: ucontext
  um_saved :: "nat \<rightharpoonup> ucontext"
  um_out :: "string list"

datatype uc_outcome = Running uc_machine | Ended "string list" | Undefined

definition resume :: "nat \<Rightarrow> uc_machine \<Rightarrow> uc_outcome" where
  "resume i m = (case um_saved m i of None \<Rightarrow> Undefined | Some c \<Rightarrow> Running (m\<lparr>um_run := c\<rparr>))"

text \<open>One call.  A function that returns goes to its link, and ends the thread if there is none.\<close>

definition uc_step :: "uc_machine \<Rightarrow> uc_outcome" where
  "uc_step m =
     (case uc_code (um_run m) of
        [] \<Rightarrow> (case uc_link (um_run m) of None \<Rightarrow> Ended (um_out m) | Some i \<Rightarrow> resume i m)
      | call # rest \<Rightarrow>
          let here = (um_run m)\<lparr>uc_code := rest\<rparr>; m' = m\<lparr>um_run := here\<rparr>
          in (case call of
            Say s \<Rightarrow> Running (m'\<lparr>um_out := um_out m @ [s]\<rparr>)
          | Sleep \<Rightarrow> Running m'
          | Getcontext i \<Rightarrow> Running (m'\<lparr>um_saved := (um_saved m)(i \<mapsto> here)\<rparr>)
          | Makecontext i f l \<Rightarrow>
              if um_saved m i = None then Undefined
              else Running (m'\<lparr>um_saved := (um_saved m)(i \<mapsto> \<lparr>uc_code = f, uc_link = l\<rparr>)\<rparr>)
          | Setcontext i \<Rightarrow> resume i m'
          | Swapcontext i j \<Rightarrow> resume j (m'\<lparr>um_saved := (um_saved m)(i \<mapsto> here)\<rparr>)))"

fun uc_steps :: "nat \<Rightarrow> uc_outcome \<Rightarrow> uc_outcome" where
  "uc_steps 0 r = r"
| "uc_steps (Suc n) r = uc_steps n (case r of Running m \<Rightarrow> uc_step m | _ \<Rightarrow> r)"

definition uc_start :: "uc_call list \<Rightarrow> uc_outcome" where
  "uc_start main = Running \<lparr>um_run = \<lparr>uc_code = main, uc_link = None\<rparr>, um_saved = Map.empty, um_out = []\<rparr>"

text \<open>What a thread that has ended had printed.\<close>

fun printed :: "uc_outcome \<Rightarrow> string list option" where
  "printed (Ended out) = Some out"
| "printed _ = None"

section \<open>The programs\<close>

definition ucontext_test_main :: "uc_call list" where
  "ucontext_test_main = [Getcontext 0, Say ''Hello world'', Sleep, Setcontext 0]"

definition ucontext_test_2_foo :: "uc_call list" where
  "ucontext_test_2_foo = [Say ''[coroutine] foo'']"

definition ucontext_test_2_main :: "uc_call list" where
  "ucontext_test_2_main =
     [Getcontext 0, Makecontext 0 ucontext_test_2_foo None, Say ''[main] Hello world'', Sleep, Setcontext 0]"

definition ucontext_test_3_foo :: "uc_call list" where
  "ucontext_test_3_foo = [Say ''[coroutine] foo'']"

definition ucontext_test_3_bar :: "uc_call list" where
  "ucontext_test_3_bar = [Say ''[coroutine] bar'']"

definition ucontext_test_3_main :: "uc_call list" where
  "ucontext_test_3_main =
     [Getcontext 1, Makecontext 1 ucontext_test_3_foo None,
      Getcontext 2, Makecontext 2 ucontext_test_3_bar (Some 1),
      Say ''[main] Hello world'', Sleep, Setcontext 2]"

definition ucontext_test_4_foo :: "uc_call list" where
  "ucontext_test_4_foo = [Say ''[coroutine] start foo'', Swapcontext 1 2, Say ''[coroutine] finish foo'']"

definition ucontext_test_4_bar :: "uc_call list" where
  "ucontext_test_4_bar = [Say ''[coroutine] start bar'', Swapcontext 2 1, Say ''[coroutine] finish bar'']"

definition ucontext_test_4_main :: "uc_call list" where
  "ucontext_test_4_main =
     [Getcontext 1, Makecontext 1 ucontext_test_4_foo (Some 0),
      Getcontext 2, Makecontext 2 ucontext_test_4_bar (Some 1),
      Swapcontext 0 2, Say ''[main] finish'']"

section \<open>Runs\<close>

lemma uc_steps_add: "uc_steps (m + n) r = uc_steps n (uc_steps m r)"
  by (induction m arbitrary: r) auto

text \<open>Switching away and back: the caller goes on behind its call, the other one is left where it is.\<close>

lemma swap_and_back:
  assumes "i \<noteq> j" "um_saved m j = Some c" "uc_code c = Swapcontext j i # rest'"
    and "uc_code (um_run m) = Swapcontext i j # rest"
  shows "uc_steps 2 (Running m) = Running (m\<lparr>um_run := (um_run m)\<lparr>uc_code := rest\<rparr>,
    um_saved := (um_saved m)(i \<mapsto> (um_run m)\<lparr>uc_code := rest\<rparr>, j \<mapsto> c\<lparr>uc_code := rest'\<rparr>)\<rparr>)"
  using assms by (simp add: numeral_2_eq_2 uc_step_def resume_def)

lemmas uc_programs =
  ucontext_test_main_def ucontext_test_2_foo_def ucontext_test_2_main_def ucontext_test_3_foo_def
  ucontext_test_3_bar_def ucontext_test_3_main_def ucontext_test_4_foo_def ucontext_test_4_bar_def
  ucontext_test_4_main_def

text \<open>The coroutines of the last program finish in the order of the links, and \<open>main\<close> comes last.\<close>

lemma ucontext_test_4_prints:
  "printed (uc_steps 15 (uc_start ucontext_test_4_main)) = Some
     [''[coroutine] start bar'', ''[coroutine] start foo'', ''[coroutine] finish bar'',
      ''[coroutine] finish foo'', ''[main] finish'']"
  by code_simp

text \<open>
  In the programs before it \<open>main\<close> never goes on behind \<open>setcontext\<close>; the thread ends with the context
  that has no link.
\<close>

lemma ucontext_test_3_prints:
  "printed (uc_steps 12 (uc_start ucontext_test_3_main)) =
     Some [''[main] Hello world'', ''[coroutine] bar'', ''[coroutine] foo'']"
  by code_simp

lemma ucontext_test_2_prints:
  "printed (uc_steps 12 (uc_start ucontext_test_2_main)) = Some [''[main] Hello world'', ''[coroutine] foo'']"
  by code_simp

text \<open>The first program prints for ever.\<close>

definition hello_loop :: "nat \<Rightarrow> uc_machine" where
  "hello_loop k = (let c = \<lparr>uc_code = [Say ''Hello world'', Sleep, Setcontext 0], uc_link = None\<rparr>
    in \<lparr>um_run = c, um_saved = [0 \<mapsto> c], um_out = replicate k ''Hello world''\<rparr>)"

lemma ucontext_test_loops: "uc_steps (1 + 3 * k) (uc_start ucontext_test_main) = Running (hello_loop k)"
proof (induction k)
  case 0
  show ?case by (simp add: uc_start_def uc_step_def uc_programs hello_loop_def Let_def)
next
  case (Suc k)
  have "uc_steps 3 (Running (hello_loop k)) = Running (hello_loop (Suc k))"
    by (simp add: numeral_eq_Suc uc_step_def resume_def hello_loop_def Let_def replicate_append_same)
  moreover have "1 + 3 * Suc k = (1 + 3 * k) + 3" by simp
  ultimately show ?case using Suc uc_steps_add by metis
qed

end
