(* ===== verification/ThreadLocal.thy ===== *)
theory ThreadLocal
  imports Transition
begin

text \<open>
  \<open>thread/tls_test_01.c\<close> and \<open>thread/tls_test_02.c\<close>: two threads add to two variables, which belong to
  the thread in the first program and to the process in the second.  The threads interleave at their
  loads and stores; a \<open>+=\<close> is a load and a store.
\<close>

section \<open>The programs\<close>

definition g_foo_init :: u32 where "g_foo_init = 0x12345678"
definition g_bar_init :: u32 where "g_bar_init = 0x55555555"

text \<open>
  Before the load or the store of each variable, before the reads for \<open>printf\<close>, or done, with the values
  printed.
\<close>

datatype tls_pc =
    LoadFoo | StoreFoo u32 | LoadBar | StoreBar u32 | PrintFoo | PrintBar u32 | Printed u32 u32

text \<open>Copies of the variables are numbered by threads; \<open>main\<close> is 0 and the two threads are 1 and 2.\<close>

record tls_state =
  tl_foo :: "nat \<Rightarrow> u32"
  tl_bar :: "nat \<Rightarrow> u32"
  tl_pc :: "nat \<Rightarrow> tls_pc"

definition copy_of :: "bool \<Rightarrow> nat \<Rightarrow> nat" where
  "copy_of thread_local t = (if thread_local then t else 0)"

definition tls_start :: tls_state where
  "tls_start = \<lparr>tl_foo = (\<lambda>_. g_foo_init), tl_bar = (\<lambda>_. g_bar_init), tl_pc = (\<lambda>_. LoadFoo)\<rparr>"

definition thread_func :: "bool \<Rightarrow> nat \<Rightarrow> tls_state \<Rightarrow> tls_state option" where
  "thread_func thread_local t s =
     (let c = copy_of thread_local t; at = (\<lambda>pc s. s\<lparr>tl_pc := (tl_pc s)(t := pc)\<rparr>)
      in case tl_pc s t of
        LoadFoo \<Rightarrow> Some (at (StoreFoo (tl_foo s c + 1)) s)
      | StoreFoo v \<Rightarrow> Some (at LoadBar (s\<lparr>tl_foo := (tl_foo s)(c := v)\<rparr>))
      | LoadBar \<Rightarrow> Some (at (StoreBar (tl_bar s c + 2)) s)
      | StoreBar v \<Rightarrow> Some (at PrintFoo (s\<lparr>tl_bar := (tl_bar s)(c := v)\<rparr>))
      | PrintFoo \<Rightarrow> Some (at (PrintBar (tl_foo s c)) s)
      | PrintBar f \<Rightarrow> Some (at (Printed f (tl_bar s c)) s)
      | Printed f b \<Rightarrow> None)"

definition tls_step :: "bool \<Rightarrow> tls_state \<Rightarrow> tls_state \<Rightarrow> bool" where
  "tls_step thread_local s s' \<longleftrightarrow> (\<exists>t \<in> {1, 2}. thread_func thread_local t s = Some s')"

text \<open>What \<open>main\<close> prints when both threads have been joined.\<close>

fun thread_ended :: "tls_pc \<Rightarrow> bool" where
  "thread_ended (Printed f b) = True"
| "thread_ended _ = False"

definition tls_main :: "bool \<Rightarrow> tls_state \<Rightarrow> (u32 \<times> u32) option" where
  "tls_main thread_local s =
     (if thread_ended (tl_pc s 1) \<and> thread_ended (tl_pc s 2)
      then Some (tl_foo s (copy_of thread_local 0), tl_bar s (copy_of thread_local 0)) else None)"

text \<open>\<open>main\<close> of the second program.\<close>

definition tls_shared_main :: "tls_state \<Rightarrow> (u32 \<times> u32) option" where
  "tls_shared_main s = tls_main False s"

section \<open>One copy for each thread\<close>

fun local_ok :: "tls_pc \<Rightarrow> u32 \<Rightarrow> u32 \<Rightarrow> bool" where
  "local_ok LoadFoo f b \<longleftrightarrow> f = g_foo_init \<and> b = g_bar_init"
| "local_ok (StoreFoo v) f b \<longleftrightarrow> v = g_foo_init + 1 \<and> b = g_bar_init"
| "local_ok LoadBar f b \<longleftrightarrow> f = g_foo_init + 1 \<and> b = g_bar_init"
| "local_ok (StoreBar v) f b \<longleftrightarrow> f = g_foo_init + 1 \<and> v = g_bar_init + 2"
| "local_ok PrintFoo f b \<longleftrightarrow> f = g_foo_init + 1 \<and> b = g_bar_init + 2"
| "local_ok (PrintBar v) f b \<longleftrightarrow> v = g_foo_init + 1 \<and> b = g_bar_init + 2"
| "local_ok (Printed v w) f b \<longleftrightarrow> v = g_foo_init + 1 \<and> w = g_bar_init + 2"

definition tls_local_inv :: "tls_state \<Rightarrow> bool" where
  "tls_local_inv s \<longleftrightarrow> tl_foo s 0 = g_foo_init \<and> tl_bar s 0 = g_bar_init \<and>
     (\<forall>t. local_ok (tl_pc s t) (tl_foo s t) (tl_bar s t))"

lemma tls_local_step: "tls_local_inv s \<Longrightarrow> tls_step True s s' \<Longrightarrow> tls_local_inv s'"
proof -
  assume inv: "tls_local_inv s" and "tls_step True s s'"
  then obtain t where t: "t \<noteq> 0" "thread_func True t s = Some s'" unfolding tls_step_def by (metis insert_iff empty_iff zero_neq_one zero_neq_numeral)
  have "local_ok (tl_pc s t) (tl_foo s t) (tl_bar s t)" using inv by (simp add: tls_local_inv_def)
  then show ?thesis
    using inv t by (cases "tl_pc s t") (auto simp: tls_local_inv_def thread_func_def copy_of_def)
qed

interpretation tls_local: inv_system tls_start "tls_step True" tls_local_inv
  by unfold_locales (simp add: tls_start_def tls_local_inv_def, rule tls_local_step)

section \<open>One copy for all\<close>

fun foo_stored :: "tls_pc \<Rightarrow> bool" where
  "foo_stored LoadFoo = False"
| "foo_stored (StoreFoo v) = False"
| "foo_stored _ = True"

fun bar_stored :: "tls_pc \<Rightarrow> bool" where
  "bar_stored (StoreBar v) = False"
| "bar_stored LoadBar = False"
| "bar_stored pc = (foo_stored pc)"

fun foo_pending :: "tls_pc \<Rightarrow> u32 option" where
  "foo_pending (StoreFoo v) = Some v"
| "foo_pending _ = None"

fun bar_pending :: "tls_pc \<Rightarrow> u32 option" where
  "bar_pending (StoreBar v) = Some v"
| "bar_pending _ = None"

text \<open>
  One variable that starts as \<open>i\<close> and to which each of two threads adds \<open>d\<close> once: who has stored, what
  is about to be stored, and its value.  While a thread has not stored, only the other one can have.
\<close>

definition shared_var :: "u32 \<Rightarrow> u32 \<Rightarrow> bool \<Rightarrow> u32 option \<Rightarrow> bool \<Rightarrow> u32 option \<Rightarrow> u32 \<Rightarrow> bool" where
  "shared_var i d a p b q v \<longleftrightarrow>
     (if a \<and> b then v = i + d \<or> v = i + d + d else if a \<or> b then v = i + d else v = i) \<and>
     (\<forall>x. p = Some x \<longrightarrow> x = i + d \<or> b \<and> x = i + d + d) \<and>
     (\<forall>x. q = Some x \<longrightarrow> x = i + d \<or> a \<and> x = i + d + d)"

lemma shared_var_sym: "shared_var i d a p b q v = shared_var i d b q a p v"
  by (cases a; cases b) (auto simp: shared_var_def)

lemma shared_var_load: "shared_var i d False None b q v \<Longrightarrow> shared_var i d False (Some (v + d)) b q v"
  by (auto simp: shared_var_def)

lemma shared_var_store: "shared_var i d False (Some x) b q v \<Longrightarrow> shared_var i d True None b q x"
  by (auto simp: shared_var_def)

definition tls_pair_inv :: "nat \<Rightarrow> nat \<Rightarrow> tls_state \<Rightarrow> bool" where
  "tls_pair_inv t u s \<longleftrightarrow>
     shared_var g_foo_init 1 (foo_stored (tl_pc s t)) (foo_pending (tl_pc s t))
       (foo_stored (tl_pc s u)) (foo_pending (tl_pc s u)) (tl_foo s 0) \<and>
     shared_var g_bar_init 2 (bar_stored (tl_pc s t)) (bar_pending (tl_pc s t))
       (bar_stored (tl_pc s u)) (bar_pending (tl_pc s u)) (tl_bar s 0)"

abbreviation tls_shared_inv :: "tls_state \<Rightarrow> bool" where
  "tls_shared_inv \<equiv> tls_pair_inv 1 2"

lemma tls_pair_sym: "tls_pair_inv t u s = tls_pair_inv u t s"
  unfolding tls_pair_inv_def using shared_var_sym by blast

lemma tls_pair_step: "tls_pair_inv t u s \<Longrightarrow> t \<noteq> u \<Longrightarrow> thread_func False t s = Some s' \<Longrightarrow> tls_pair_inv t u s'"
  by (cases "tl_pc s t")
    (auto simp: tls_pair_inv_def thread_func_def copy_of_def intro: shared_var_load shared_var_store)

lemma tls_shared_step: "tls_shared_inv s \<Longrightarrow> tls_step False s s' \<Longrightarrow> tls_shared_inv s'"
  using tls_pair_step [of 1 2 s s'] tls_pair_step [of 2 1 s s'] tls_pair_sym [of 1 2]
  by (auto simp: tls_step_def)

interpretation tls_shared: inv_system tls_start "tls_step False" tls_shared_inv
  by unfold_locales (simp add: tls_start_def tls_pair_inv_def shared_var_def, rule tls_shared_step)

section \<open>What is printed\<close>

text \<open>
  With the variables of the threads' own, every thread prints its two sums and \<open>main\<close> the initial
  values, in every interleaving.  With shared variables \<open>main\<close> prints sums in which an addition may be
  lost, each variable for itself, but never both.
\<close>

lemma tls_prints:
  "((tls_step True)\<^sup>*\<^sup>* tls_start s \<longrightarrow>
      (\<forall>t f b. tl_pc s t = Printed f b \<longrightarrow> f = 0x12345679 \<and> b = 0x55555557) \<and>
      (\<forall>out. tls_main True s = Some out \<longrightarrow> out = (0x12345678, 0x55555555))) \<and>
   ((tls_step False)\<^sup>*\<^sup>* tls_start s \<longrightarrow>
      (\<forall>out. tls_shared_main s = Some out \<longrightarrow> fst out \<in> {0x12345679, 0x1234567a} \<and> snd out \<in> {0x55555557, 0x55555559}))"
proof (intro conjI impI allI)
  fix t f b
  assume "(tls_step True)\<^sup>*\<^sup>* tls_start s" "tl_pc s t = Printed f b"
  then have "local_ok (Printed f b) (tl_foo s t) (tl_bar s t)" using tls_local.reach_inv unfolding tls_local_inv_def by metis
  then show "f = 0x12345679" "b = 0x55555557" by (simp_all add: g_foo_init_def g_bar_init_def)
next
  fix out
  assume "(tls_step True)\<^sup>*\<^sup>* tls_start s" "tls_main True s = Some out"
  then show "out = (0x12345678, 0x55555555)"
    using tls_local.reach_inv
    by (fastforce simp: tls_local_inv_def tls_main_def tls_shared_main_def copy_of_def g_foo_init_def g_bar_init_def split: if_splits)
next
  fix out
  assume r: "(tls_step False)\<^sup>*\<^sup>* tls_start s" "tls_shared_main s = Some out"
  have ended: "foo_stored pc \<and> bar_stored pc" if "thread_ended pc" for pc using that by (cases pc) auto
  have "tls_shared_inv s" using r(1) by (rule tls_shared.reach_inv)
  then show "fst out \<in> {0x12345679, 0x1234567a}" "snd out \<in> {0x55555557, 0x55555559}"
    using r(2) ended
    by (auto simp: tls_pair_inv_def tls_main_def tls_shared_main_def shared_var_def copy_of_def g_foo_init_def g_bar_init_def split: if_splits)
qed

text \<open>A run by the order of its steps; one that loses an addition to each shared variable.\<close>

fun tls_run :: "bool \<Rightarrow> nat list \<Rightarrow> tls_state \<Rightarrow> tls_state option" where
  "tls_run thread_local [] s = Some s"
| "tls_run thread_local (t # ts) s = (case thread_func thread_local t s of None \<Rightarrow> None | Some s' \<Rightarrow> tls_run thread_local ts s')"

lemma tls_run_steps: "tls_run l ts s = Some s' \<Longrightarrow> set ts \<subseteq> {1, 2} \<Longrightarrow> (tls_step l)\<^sup>*\<^sup>* s s'"
proof (induction ts arbitrary: s)
  case (Cons t ts)
  then obtain s1 where s1: "thread_func l t s = Some s1" "tls_run l ts s1 = Some s'" by (auto split: option.splits)
  then have "tls_step l s s1" using Cons.prems(2) by (auto simp: tls_step_def)
  moreover have "(tls_step l)\<^sup>*\<^sup>* s1 s'" using Cons.IH [OF s1(2)] Cons.prems(2) by simp
  ultimately show ?case by (rule converse_rtranclp_into_rtranclp)
qed simp

lemma shared_additions_lost:
  "\<exists>s. (tls_step False)\<^sup>*\<^sup>* tls_start s \<and> tls_shared_main s = Some (0x12345679, 0x55555557)"
proof -
  let ?order = "[1, 2, 1, 2, 1, 2, 1, 2, 1, 2, 1, 2]"
  obtain s where "tls_run False ?order tls_start = Some s" "tls_shared_main s = Some (0x12345679, 0x55555557)"
    by (simp add: tls_start_def thread_func_def copy_of_def tls_main_def tls_shared_main_def g_foo_init_def g_bar_init_def)
  moreover from this(1) have "(tls_step False)\<^sup>*\<^sup>* tls_start s" by (rule tls_run_steps) simp
  ultimately show ?thesis by blast
qed

end
