(* ===== verification/NetlinkTyping.thy ===== *)
theory NetlinkTyping
  imports Netlink
begin

text \<open>
  The type of a message of \<open>nl.c\<close> while it is built: the buffer is as long as the capacity says, and
  the length in its header is aligned, holds the header and does not pass the capacity.  Every operation
  that builds a message keeps it, in any order and whatever the operations before have returned.
\<close>

section \<open>Well-formed messages\<close>

definition nlmsg_ok :: "nlmsg \<Rightarrow> bool" where
  "nlmsg_ok m \<longleftrightarrow> length (nm_buf m) = nm_cap m \<and> nm_cap m < 2 ^ 31 \<and>
     (case hdr_len m of None \<Rightarrow> False | Some n \<Rightarrow> 16 \<le> n \<and> n mod 4 = 0 \<and> n \<le> nm_cap m)"

text \<open>The same message but for its content behind the length.\<close>

definition same_frame :: "nlmsg \<Rightarrow> nlmsg \<Rightarrow> bool" where
  "same_frame m m' \<longleftrightarrow> nm_cap m' = nm_cap m \<and> length (nm_buf m') = length (nm_buf m) \<and> hdr_len m' = hdr_len m"

lemma same_frame_ok: "nlmsg_ok m \<Longrightarrow> same_frame m m' \<Longrightarrow> nlmsg_ok m'"
  by (simp add: nlmsg_ok_def same_frame_def split: option.splits)

lemma same_frame_trans: "same_frame m m' \<Longrightarrow> same_frame m' m'' \<Longrightarrow> same_frame m m''"
  by (simp add: same_frame_def)

lemma put_bytes_frame:
  assumes "4 \<le> off" "off + length x \<le> length (nm_buf m)"
  shows "\<exists>b. put_bytes off x (nm_buf m) = Some b \<and> same_frame m (m\<lparr>nm_buf := b\<rparr>)"
proof -
  have "take 4 (take off (nm_buf m) @ x @ drop (off + length x) (nm_buf m)) = take 4 (nm_buf m)"
    using assms by (simp add: min_def)
  then show ?thesis
    using assms by (simp add: put_bytes_def same_frame_def hdr_len_def get_le_def get_bytes_def)
qed

lemma put_field_frame:
  assumes "4 \<le> off" "off + k \<le> length (nm_buf m)"
  shows "\<exists>m'. put_field off k v m = Some m' \<and> same_frame m m'"
  using put_bytes_frame [of off "le_bytes k v" m] assms by (auto simp: put_field_def put_le_def)

lemma set_hdr_len_new:
  assumes "4 \<le> length (nm_buf m)" "v < 2 ^ 32"
  shows "\<exists>m'. set_hdr_len v m = Some m' \<and> nm_cap m' = nm_cap m \<and> length (nm_buf m') = length (nm_buf m) \<and>
    hdr_len m' = Some v"
proof -
  let ?b = "le_bytes 4 v @ drop 4 (nm_buf m)"
  have "set_hdr_len v m = Some (m\<lparr>nm_buf := ?b\<rparr>)"
    using assms(1) by (simp add: set_hdr_len_def put_field_def put_le_def put_bytes_def)
  moreover have "hdr_len (m\<lparr>nm_buf := ?b\<rparr>) = Some v"
    using assms(2) by (simp add: hdr_len_def get_le_def get_bytes_def)
  ultimately show ?thesis using assms(1) by auto
qed

lemma nlmsg_okE:
  assumes "nlmsg_ok m"
  obtains n where "hdr_len m = Some n" "16 \<le> n" "n mod 4 = 0" "n \<le> nm_cap m" "nm_cap m < 2 ^ 31"
    "length (nm_buf m) = nm_cap m" "NLMSG_TAIL m = Some n" "align4 n = n"
proof -
  obtain n where n: "hdr_len m = Some n" "16 \<le> n" "n mod 4 = 0" "n \<le> nm_cap m" "nm_cap m < 2 ^ 31"
    "length (nm_buf m) = nm_cap m"
    using assms by (auto simp: nlmsg_ok_def split: option.splits)
  moreover from this have "align4 n = n" by (intro align4_fix) auto
  ultimately show thesis by (intro that [of n]) (auto simp: NLMSG_TAIL_def)
qed

section \<open>The operations\<close>

text \<open>The length grows by an aligned amount, or nothing changes.\<close>

definition grown :: "nlmsg \<Rightarrow> nlmsg \<Rightarrow> bool" where
  "grown m m' \<longleftrightarrow> nlmsg_ok m' \<and> nm_cap m' = nm_cap m \<and> the (hdr_len m) \<le> the (hdr_len m')"

lemma nla_put_typed:
  assumes ok: "nlmsg_ok m" and len: "length data < 2 ^ 31"
  shows "\<exists>r m'. nla_put attr data m = Some (r, m') \<and> grown m m' \<and>
    (r = 0 \<and> the (hdr_len m) + 4 \<le> the (hdr_len m') \<or> r = - int ENOMEM \<and> m' = m)"
proof -
  obtain n where n: "hdr_len m = Some n" "16 \<le> n" "n mod 4 = 0" "n \<le> nm_cap m" "nm_cap m < 2 ^ 31"
    "length (nm_buf m) = nm_cap m" "NLMSG_TAIL m = Some n" "align4 n = n"
    using nlmsg_okE [OF ok] .
  let ?k = "align4 (4 + length data)"
  have k: "4 + length data \<le> ?k" "?k < 4 + length data + 4" "?k mod 4 = 0"
    using align4_bounds [of "4 + length data"] len by simp_all
  have t: "(n + ?k) mod size_modulus = n + ?k" using n(4,5) k len by (simp add: size_modulus_def)
  show ?thesis
  proof (cases "nm_cap m < n + ?k")
    case True
    then show ?thesis
      using ok n(1,8) t by (simp add: nla_put_def RTA_LENGTH_def grown_def)
  next
    case False
    obtain m1 where m1: "put_field (n + 2) 2 attr m = Some m1" "same_frame m m1"
      using put_field_frame [of "n + 2" 2 m attr] False k n(2,6) by auto
    obtain m2 where m2: "put_field n 2 (4 + length data) m1 = Some m2" "same_frame m1 m2"
      using put_field_frame [of n 2 m1 "4 + length data"] m1(2) False k n(2,6) by (auto simp: same_frame_def)
    have s2: "same_frame m m2" by (rule same_frame_trans [OF m1(2) m2(2)])
    obtain b where b: "put_bytes (n + 4) data (nm_buf m2) = Some b" "same_frame m2 (m2\<lparr>nm_buf := b\<rparr>)"
      using put_bytes_frame [of "n + 4" data m2] s2 False k n(2,6) by (auto simp: same_frame_def)
    have s3: "same_frame m (m2\<lparr>nm_buf := b\<rparr>)" by (rule same_frame_trans [OF s2 b(2)])
    then obtain m3 where m3: "set_hdr_len (n + ?k) (m2\<lparr>nm_buf := b\<rparr>) = Some m3" "nm_cap m3 = nm_cap m"
      "length (nm_buf m3) = length (nm_buf m)" "hdr_len m3 = Some (n + ?k)"
      using set_hdr_len_new [of "m2\<lparr>nm_buf := b\<rparr>" "n + ?k"] n(2,4-6) False by (auto simp: same_frame_def)
    have "nla_put attr data m = Some (0, m3)"
      using n(1,7,8) t False m1(1) m2(1) b(1) m3(1) by (simp add: nla_put_def RTA_LENGTH_def)
    moreover have "(n + ?k) mod 4 = 0" using n(3) k(3) by (simp add: mod_add_eq [symmetric])
    ultimately show ?thesis
      using m3 n k False by (auto simp: grown_def nlmsg_ok_def)
  qed
qed

lemma nlmsg_reserve_typed:
  assumes ok: "nlmsg_ok m" and len: "len < 2 ^ 31"
  shows "\<exists>r m'. nlmsg_reserve len m = Some (r, m') \<and> grown m m' \<and>
    (case r of None \<Rightarrow> m' = m | Some off \<Rightarrow> hdr_len m = Some off \<and> off + len \<le> the (hdr_len m'))"
proof -
  obtain n where n: "hdr_len m = Some n" "16 \<le> n" "n mod 4 = 0" "n \<le> nm_cap m" "nm_cap m < 2 ^ 31"
    "length (nm_buf m) = nm_cap m"
    using nlmsg_okE [OF ok] .
  have k: "len \<le> align4 len" "align4 len mod 4 = 0" using align4_bounds [of len] len by simp_all
  show ?thesis
  proof (cases "nm_cap m < n + align4 len")
    case True
    then show ?thesis using ok n(1) by (simp add: nlmsg_reserve_def grown_def Let_def)
  next
    case False
    obtain m1 where m1: "set_hdr_len (n + align4 len) m = Some m1" "nm_cap m1 = nm_cap m"
      "length (nm_buf m1) = length (nm_buf m)" "hdr_len m1 = Some (n + align4 len)"
      using set_hdr_len_new [of m "n + align4 len"] n(2,4-6) False by auto
    obtain b where b: "put_bytes (n + len) (replicate (align4 len - len) 0) (nm_buf m1) = Some b"
      "same_frame m1 (m1\<lparr>nm_buf := b\<rparr>)"
      using put_bytes_frame [of "n + len" "replicate (align4 len - len) 0" m1] m1(3) n(2,6) False k(1) by auto
    have mod: "(n + align4 len) mod 4 = 0" using n(3) k(2) by (simp add: mod_add_eq [symmetric])
    define b' where "b' = (if align4 len > len then b else nm_buf m1)"
    have s: "same_frame m1 (m1\<lparr>nm_buf := b'\<rparr>)" using b(2) by (simp add: b'_def same_frame_def)
    have "nlmsg_reserve len m = Some (Some n, m1\<lparr>nm_buf := b'\<rparr>)"
      using n(1) False m1(1) b(1) by (simp add: nlmsg_reserve_def Let_def b'_def)
    then show ?thesis
      using s m1 n mod k False by (auto simp: grown_def nlmsg_ok_def same_frame_def)
  qed
qed

lemma nlmsg_alloc_typed:
  assumes "nlmsg_alloc env sz s = (Some m, s')" "sz < 2 ^ 30"
  shows "nlmsg_ok m \<and> hdr_len m = Some 16 \<and> nm_cap m = 16 + align4 sz"
proof -
  have k: "align4 sz < sz + 4" "align4 sz mod 4 = 0" using align4_bounds [of sz] assms(2) by simp_all
  then have len: "(NLMSG_HDRLEN + align4 sz) mod size_modulus = 16 + align4 sz"
    using assms(2) by (simp add: NLMSG_HDRLEN_def size_modulus_def)
  let ?m0 = "\<lparr>nm_buf = replicate (16 + align4 sz) 0, nm_cap = 16 + align4 sz\<rparr>"
  have "set_hdr_len NLMSG_HDRLEN ?m0 = Some m"
    using assms(1) by (auto simp: nlmsg_alloc_def len Let_def split: prod.splits if_splits)
  then show ?thesis
    using set_hdr_len_new [of ?m0 NLMSG_HDRLEN] assms(2) k by (auto simp: nlmsg_ok_def NLMSG_HDRLEN_def)
qed

section \<open>Building\<close>

text \<open>
  What a client does to a message, and with the nests it has open; a field is only written inside the
  message.  The boolean says whether the call succeeded.
\<close>

datatype nl_op =
    Put nat "u8 list" | PutString nat cstring | PutU32 nat u32 | PutU16 nat u16 | PutAttr nat
  | Begin nat | End | Reserve nat | Field nat nat nat

fun run_op :: "nl_op \<Rightarrow> nat list \<times> nlmsg \<Rightarrow> (bool \<times> nat list \<times> nlmsg) option" where
  "run_op (Put a d) (nests, m) = do { (r, m) \<leftarrow> nla_put_buffer a d m; Some (r = 0, nests, m) }"
| "run_op (PutString a s) (nests, m) = do { (r, m) \<leftarrow> nla_put_string a s m; Some (r = 0, nests, m) }"
| "run_op (PutU32 a v) (nests, m) = do { (r, m) \<leftarrow> nla_put_u32 a v m; Some (r = 0, nests, m) }"
| "run_op (PutU16 a v) (nests, m) = do { (r, m) \<leftarrow> nla_put_u16 a v m; Some (r = 0, nests, m) }"
| "run_op (PutAttr a) (nests, m) = do { (r, m) \<leftarrow> nla_put_attr a m; Some (r = 0, nests, m) }"
| "run_op (Begin a) (nests, m) = do {
     (r, m) \<leftarrow> nla_begin_nested a m;
     Some (case r of None \<Rightarrow> (False, nests, m) | Some nest \<Rightarrow> (True, nest # nests, m))
   }"
| "run_op End (nests, m) =
     (case nests of [] \<Rightarrow> Some (False, nests, m)
      | nest # rest \<Rightarrow> do { m \<leftarrow> nla_end_nested nest m; Some (True, rest, m) })"
| "run_op (Reserve len) (nests, m) = do { (r, m) \<leftarrow> nlmsg_reserve len m; Some (r \<noteq> None, nests, m) }"
| "run_op (Field off k v) (nests, m) = do {
     n \<leftarrow> hdr_len m;
     if 16 \<le> off \<and> off + k \<le> n then do { m \<leftarrow> put_field off k v m; Some (True, nests, m) }
     else Some (False, nests, m)
   }"

fun run_ops :: "nl_op list \<Rightarrow> nat list \<times> nlmsg \<Rightarrow> (bool \<times> nat list \<times> nlmsg) option" where
  "run_ops [] st = Some (True, st)"
| "run_ops (op # ops) st = do { (ok, st) \<leftarrow> run_op op st; if ok then run_ops ops st else Some (False, st) }"

fun op_small :: "nl_op \<Rightarrow> bool" where
  "op_small (Put a d) \<longleftrightarrow> length d < 2 ^ 31"
| "op_small (PutString a s) \<longleftrightarrow> length s + 1 < 2 ^ 31"
| "op_small (Reserve len) \<longleftrightarrow> len < 2 ^ 31"
| "op_small _ \<longleftrightarrow> True"

definition builder_ok :: "nat \<Rightarrow> nat list \<times> nlmsg \<Rightarrow> bool" where
  "builder_ok cap st \<longleftrightarrow> nlmsg_ok (snd st) \<and> nm_cap (snd st) = cap \<and>
     (\<forall>r \<in> set (fst st). 16 \<le> r \<and> r + 4 \<le> the (hdr_len (snd st)))"

lemma builder_ok_grown: "builder_ok cap (nests, m) \<Longrightarrow> grown m m' \<Longrightarrow> builder_ok cap (nests, m')"
  by (auto simp: builder_ok_def grown_def)

lemma builder_ok_frame: "builder_ok cap (nests, m) \<Longrightarrow> same_frame m m' \<Longrightarrow> builder_ok cap (nests, m')"
  using same_frame_ok [of m m'] by (auto simp: builder_ok_def same_frame_def)

lemma run_put:
  assumes "builder_ok cap (nests, m)" "length d < 2 ^ 31"
  shows "\<exists>r m'. nla_put a d m = Some (r, m') \<and> builder_ok cap (nests, m') \<and> (r \<noteq> 0 \<longrightarrow> m' = m)"
proof -
  have "nlmsg_ok m" using assms(1) by (simp add: builder_ok_def)
  from nla_put_typed [OF this assms(2), of a] show ?thesis
    using builder_ok_grown [OF assms(1)] by auto
qed

lemma run_op_typed:
  assumes "builder_ok cap st" "op_small op"
  shows "\<exists>ok st'. run_op op st = Some (ok, st') \<and> builder_ok cap st' \<and> (\<not> ok \<longrightarrow> st' = st)"
proof -
  obtain nests m where st: "st = (nests, m)" by fastforce
  have b: "builder_ok cap (nests, m)" using assms(1) st by simp
  then have ok: "nlmsg_ok m" by (simp add: builder_ok_def)
  obtain n where n: "hdr_len m = Some n" "16 \<le> n" "n \<le> nm_cap m" "length (nm_buf m) = nm_cap m" "NLMSG_TAIL m = Some n"
    using nlmsg_okE [OF ok] by metis
  show ?thesis
  proof (cases op)
    case (Put a d)
    then show ?thesis using run_put [OF b, of d a] assms(2) st by (auto simp: nla_put_buffer_def)
  next
    case (PutString a s)
    then show ?thesis using run_put [OF b, of "s @ [0]" a] assms(2) st by (auto simp: nla_put_string_def)
  next
    case (PutU32 a v)
    then show ?thesis using run_put [OF b, of "le_bytes 4 (unat v)" a] st by (auto simp: nla_put_u32_def)
  next
    case (PutU16 a v)
    then show ?thesis using run_put [OF b, of "le_bytes 2 (unat v)" a] st by (auto simp: nla_put_u16_def)
  next
    case (PutAttr a)
    then show ?thesis using run_put [OF b, of "[]" a] st by (auto simp: nla_put_attr_def)
  next
    case (Begin a)
    obtain r m' where p: "nla_put a [] m = Some (r, m')" "grown m m'"
      "r = 0 \<and> n + 4 \<le> the (hdr_len m') \<or> r = - int ENOMEM \<and> m' = m"
      using nla_put_typed [OF ok, of "[]" a] n(1) by auto
    then have "builder_ok cap (n # nests, m')" if "r = 0"
      using builder_ok_grown [OF b p(2)] that n(2) by (auto simp: builder_ok_def ENOMEM_def)
    then show ?thesis
      using Begin st b p n(5) by (auto simp: nla_begin_nested_def nla_put_attr_def ENOMEM_def)
  next
    case End
    show ?thesis
    proof (cases nests)
      case (Cons r rest)
      then have "16 \<le> r" "r + 2 \<le> length (nm_buf m)" using b n by (auto simp: builder_ok_def)
      then obtain m' where "put_field r 2 (n - r) m = Some m'" "same_frame m m'"
        using put_field_frame [of r 2 m "n - r"] by auto
      moreover from this have "builder_ok cap (rest, m')"
        using builder_ok_frame [OF b] Cons by (auto simp: builder_ok_def)
      ultimately show ?thesis using End st Cons n(5) by (auto simp: nla_end_nested_def)
    qed (use End st b in \<open>auto intro: exI [of _ False]\<close>)
  next
    case (Reserve len)
    then obtain r m' where "nlmsg_reserve len m = Some (r, m')" "grown m m'" "r = None \<longrightarrow> m' = m"
      using nlmsg_reserve_typed [OF ok, of len] assms(2) by (fastforce split: option.splits)
    then show ?thesis using Reserve st b builder_ok_grown [OF b] by auto
  next
    case (Field off k v)
    show ?thesis
    proof (cases "16 \<le> off \<and> off + k \<le> n")
      case True
      then obtain m' where "put_field off k v m = Some m'" "same_frame m m'"
        using put_field_frame [of off k m v] n(3,4) by auto
      then show ?thesis using Field True st n(1) builder_ok_frame [OF b] by auto
    qed (use Field st n(1) b in \<open>auto intro: exI [of _ False]\<close>)
  qed
qed

lemma run_ops_typed:
  assumes "list_all op_small ops"
  shows "builder_ok cap st \<Longrightarrow> \<exists>ok st'. run_ops ops st = Some (ok, st') \<and> builder_ok cap st'"
  using assms
proof (induction ops arbitrary: st)
  case (Cons op ops)
  then obtain ok st1 where "run_op op st = Some (ok, st1)" "builder_ok cap st1"
    using run_op_typed [of cap st op] by auto
  then show ?case using Cons by (cases ok) (auto intro: exI [of _ False])
qed (auto intro: exI [of _ True])

text \<open>
  C21: Whatever is built into a message that \<open>nlmsg_alloc\<close> has returned, in any order and nesting, with
  any attributes, lengths below 2 GiB and fields inside the message: no call reads or writes outside the
  buffer, the message stays well formed and of the capacity it has been allocated with, also when a call
  fails for lack of room, and \<open>netlink_send\<close> finds all the bytes its header announces.
\<close>

theorem messages_stay_typed:
  assumes "nlmsg_alloc env sz s = (Some m, s')" and "sz < 2 ^ 30" and "list_all op_small ops"
  shows "\<exists>ok nests m'. run_ops ops ([], m) = Some (ok, nests, m') \<and> nlmsg_ok m' \<and> nm_cap m' = 16 + align4 sz \<and>
    (\<forall>nest \<in> set nests. 16 \<le> nest \<and> nest + 4 \<le> the (hdr_len m')) \<and>
    (\<exists>n bytes. hdr_len m' = Some n \<and> get_bytes 0 n (nm_buf m') = Some bytes \<and> length bytes = n)"
proof -
  have "builder_ok (16 + align4 sz) ([], m)" using nlmsg_alloc_typed [OF assms(1,2)] by (simp add: builder_ok_def)
  then obtain ok st where st: "run_ops ops ([], m) = Some (ok, st)" "builder_ok (16 + align4 sz) st"
    using run_ops_typed [OF assms(3)] by blast
  then have "nlmsg_ok (snd st)" by (simp add: builder_ok_def)
  then obtain n where "hdr_len (snd st) = Some n" "n \<le> nm_cap (snd st)" "length (nm_buf (snd st)) = nm_cap (snd st)"
    using nlmsg_okE by metis
  then show ?thesis using st by (cases st) (auto simp: builder_ok_def get_bytes_def)
qed

text \<open>A message of 64 bytes that is filled until a call fails.\<close>

lemma messages_stay_typed_witness:
  "\<exists>m s' ok nests m'. nlmsg_alloc sample_net_env 64 sample_net = (Some m, s') \<and>
     run_ops [Reserve 16, Begin 18, PutString 1 (ascii ''veth''), End, Put 7 (replicate 40 1), End] ([], m) =
       Some (ok, nests, m') \<and> nlmsg_ok m' \<and> nm_cap m' = 80"
proof -
  obtain m s' where a: "nlmsg_alloc sample_net_env 64 sample_net = (Some m, s')"
    using nlmsg_alloc_spec by (auto simp: nlmsg_alloc_def sys_malloc_def sample_net_env_def Let_def set_hdr_len_def
        put_field_def put_le_def put_bytes_def NLMSG_HDRLEN_def size_modulus_def)
  from messages_stay_typed [OF a, of "[Reserve 16, Begin 18, PutString 1 (ascii ''veth''), End, Put 7 (replicate 40 1), End]"]
  show ?thesis using a by (auto simp: ascii_def)
qed

end
