(* ===== verification/NetworkRun.thy ===== *)
theory NetworkRun
  imports Containers
begin

text \<open>
  \<open>toy_docker/step_network\<close> as a whole: what the parent and the container have asked the kernel for, and the
  control group files, when the container's command runs.  The functions of \<open>network.c\<close>, the set-up
  functions of \<open>toy_docker.c\<close> and the two processes with their pipe come together here.
\<close>

section \<open>The functions, with a kernel that accepts everything\<close>

lemma accepts_socket:
  assumes "good_net env" and "kernel_accepts env"
  shows "\<exists>fd. k_socket env s = Inr fd"
proof (cases "k_socket env s")
  case (Inl e)
  then have "fst (netlink_open env NETLINK_ROUTE s) = - int e" by (simp add: netlink_open_def sys_socket_def Let_def)
  moreover have "fst (netlink_open env NETLINK_ROUTE s) = 0" using assms(2) by (simp add: kernel_accepts_def)
  moreover have "errno_ok env" using assms(1) by (simp add: good_net_def)
  ultimately show ?thesis using errno_okD(1) [OF _ Inl] by simp
qed auto

lemma asked_ioctl: "req \<noteq> SIOCBRADDIF \<Longrightarrow> asked (snd (sys_ioctl env fd req b s)) = asked s"
  by (simp add: sys_ioctl_def log_event_def Let_def)

lemma hw_ioctls: "SIOCGIFHWADDR \<noteq> SIOCBRADDIF" "SIOCSIFHWADDR \<noteq> SIOCBRADDIF"
  by (simp_all add: SIOCBRADDIF_def SIOCGIFHWADDR_def SIOCSIFHWADDR_def)

lemmas hw_quiet = asked_simps asked_ioctl [OF hw_ioctls(1)] asked_ioctl [OF hw_ioctls(2)]

lemma private_hw_asked:
  assumes "setup_private_host_hw_addr env ifr veth s = Some (r, s')"
  shows "asked s' = asked s"
proof (cases "fst (sys_socket env AF_INET SOCK_DGRAM 0 s)")
  case (Inl e)
  then show ?thesis using assms by (auto simp: setup_private_host_hw_addr_def case_prod_beta hw_quiet)
next
  case (Inr fd)
  let ?s1 = "snd (sys_socket env AF_INET SOCK_DGRAM 0 s)"
  obtain ifr1 where i: "put_bytes 0 (take (IFNAMSIZ - 1) veth @ [0]) ifr = Some ifr1"
    using assms Inr by (auto simp: setup_private_host_hw_addr_def case_prod_beta bind_eq_Some_conv)
  show ?thesis
  proof (cases "fst (sys_ioctl env fd SIOCGIFHWADDR ifr1 ?s1)")
    case (Inl e)
    then show ?thesis using assms Inr i by (auto simp: setup_private_host_hw_addr_def case_prod_beta hw_quiet)
  next
    case I: (Inr ifr2)
    then show ?thesis using assms Inr i
      by (auto simp: setup_private_host_hw_addr_def case_prod_beta bind_eq_Some_conv hw_quiet)
  qed
qed

lemma hw_asked:
  assumes "setup_hw_addr env ifr sa mac name s = Some (r, s')"
  shows "asked s' = asked s"
  using assms by (cases "fst (sys_socket env AF_INET SOCK_DGRAM 0 s)")
    (auto simp: setup_hw_addr_def case_prod_beta bind_eq_Some_conv hw_quiet split: if_splits)

lemma bridge_asked:
  assumes "good_net env" "kernel_accepts env" "ifreq_ok env" "length ifr = 40" "length ifname < 16" "k_nametoindex env s ifname \<noteq> 0"
  shows "\<exists>err s'. lxc_bridge_attach env ifr bridge ifname s = Some (err, s') \<and>
    asked s' = asked s @ [AddToBridge (padded_name bridge @ le_bytes 4 (unat (k_nametoindex env s ifname)) @ drop 20 ifr)]"
proof -
  obtain fd where fd: "k_socket env s = Inr fd" using accepts_socket [OF assms(1,2)] by blast
  obtain err s' where "lxc_bridge_attach env ifr bridge ifname s = Some (err, s')"
    "if length ifname \<ge> 16 \<or> k_nametoindex env s ifname = 0 then err = - int EINVAL \<and> s' = s
       else \<forall>fd. k_socket env s = Inr fd \<longrightarrow> n_trace s' = n_trace s @ [EvSocket AF_INET SOCK_STREAM 0,
         EvIoctl fd SIOCBRADDIF (padded_name bridge @ le_bytes 4 (unat (k_nametoindex env s ifname)) @ drop 20 ifr),
         EvClose fd]"
    using ioctls_ok [OF assms(4,3), where s = s and ifname = ifname and bridge = bridge] by blast
  then show ?thesis using fd assms(5,6) by auto
qed

lemma move_accepted:
  assumes "good_net env" "kernel_accepts env" "length nm < 3000"
  shows "\<exists>s'. lxc_netdev_move_by_index env index pid (Some nm) s = Some (0, s') \<and>
    asked s' = asked s @ [Message (move_message_of index pid (Some nm))]"
proof -
  have k: "\<forall>s n. k_malloc env s n" using assms(2) by (simp add: kernel_accepts_def)
  obtain h s1 where o: "netlink_open env NETLINK_ROUTE s = (0, h, s1)"
    using assms(2) unfolding kernel_accepts_def by (metis prod.collapse)
  obtain fd where fd: "h_fd h = Some fd"
    using netlink_open_zero [OF o refl] assms(1) by (auto simp: good_net_def)
  obtain m s2 where a: "nlmsg_alloc env NLMSG_GOOD_SIZE s1 = (Some m, s2)" "msg_repr m 0 0 []" "nm_cap m = 8208"
    using nlmsg_alloc_spec [OF good_size(2), of env s1] nlmsg_alloc_None [of env NLMSG_GOOD_SIZE s1] k by auto
  obtain m1 m2 m3 m4 m5 m6 m7 where mm: "set_hdr_flags (NLM_F_REQUEST OR NLM_F_ACK) m = Some m1"
    "set_hdr_type RTM_NEWLINK m1 = Some m2" "nlmsg_reserve sizeof_ifinfomsg m2 = Some (Some 16, m3)"
    "put_field 16 1 AF_UNSPEC m3 = Some m4" "put_field 20 4 (unat index) m4 = Some m5"
    "nla_put_u32 IFLA_NET_NS_PID pid m5 = Some (0, m6)" "nla_put_string IFLA_IFNAME nm m6 = Some (0, m7)"
    "msg_repr m7 RTM_NEWLINK (NLM_F_REQUEST OR NLM_F_ACK) (move_body index pid (Some nm))"
    using move_message [OF a(2,3), of "Some nm" index pid] assms(3) by auto
  have len: "24 \<le> length (move_body index pid (Some nm))"
    by (simp add: move_body_def ifinfomsg_def encode_attrs_def length_encode_attr)
  have n: "hdr_len m7 = Some (16 + length (move_body index pid (Some nm)))"
    "16 + length (move_body index pid (Some nm)) \<le> length (nm_buf m7)"
    using hdr_len_repr [OF mm(8)] msg_repr_len [OF mm(8)] mm(8) by (simp_all add: msg_repr_def)
  obtain x s3 where "netlink_transaction env h m7 m7 s2 = Some (0, x, s3)"
    "asked s3 = asked s2 @ [Message (move_message_of index pid (Some nm))]"
    using transaction_accepted [OF mm(8) fd n(1) _ n(2) assms(2), of s2] len by (auto simp: move_message_of_def)
  then show ?thesis
    using o a(1) mm(1-7) asked_open [OF o] asked_alloc [OF a(1)] by (simp add: lxc_netdev_move_by_index_def asked_simps)
qed

section \<open>The parent's and the container's part\<close>

text \<open>What \<open>init_network\<close>, the move and \<open>start_network\<close> ask for, with the indices of the interfaces.\<close>

definition init_requests :: "(cstring \<Rightarrow> u32) \<Rightarrow> surroundings \<Rightarrow> cstring \<times> cstring \<Rightarrow> request list" where
  "init_requests index mem v = (case v of (veth0, veth1) \<Rightarrow>
     [Message (veth_message veth0 veth1),
      AddToBridge (padded_name (ascii ''br0'') @ le_bytes 4 (unat (index veth0)) @ drop 20 (m_ifr mem)),
      Message (up_message (index veth0))])"

definition move_request_of :: "(cstring \<Rightarrow> u32) \<Rightarrow> int \<Rightarrow> cstring \<times> cstring \<Rightarrow> request" where
  "move_request_of index pid v = Message (move_message_of (index (snd v)) (word_of_int pid) (Some (ascii ''eth0'')))"

definition start_requests :: "(cstring \<Rightarrow> u32) \<Rightarrow> request list" where
  "start_requests index = (let eth0 = index (ascii ''eth0'') in
     [Message (addr_message eth0 8 [192, 168, 0, 102] [192, 168, 100, 255]),
      Message (up_message (index (ascii ''lo''))),
      Message (up_message eth0),
      Message (gateway_message eth0 [192, 168, 0, 100])])"

text \<open>Every name has an index that does not change.\<close>

definition indexed :: "net_env \<Rightarrow> (cstring \<Rightarrow> u32) \<Rightarrow> bool" where
  "indexed env index \<longleftrightarrow> (\<forall>s name. k_nametoindex env s name = index name \<and> 0 < sint (index name))"

lemma indexedD: "indexed env index \<Longrightarrow> k_nametoindex env s name = index name \<and> index name \<noteq> 0 \<and> \<not> sint (index name) < 0"
  unfolding indexed_def by (metis less_irrefl not_less_iff_gr_or_eq sint_0)

lemma init_network_asks:
  assumes env: "good_net env" "kernel_accepts env" "ifreq_ok env" "indexed env index"
    and mem: "names_free mem" "length (m_ifr mem) = 40"
  shows "\<exists>v s'. init_network env mem s = Some (Some v, s') \<and> asked s' = asked s @ init_requests index mem v \<and>
    from_template veth0buf (fst v) \<and> from_template veth1buf (snd v)"
proof -
  obtain names k0 k1 where n: "\<forall>n. m_dup mem n" "m_names mem = Some names"
    "fst (fill_name (m_rand0 mem) (k0 * count_list veth0buf 88) veth0buf) \<notin> set names"
    "fst (fill_name (m_rand1 mem) (k1 * count_list veth1buf 88) veth1buf) \<notin> set names"
    using mem(1) unfolding names_free_def one_X by auto
  obtain v0 where v0: "lxc_mkifname (m_dup mem) (m_rand0 mem) (Some names) veth0buf = Some (Some v0, False)"
    "from_template veth0buf v0"
    using mkifname_returns [OF n(1) n(3)] by blast
  obtain v1 where v1: "lxc_mkifname (m_dup mem) (m_rand1 mem) (Some names) veth1buf = Some (Some v1, False)"
    "from_template veth1buf v1"
    using mkifname_returns [OF n(1) n(4)] by blast
  have len: "length veth0buf = 7" "length veth1buf = 7" by (simp_all add: veth0buf_def veth1buf_def ascii_def)
  have good: "\<not> bad_name v0" "\<not> bad_name v1" "length v0 < 16"
    using template_good_name [OF v0(2) len(1)] template_good_name [OF v1(2) len(2)] by (auto simp: bad_name_def IFNAMSIZ_def)
  obtain s1 where s1: "lxc_veth_create env v0 v1 s = Some (0, s1)" "asked s1 = asked s @ [Message (veth_message v0 v1)]"
    using veth_create_accepted [OF env(1,2) good(1,2)] by blast
  obtain e2 s2 where s2: "setup_private_host_hw_addr env (m_ifr mem) v0 s1 = Some (e2, s2)"
    using ioctls_ok [OF mem(2) env(3), where s = s1 and veth = v0] by blast
  obtain e3 s3 where s3: "lxc_bridge_attach env (m_ifr mem) (ascii ''br0'') v0 s2 = Some (e3, s3)"
    "asked s3 = asked s2 @ [AddToBridge (padded_name (ascii ''br0'') @ le_bytes 4 (unat (index v0)) @ drop 20 (m_ifr mem))]"
    using bridge_asked [OF env(1-3) mem(2) good(3), of s2 "ascii ''br0''"] indexedD [OF env(4), of s2 v0] by auto
  obtain s4 where s4: "lxc_netdev_up env v0 s3 = Some (0, s4)" "asked s4 = asked s3 @ [Message (up_message (index v0))]"
    using netdev_up_accepted [OF env(1,2) good(1), of "index v0" s3] indexedD [OF env(4), of _ v0] by blast
  have "init_network env mem s = Some (Some (v0, v1), s4)" using n(2) v0(1) v1(1) s1(1) s2 s3(1) s4(1) by (simp add: init_network_def)
  moreover have "asked s4 = asked s @ init_requests index mem (v0, v1)"
    using s1(2) private_hw_asked [OF s2] s3(2) s4(2) by (simp add: init_requests_def)
  ultimately show ?thesis using v0(2) v1(2) by auto
qed

lemma start_network_asks:
  assumes env: "good_net env" "kernel_accepts env" "indexed env index"
    and mem: "length (m_sockaddr mem) = 16" "length (m_ifr mem) = 40" "16 \<le> length (m_eth0 mem)"
  shows "\<exists>s'. start_network env mem s = Some (True, s') \<and> asked s' = asked s @ start_requests index"
proof -
  obtain d1 d2 d3 where d: "m_rand mem = (d1, d2, d3)" by (cases "m_rand mem") auto
  let ?i = "index (ascii ''eth0'')" and ?ip = "[192, 168, 0, 102] :: u8 list" and ?gw = "[192, 168, 0, 100] :: u8 list"
  have names: "\<not> bad_name (ascii ''lo'')" "\<not> bad_name (ascii ''eth0'')" by (simp_all add: bad_name_def IFNAMSIZ_def ascii_def)
  obtain s1 where s1: "lxc_ipv4_addr_add env ?i ?ip [192, 168, 100, 255] network_mask s = Some (0, s1)"
    "asked s1 = asked s @ [Message (addr_message ?i network_mask ?ip [192, 168, 100, 255])]"
    using addr_add_accepted [OF env(1,2), of ?ip "[192, 168, 100, 255]" ?i network_mask s] by auto
  obtain s2 where s2: "lxc_netdev_up env (ascii ''lo'') s1 = Some (0, s2)" "asked s2 = asked s1 @ [Message (up_message (index (ascii ''lo'')))]"
    using netdev_up_accepted [OF env(1,2) names(1)] indexedD [OF env(3)] by blast
  obtain s3 where s3: "lxc_netdev_up env (ascii ''eth0'') s2 = Some (0, s3)" "asked s3 = asked s2 @ [Message (up_message ?i)]"
    using netdev_up_accepted [OF env(1,2) names(2)] indexedD [OF env(3)] by blast
  obtain s4 where s4: "lxc_ipv4_gateway_add env ?i ?gw s3 = Some (0, s4)" "asked s4 = asked s3 @ [Message (gateway_message ?i ?gw)]"
    using gateway_add_accepted [OF env(1,2), of ?gw ?i s3] by auto
  obtain r s5 where s5: "setup_hw_addr env (m_ifr mem) (m_sockaddr mem) (new_hwaddr d1 d2 d3) (m_eth0 mem) s4 = Some (r, s5)"
    using setup_hw_addr_returns [OF mem(1) mem(3) mem(2)] by blast
  have "start_network env mem s = Some (True, s5)"
    using indexedD [OF env(3), of s "ascii ''eth0''"] s1(1) s2(1) s3(1) s4(1) s5 d by (simp add: start_network_def addresses)
  then show ?thesis
    using s1(2) s2(2) s3(2) s4(2) hw_asked [OF s5] by (simp add: start_requests_def network_mask_def Let_def)
qed

lemma move_by_name_asks:
  assumes "good_net env" "kernel_accepts env" "indexed env index"
  shows "\<exists>s'. lxc_netdev_move_by_name env (Some (snd v)) (word_of_int pid) (Some (ascii ''eth0'')) s = Some (0, s') \<and>
    asked s' = asked s @ [move_request_of index pid v]"
  using move_accepted [OF assms(1,2), of "ascii ''eth0''" "index (snd v)" "word_of_int pid" s] indexedD [OF assms(3), of s "snd v"]
  by (auto simp: lxc_netdev_move_by_name_def move_request_of_def ascii_def Let_def)

section \<open>The two processes\<close>

text \<open>An environment in which everything that can be asked for is granted.\<close>

definition grants :: "docker_env \<Rightarrow> (cstring \<Rightarrow> u32) \<Rightarrow> (cstring \<Rightarrow> u32) \<Rightarrow> bool" where
  "grants env index cindex \<longleftrightarrow>
     good_net (d_net env) \<and> kernel_accepts (d_net env) \<and> ifreq_ok (d_net env) \<and> indexed (d_net env) index \<and>
     good_net (d_cnet env) \<and> kernel_accepts (d_cnet env) \<and> indexed (d_cnet env) cindex \<and>
     names_free (d_mem env) \<and> length (m_ifr (d_mem env)) = 40 \<and> length (m_sockaddr (d_mem env)) = 16 \<and>
     16 \<le> length (m_eth0 (d_mem env)) \<and> (\<forall>p. d_opens env p) \<and> 0 \<le> d_pid env \<and> d_pid env < 10 ^ 9"

definition cgroup_files :: "int \<Rightarrow> files" where
  "cgroup_files pid = [(cgroup_file ''cgroup.procs'', dec pid), (cgroup_file ''cpu.cfs_period_us'', dec 100000),
     (cgroup_file ''cpu.cfs_quota_us'', dec 50000), (cgroup_file ''cpu.shares'', dec 512)]"

lemma write_cgroup_granted:
  "grants env index cindex \<Longrightarrow> write_cgroup (d_opens env) cfs_quota_us (d_pid env) fs = Some (fs @ cgroup_files (d_pid env))"
  using write_cgroup_returns [of "d_pid env" "d_opens env" cfs_quota_us fs]
  by (simp add: grants_def cgroup_files_def cfs_quota_us_def)

text \<open>What has been done when the parent has \<open>k\<close> calls behind it and the child \<open>j\<close>.\<close>

definition parent_done :: "docker_env \<Rightarrow> (cstring \<Rightarrow> u32) \<Rightarrow> nat \<Rightarrow> docker_world \<Rightarrow> bool" where
  "parent_done env index k w \<longleftrightarrow> k \<le> 7 \<and> w_parent w = drop k network_main \<and>
     w_files w = (if 4 \<le> k then cgroup_files (d_pid env) else []) \<and>
     (k \<le> 1 \<longrightarrow> asked (w_pnet w) = []) \<and>
     (2 \<le> k \<longrightarrow> (case w_veth w of None \<Rightarrow> False | Some v \<Rightarrow>
        from_template veth0buf (fst v) \<and> from_template veth1buf (snd v) \<and>
        asked (w_pnet w) = init_requests index (d_mem env) v @ (if 5 \<le> k then [move_request_of index (d_pid env) v] else [])))"

definition child_done :: "docker_env \<Rightarrow> (cstring \<Rightarrow> u32) \<Rightarrow> (cstring \<Rightarrow> u32) \<Rightarrow> nat \<Rightarrow> docker_world \<Rightarrow> bool" where
  "child_done env index cindex j w \<longleftrightarrow> j \<le> 8 \<and>
     w_child w = Some (if j \<le> 6 then drop j network_child else if j = 7 then [Command] else []) \<and>
     (case w_veth w of None \<Rightarrow> False | Some v \<Rightarrow>
        asked (w_cnet w) = init_requests index (d_mem env) v @ (if 5 \<le> j then start_requests cindex else []))"

definition run_inv :: "docker_env \<Rightarrow> (cstring \<Rightarrow> u32) \<Rightarrow> (cstring \<Rightarrow> u32) \<Rightarrow> docker_world \<Rightarrow> bool" where
  "run_inv env index cindex w \<longleftrightarrow>
     (w_child w = None \<and> (w_parent w = [] \<or> (\<exists>k \<le> 2. parent_done env index k w))) \<or>
     (\<exists>k j. 3 \<le> k \<and> parent_done env index k w \<and> child_done env index cindex j w)"

lemma run_inv_start: "run_inv env index cindex (docker_start network_main)"
proof -
  have "parent_done env index 0 (docker_start network_main)" by (simp add: parent_done_def docker_start_def)
  then show ?thesis by (auto simp: run_inv_def docker_start_def)
qed

lemma parent_done_parent:
  "parent_done env index k w \<Longrightarrow> w_parent w = drop k network_main"
  by (simp add: parent_done_def)

text \<open>Before \<open>clone\<close>.\<close>

lemma run_before_clone:
  assumes g: "grants env index cindex" and p: "parent_done env index k w" "k \<le> 2" and c: "w_child w = None"
    and st: "parent_step env network_child w = Some w'"
  shows "run_inv env index cindex w'"
proof -
  consider "k = 0" | "k = 1" | "k = 2" using p(2) by arith
  then show ?thesis
  proof cases
    case 1
    then have "w_parent w = PipeCall # drop 1 network_main" using parent_done_parent [OF p(1)] network_main_drop(1) by metis
    from st [unfolded parent_calls(1) [OF this]]
    have "w_child w' = None \<and> (w_parent w' = [] \<or> parent_done env index 1 w')"
      using p(1) 1 c by (auto simp: parent_done_def)
    then show ?thesis unfolding run_inv_def by fastforce
  next
    case 2
    then have pr: "w_parent w = InitNetwork # drop 2 network_main" using parent_done_parent [OF p(1)] network_main_drop(2) by metis
    obtain v s where i: "init_network (d_net env) (d_mem env) (w_pnet w) = Some (Some v, s)"
      "asked s = asked (w_pnet w) @ init_requests index (d_mem env) v"
      "from_template veth0buf (fst v)" "from_template veth1buf (snd v)"
      using init_network_asks [of "d_net env" index "d_mem env" "w_pnet w"] g by (auto simp: grants_def)
    then have "parent_done env index 2 w'"
      using st [unfolded parent_calls(2) [OF pr]] p(1) 2 by (auto simp: parent_done_def)
    moreover have "w_child w' = None" using st [unfolded parent_calls(2) [OF pr]] i c by auto
    ultimately show ?thesis unfolding run_inv_def by blast
  next
    case 3
    then have pr: "w_parent w = CloneCall # drop 3 network_main" using parent_done_parent [OF p(1)] network_main_drop(3) by metis
    have w': "w' = w\<lparr>w_parent := drop 3 network_main, w_log := w_log w @ [(True, CloneCall)], w_child := Some network_child,
        w_cwr := w_pwr w, w_cnet := w_pnet w\<rparr>"
      using st [unfolded parent_calls(3) [OF pr]] g by (auto simp: grants_def)
    have "parent_done env index 3 w'" "child_done env index cindex 0 w'"
      using p(1) 3 unfolding w' parent_done_def child_done_def by (auto split: option.splits)
    then show ?thesis unfolding run_inv_def by fastforce
  qed
qed

text \<open>After it, the parent.\<close>

lemma run_after_clone:
  assumes g: "grants env index cindex" and p: "parent_done env index k w" "3 \<le> k"
    and st: "parent_step env network_child w = Some w'"
  shows "parent_done env index (Suc k) w' \<and> w_child w' = w_child w \<and> w_veth w' = w_veth w \<and> w_cnet w' = w_cnet w"
proof -
  have "k \<le> 7" using p(1) by (simp add: parent_done_def)
  then consider "k = 3" | "k = 4" | "k = 5" | "k = 6" | "k = 7" using p(2) by arith
  then show ?thesis
  proof cases
    case 1
    then have pr: "w_parent w = WriteCgroup cfs_quota_us # drop 4 network_main"
      using parent_done_parent [OF p(1)] network_main_drop(4) by metis
    show ?thesis
      using st [unfolded parent_calls(4) [OF pr]] p(1) 1 write_cgroup_granted [OF g, of "w_files w"]
      by (auto simp: parent_done_def cong: option.case_cong)
  next
    case 2
    then have pr: "w_parent w = MoveVeth # drop 5 network_main" using parent_done_parent [OF p(1)] network_main_drop(5) by metis
    obtain v where v: "w_veth w = Some v" using p(1) 2 by (auto simp: parent_done_def split: option.splits)
    obtain s where s: "lxc_netdev_move_by_name (d_net env) (Some (snd v)) (word_of_int (d_pid env)) (Some (ascii ''eth0'')) (w_pnet w) =
        Some (0, s)" "asked s = asked (w_pnet w) @ [move_request_of index (d_pid env) v]"
      using move_by_name_asks [of "d_net env" index v "d_pid env" "w_pnet w"] g by (auto simp: grants_def)
    have "w' = w\<lparr>w_parent := drop 5 network_main, w_log := w_log w @ [(True, MoveVeth)], w_pnet := s\<rparr>"
      using st [unfolded parent_calls(5) [OF pr]] v s(1) by (simp add: case_prod_beta)
    then show ?thesis using p(1) 2 v s(2) by (auto simp: parent_done_def)
  next
    case 3
    then have pr: "w_parent w = CloseWrite # drop 6 network_main" using parent_done_parent [OF p(1)] network_main_drop(6) by metis
    show ?thesis using st [unfolded parent_calls(6) [OF pr]] p(1) 3 by (auto simp: parent_done_def cong: option.case_cong)
  next
    case 4
    then have pr: "w_parent w = WaitPid # drop 7 network_main" using parent_done_parent [OF p(1)] network_main_drop(7) by metis
    show ?thesis using st [unfolded parent_calls(7) [OF pr]] p(1) 4 by (auto simp: parent_done_def split: if_splits cong: option.case_cong)
  next
    case 5
    then have "w_parent w = []" using parent_done_parent [OF p(1)] network_main_drop(8) by metis
    then show ?thesis using st parent_calls(8) by simp
  qed
qed

text \<open>The child.\<close>

lemma child_done_child:
  "child_done env index cindex j w \<Longrightarrow> w_child w = Some (if j \<le> 6 then drop j network_child else if j = 7 then [Command] else [])"
  by (simp add: child_done_def)

lemma run_child:
  assumes g: "grants env index cindex" and c: "child_done env index cindex j w" and st: "child_step env w = Some w'"
  shows "(\<exists>j'. child_done env index cindex j' w' \<and> (j \<le> 4 \<longrightarrow> j' = Suc j)) \<and> w_parent w' = w_parent w \<and> w_files w' = w_files w \<and> w_veth w' = w_veth w \<and>
    w_pnet w' = w_pnet w"
proof -
  note ch = child_done_child [OF c]
  obtain v where v: "w_veth w = Some v"
    "asked (w_cnet w) = init_requests index (d_mem env) v @ (if 5 \<le> j then start_requests cindex else [])"
    using c by (auto simp: child_done_def split: option.splits)
  have step: ?thesis if "child_done env index cindex j' w'" "j \<le> 4 \<longrightarrow> j' = Suc j" "w_parent w' = w_parent w" "w_files w' = w_files w"
    "w_veth w' = w_veth w" "w_pnet w' = w_pnet w" for j'
    using that by blast
  have "j \<le> 8" using c by (simp add: child_done_def)
  then consider "j = 0" | "j = 1" | "j = 2" | "j = 3" | "j = 4" | "j = 5" | "j = 6" | "j = 7" | "j = 8" by arith
  then show ?thesis
  proof cases
    case 1
    then have pr: "w_child w = Some (CloseWrite # drop 1 network_child)" using ch network_child_drop(1) by simp
    show ?thesis using st [unfolded child_calls(1) [OF pr]] v 1 by (intro step [of 1]) (auto simp: child_done_def)
  next
    case 2
    then have pr: "w_child w = Some (SetRoot # drop 2 network_child)" using ch network_child_drop(2) by simp
    show ?thesis using st [unfolded child_calls(2) [OF pr]] v 2 by (intro step [of 2]) (auto simp: child_done_def)
  next
    case 3
    then have pr: "w_child w = Some (ReadPipe # drop 3 network_child)" using ch network_child_drop(3) by simp
    show ?thesis using st [unfolded child_calls(3) [OF pr]] v 3
      by (intro step [of 3]) (auto simp: child_done_def split: if_splits)
  next
    case 4
    then have pr: "w_child w = Some (SetMount # drop 4 network_child)" using ch network_child_drop(4) by simp
    show ?thesis using st [unfolded child_calls(4) [OF pr]] v 4 by (intro step [of 4]) (auto simp: child_done_def)
  next
    case 5
    then have pr: "w_child w = Some (StartNetwork # drop 5 network_child)" using ch network_child_drop(5) by simp
    obtain s where "start_network (d_cnet env) (d_mem env) (w_cnet w) = Some (True, s)" "asked s = asked (w_cnet w) @ start_requests cindex"
      using start_network_asks [of "d_cnet env" cindex "d_mem env" "w_cnet w"] g by (auto simp: grants_def)
    then show ?thesis using st [unfolded child_calls(5) [OF pr]] v 5 by (intro step [of 5]) (auto simp: child_done_def)
  next
    case 6
    then have pr: "w_child w = Some (StartCmd # drop 6 network_child)" using ch network_child_drop(6) by simp
    show ?thesis
    proof (cases "d_exec env")
      case True
      then show ?thesis using st [unfolded child_calls(6) [OF pr]] v 6 by (intro step [of 7]) (auto simp: child_done_def)
    next
      case False
      then show ?thesis using st [unfolded child_calls(6) [OF pr]] v 6 by (intro step [of 6]) (auto simp: child_done_def)
    qed
  next
    case 7
    then have "w_child w = Some []" using ch network_child_drop(7) by simp
    then show ?thesis using st child_calls(9) by simp
  next
    case 8
    then have pr: "w_child w = Some [Command]" using ch by simp
    show ?thesis using st [unfolded child_calls(7) [OF pr]] v 8 by (intro step [of 8]) (auto simp: child_done_def)
  next
    case 9
    then have "w_child w = Some []" using ch by simp
    then show ?thesis using st child_calls(9) by simp
  qed
qed

lemma run_inv_step:
  assumes g: "grants env index cindex" and i: "run_inv env index cindex w" and st: "docker_step env network_child w w'"
  shows "run_inv env index cindex w'"
  using i unfolding run_inv_def [of _ _ _ w]
proof (elim disjE conjE exE)
  assume "w_child w = None" "w_parent w = []"
  then show ?thesis using st child_calls(8) parent_calls(8) by (simp add: docker_step_def)
next
  fix k assume "w_child w = None" "k \<le> 2" "parent_done env index k w"
  then show ?thesis using st child_calls(8) run_before_clone [OF g, of k w w'] by (simp add: docker_step_def)
next
  fix k j assume k: "3 \<le> k" "parent_done env index k w" and j: "child_done env index cindex j w"
  from st show ?thesis unfolding docker_step_def
  proof
    assume "parent_step env network_child w = Some w'"
    then have "parent_done env index (Suc k) w'" "child_done env index cindex j w'"
      using run_after_clone [OF g k(2,1)] j by (auto simp: child_done_def split: option.splits)
    then show ?thesis using k(1) unfolding run_inv_def by (meson le_SucI)
  next
    assume "child_step env w = Some w'"
    from run_child [OF g j this] obtain j' where j': "child_done env index cindex j' w'"
      and same: "w_parent w' = w_parent w" "w_files w' = w_files w" "w_veth w' = w_veth w" "w_pnet w' = w_pnet w" by blast
    have "parent_done env index k w'" using k(2) by (simp add: parent_done_def same cong: option.case_cong)
    with j' show ?thesis using k(1) unfolding run_inv_def by blast
  qed
qed

lemma run_invariant:
  assumes "grants env index cindex" and "(docker_step env network_child)\<^sup>*\<^sup>* (docker_start network_main) w"
  shows "run_inv env index cindex w"
proof -
  have "inv_system (docker_start network_main) (docker_step env network_child) (run_inv env index cindex)"
    by unfold_locales (fact run_inv_start, rule run_inv_step [OF assms(1)])
  then show ?thesis using assms(2) by (rule inv_system.reach_inv)
qed

section \<open>When the command runs\<close>

lemma length_network_main: "length network_main = 7"
  by (simp add: network_main_def)

lemma drop_not_command: "drop i network_child \<noteq> [Command]"
proof
  assume "drop i network_child = [Command]"
  then have "Command \<in> set (drop i network_child)" by simp
  then have "Command \<in> set network_child" using in_set_dropD by fast
  then show False by (simp add: network_child_def)
qed

text \<open>The child's place, as far as the command tells.\<close>

lemma command_place:
  assumes "w_child w = Some [Command]"
  shows "child_done env index cindex j w \<Longrightarrow> j = 7" and "child_at j w \<Longrightarrow> j = 7"
  using assms drop_not_command by (auto simp: child_done_def child_at_def split: if_splits)

text \<open>
  All of \<open>step_network\<close> in one statement.  If the kernel grants what it is asked for, then in every
  interleaving, when the container's command runs, the four control group files are written with the
  child's number; the parent has asked for exactly the pair of interfaces, the first under the bridge and
  up, and the second moved to the child's namespace as \<open>eth0\<close>, in this order; and the container has
  asked, with the indices of its own namespace, for the address, \<open>lo\<close> and \<open>eth0\<close> up and the gateway.
\<close>

theorem command_runs_configured:
  assumes "grants env index cindex" and "(docker_step env network_child)\<^sup>*\<^sup>* (docker_start network_main) w"
    and "w_child w = Some [Command]"
  shows "\<exists>v. w_veth w = Some v \<and> from_template veth0buf (fst v) \<and> from_template veth1buf (snd v) \<and>
    w_files w = cgroup_files (d_pid env) \<and>
    asked (w_pnet w) = init_requests index (d_mem env) v @ [move_request_of index (d_pid env) v] \<and>
    asked (w_cnet w) = init_requests index (d_mem env) v @ start_requests cindex"
proof -
  obtain k j where k: "parent_done env index k w" and j: "child_done env index cindex j w"
    using run_invariant [OF assms(1,2)] assms(3) by (auto simp: run_inv_def)
  have "docker_inv w" by (rule network.reach_inv [OF assms(2)])
  then obtain k' j' where k': "parent_at k' w" "child_at j' w" "3 \<le> j' \<longrightarrow> 6 \<le> k'"
    using assms(3) by (auto simp: docker_inv_def)
  have "6 \<le> k'" using k'(3) command_place(2) [OF assms(3) k'(2)] by simp
  moreover have "drop k network_main = drop k' network_main" "k \<le> 7" "k' \<le> 7"
    using k k'(1) by (auto simp: parent_done_def parent_at_def)
  then have "k = k'" by (metis length_drop length_network_main diff_diff_cancel)
  ultimately have "6 \<le> k" by simp
  then show ?thesis
    using k j command_place(1) [OF assms(3) j] by (auto simp: parent_done_def child_done_def split: option.splits)
qed

text \<open>The sample environment grants everything; there is a run up to the command.\<close>

lemma sample_grants: "grants sample_docker (\<lambda>_. 7) (\<lambda>_. 7)"
  using sample_good_net sample_accepts sample_ifreq_ok sample_names_free sample_surroundings_sizes
  by (simp add: grants_def sample_docker_def indexed_def) (simp add: sample_net_env_def)

lemma child_runs_on:
  assumes g: "grants env index cindex" and c: "child_done env index cindex j w" "3 \<le> j" "j \<le> 5" and x: "d_exec env"
  shows "\<exists>w'. (docker_step env network_child)\<^sup>*\<^sup>* w w' \<and> w_child w' = Some [Command]"
  using c
proof (induction "5 - j" arbitrary: j w)
  case 0
  then have "w_child w = Some (StartCmd # drop 6 network_child)" using child_done_child [OF 0(2)] network_child_drop(6) by simp
  from child_calls(6) [OF this] x have "child_step env w = Some (w\<lparr>w_child := Some [Command], w_log := w_log w @ [(False, StartCmd)]\<rparr>)"
    by simp
  then show ?case by (intro exI conjI, intro r_into_rtranclp) (auto simp: docker_step_def)
next
  case (Suc n)
  then have "j = 3 \<or> j = 4" by arith
  then have "\<exists>w1. child_step env w = Some w1"
  proof
    assume "j = 3"
    then have "w_child w = Some (SetMount # drop 4 network_child)" using child_done_child [OF Suc(3)] network_child_drop(4) by simp
    from child_calls(4) [OF this] show ?thesis using \<open>j = 3\<close> by simp
  next
    assume "j = 4"
    then have "w_child w = Some (StartNetwork # drop 5 network_child)" using child_done_child [OF Suc(3)] network_child_drop(5) by simp
    from child_calls(5) [OF this] show ?thesis
      using \<open>j = 4\<close> start_network_asks [of "d_cnet env" cindex "d_mem env" "w_cnet w"] g by (auto simp: grants_def)
  qed
  then obtain w1 where w1: "child_step env w = Some w1" by blast
  then have "child_done env index cindex (Suc j) w1" using run_child [OF g Suc(3) w1] \<open>j = 3 \<or> j = 4\<close> by auto
  moreover have "n = 5 - Suc j" "3 \<le> Suc j" "Suc j \<le> 5" using Suc(2) \<open>j = 3 \<or> j = 4\<close> by auto
  ultimately obtain w' where "(docker_step env network_child)\<^sup>*\<^sup>* w1 w'" "w_child w' = Some [Command]"
    using Suc(1) [of "Suc j" w1] by blast
  moreover have "docker_step env network_child w w1" using w1 by (simp add: docker_step_def)
  ultimately show ?case by (meson converse_rtranclp_into_rtranclp)
qed

lemma sample_command_runs:
  "\<exists>w. (docker_step sample_docker network_child)\<^sup>*\<^sup>* (docker_start network_main) w \<and> w_child w = Some [Command]"
proof -
  obtain w where w: "(docker_step sample_docker network_child)\<^sup>*\<^sup>* (docker_start network_main) w"
    "w_child w = Some (drop 3 network_child)"
    using sample_reaches_read by blast
  have "drop 3 network_child = SetMount # drop 4 network_child" by (rule network_child_drop)
  then obtain k j where j: "child_done sample_docker (\<lambda>_. 7) (\<lambda>_. 7) j w"
    using run_invariant [OF sample_grants w(1)] w(2) by (auto simp: run_inv_def)
  have "j = 3"
  proof -
    have "drop 3 network_child = (if j \<le> 6 then drop j network_child else if j = 7 then [Command] else [])"
      using w(2) child_done_child [OF j] by simp
    moreover have len: "length network_child = 6" "drop 3 network_child \<noteq> [Command]" by (simp_all add: network_child_def)
    moreover have "j = 3" if "drop 3 network_child = drop j network_child" "j \<le> 6"
      using arg_cong [OF that(1), of length] that(2) len(1) by simp
    ultimately show ?thesis by (auto split: if_splits)
  qed
  moreover have "d_exec sample_docker" by (simp add: sample_docker_def)
  ultimately obtain w' where w': "(docker_step sample_docker network_child)\<^sup>*\<^sup>* w w'" "w_child w' = Some [Command]"
    using child_runs_on [OF sample_grants j] by auto
  then show ?thesis using w(1) by (meson rtranclp_trans)
qed

lemma command_runs_configured_witness:
  "\<exists>w v. (docker_step sample_docker network_child)\<^sup>*\<^sup>* (docker_start network_main) w \<and> w_child w = Some [Command] \<and>
     w_files w = cgroup_files 4242 \<and> asked (w_cnet w) = init_requests (\<lambda>_. 7) sample_surroundings v @ start_requests (\<lambda>_. 7)"
proof -
  obtain w where w: "(docker_step sample_docker network_child)\<^sup>*\<^sup>* (docker_start network_main) w"
    "w_child w = Some [Command]" using sample_command_runs by blast
  from command_runs_configured [OF sample_grants w] w show ?thesis by (auto simp: sample_docker_def)
qed

end
