(* ===== verification/RequestMeaning.thy ===== *)
theory RequestMeaning
  imports NetworkRun
begin

unbundle bit_operations_syntax

text \<open>
  What the requests of \<open>toy_docker/step_network\<close> mean to the kernel that receives them.  The receiver is the
  documented format of \<open>rtnetlink\<close> read from the bytes alone: the header, the structure behind it and the
  attributes, walked with the macros of \<open>nl.h\<close>.  The changes it reads are an abstract description of
  what the program configures.
\<close>

section \<open>The receiver\<close>

datatype net_change =
    CreatePair cstring cstring               \<comment> \<open>two connected interfaces\<close>
  | AttachToBridge cstring nat               \<comment> \<open>the bridge's name, the interface's index\<close>
  | LinkUp nat | LinkDown nat
  | MoveToNamespace nat nat "cstring option" \<comment> \<open>index, process, new name\<close>
  | AddAddress nat nat "u8 list" "u8 list"   \<comment> \<open>index, prefix, address, broadcast address\<close>
  | AddGateway nat "u8 list"

definition field_at :: "nat \<Rightarrow> nat \<Rightarrow> u8 list \<Rightarrow> nat" where
  "field_at off k b = le_nat (take k (drop off b))"

definition c_string :: "u8 list \<Rightarrow> cstring" where
  "c_string b = takeWhile (\<lambda>c. c \<noteq> 0) b"

definition attr_of :: "u8 list \<Rightarrow> nat \<Rightarrow> u8 list option" where
  "attr_of b ty = map_of (parse_attrs b) ty"

definition read_new_link :: "u8 list \<Rightarrow> net_change option" where
  "read_new_link body = do {
     info \<leftarrow> attr_of (drop 16 body) IFLA_LINKINFO;
     kind \<leftarrow> attr_of info IFLA_INFO_KIND;
     if c_string kind \<noteq> ascii ''veth'' then None
     else do {
       data \<leftarrow> attr_of info IFLA_INFO_DATA;
       peer \<leftarrow> attr_of data VETH_INFO_PEER;
       name1 \<leftarrow> attr_of (drop 16 body) IFLA_IFNAME;
       name2 \<leftarrow> attr_of (drop 16 peer) IFLA_IFNAME;
       Some (CreatePair (c_string name1) (c_string name2))
     }
   }"

definition read_link :: "u8 list \<Rightarrow> net_change option" where
  "read_link body =
     (let index = field_at 4 4 body in
      case attr_of (drop 16 body) IFLA_NET_NS_PID of
        Some pid \<Rightarrow> Some (MoveToNamespace index (le_nat pid) (map_option c_string (attr_of (drop 16 body) IFLA_IFNAME)))
      | None \<Rightarrow>
          if odd (field_at 12 4 body) then Some (if odd (field_at 8 4 body) then LinkUp index else LinkDown index)
          else None)"

definition read_address :: "u8 list \<Rightarrow> net_change option" where
  "read_address body =
     (if field_at 0 1 body \<noteq> AF_INET then None
      else do {
        local \<leftarrow> attr_of (drop 8 body) IFA_LOCAL;
        bcast \<leftarrow> attr_of (drop 8 body) IFA_BROADCAST;
        Some (AddAddress (field_at 4 4 body) (field_at 1 1 body) local bcast)
      })"

text \<open>A route to everything (the length of the destination is 0) by a gateway.\<close>

definition read_route :: "u8 list \<Rightarrow> net_change option" where
  "read_route body =
     (if field_at 0 1 body \<noteq> AF_INET \<or> field_at 1 1 body \<noteq> 0 then None
      else do {
        gw \<leftarrow> attr_of (drop 12 body) RTA_GATEWAY;
        oif \<leftarrow> attr_of (drop 12 body) RTA_OIF;
        Some (AddGateway (le_nat oif) gw)
      })"

fun read_request :: "request \<Rightarrow> net_change option" where
  "read_request (Message bytes) =
     (let ty = field_at 4 2 bytes; fl = field_at 6 2 bytes; body = drop 16 (take (field_at 0 4 bytes) bytes)
      in if ty = RTM_NEWLINK then (if fl AND NLM_F_CREATE \<noteq> 0 then read_new_link body else read_link body)
         else if ty = RTM_NEWADDR then read_address body
         else if ty = RTM_NEWROUTE then read_route body
         else None)"
| "read_request (AddToBridge ifr) = Some (AttachToBridge (c_string (take 16 ifr)) (field_at 16 4 ifr))"

section \<open>Reading back\<close>

lemma c_string_0: "0 \<notin> set s \<Longrightarrow> c_string (s @ 0 # rest) = s"
  unfolding c_string_def by (subst takeWhile_append2) auto

lemma attr_of_encode: "list_all attr_ok as \<Longrightarrow> attr_of (encode_attrs as) ty = map_of as ty"
  by (simp add: attr_of_def parse_encode)

lemma field_at_append: "off = length p \<Longrightarrow> field_at off k (p @ le_bytes k v @ q) = v mod 256 ^ k"
  by (simp add: field_at_def)

lemma read_message:
  assumes "ty < 2 ^ 16" and "fl < 2 ^ 16" and "16 + length body < 2 ^ 32"
  shows "read_request (Message (nl_header (16 + length body) ty fl @ body)) =
     (if ty = RTM_NEWLINK then (if fl AND NLM_F_CREATE \<noteq> 0 then read_new_link body else read_link body)
      else if ty = RTM_NEWADDR then read_address body
      else if ty = RTM_NEWROUTE then read_route body else None)"
proof -
  let ?b = "nl_header (16 + length body) ty fl @ body"
  have "field_at 0 4 ?b = (16 + length body) mod 256 ^ 4"
    unfolding nl_header_def by (simp add: field_at_def)
  moreover have "field_at 4 2 ?b = ty mod 256 ^ 2"
    unfolding nl_header_def append_assoc by (rule field_at_append) simp
  moreover have "field_at 6 2 ?b = fl mod 256 ^ 2"
    unfolding nl_header_def by (simp add: field_at_def)
  ultimately show ?thesis using assms by (simp add: Let_def)
qed

lemmas flag_values = NLM_F_REQUEST_def NLM_F_ACK_def NLM_F_EXCL_def NLM_F_CREATE_def RTM_NEWLINK_def RTM_NEWADDR_def
  RTM_NEWROUTE_def

lemmas attr_values = IFLA_IFNAME_def IFLA_LINKINFO_def IFLA_NET_NS_PID_def IFLA_INFO_KIND_def IFLA_INFO_DATA_def
  VETH_INFO_PEER_def IFA_ADDRESS_def IFA_LOCAL_def IFA_BROADCAST_def RTA_DST_def RTA_OIF_def RTA_GATEWAY_def

lemma create_flag: "veth_flags AND NLM_F_CREATE \<noteq> 0" "create_flags AND NLM_F_CREATE \<noteq> 0"
  "(NLM_F_REQUEST OR NLM_F_ACK) AND NLM_F_CREATE = 0" "veth_flags < 2 ^ 16" "create_flags < 2 ^ 16"
  "NLM_F_REQUEST OR NLM_F_ACK < 2 ^ 16"
  by (simp_all add: veth_flags_def create_flags_def flag_values)

lemma length_encode_attrs_le:
  "list_all attr_ok as \<Longrightarrow> length (encode_attrs as) \<le> sum_list (map (\<lambda>(ty, d). length d + 7) as)"
proof (induction as)
  case (Cons a as)
  obtain t d where a: "a = (t, d)" by (cases a)
  then have "length d + 3 < 2 ^ 32" using Cons.prems by (simp add: attr_ok_def)
  then show ?case using Cons a align4_bounds [of "length d"] by (simp add: encode_attrs_Cons length_encode_attr)
qed (simp add: encode_attrs_def)

lemma u32_less: "unat (i :: u32) < 4294967296"
  using unsigned_less [of i] by simp

lemma read_veth:
  assumes "0 \<notin> set name1" and "0 \<notin> set name2" and "length name1 < 16" and "length name2 < 16"
  shows "read_request (Message (veth_message name1 name2)) = Some (CreatePair name1 name2)"
proof -
  define peer where "peer = [(IFLA_IFNAME, name2 @ [0])]"
  define data where "data = [(VETH_INFO_PEER, ifinfomsg 0 0 0 @ encode_attrs peer)]"
  define info where "info = [(IFLA_INFO_KIND, ascii ''veth'' @ [0]), (IFLA_INFO_DATA, encode_attrs data)]"
  define as where "as = [(IFLA_LINKINFO, encode_attrs info), (IFLA_IFNAME, name1 @ [0])]"
  have body: "veth_body name1 name2 = ifinfomsg 0 0 0 @ encode_attrs as"
    by (simp add: veth_body_def peer_def data_def info_def as_def)
  have ok: "list_all attr_ok peer" using assms(4) by (simp add: peer_def attr_ok_def IFLA_IFNAME_def)
  have l: "length (encode_attrs peer) \<le> 23" using length_encode_attrs_le [OF ok] assms(4) by (simp add: peer_def)
  then have ok2: "list_all attr_ok data" by (simp add: data_def attr_ok_def VETH_INFO_PEER_def)
  have l2: "length (encode_attrs data) \<le> 46" using length_encode_attrs_le [OF ok2] l by (simp add: data_def)
  then have ok3: "list_all attr_ok info" by (simp add: info_def attr_ok_def IFLA_INFO_KIND_def IFLA_INFO_DATA_def ascii_def)
  have l3: "length (encode_attrs info) \<le> 65" using length_encode_attrs_le [OF ok3] l2 by (simp add: info_def ascii_def)
  then have ok4: "list_all attr_ok as" using assms(3)
    by (simp add: as_def attr_ok_def IFLA_LINKINFO_def IFLA_IFNAME_def)
  have l4: "length (encode_attrs as) \<le> 95" using length_encode_attrs_le [OF ok4] l3 assms(3) by (simp add: as_def)
  have s: "c_string (ascii ''veth'' @ [0]) = ascii ''veth''" "c_string (name1 @ [0]) = name1" "c_string (name2 @ [0]) = name2"
    using assms(1,2) by (simp_all add: c_string_0 ascii_def) (simp add: c_string_def)
  have p: "attr_of (encode_attrs peer) IFLA_IFNAME = Some (name2 @ [0])"
    and d: "attr_of (encode_attrs data) VETH_INFO_PEER = Some (ifinfomsg 0 0 0 @ encode_attrs peer)"
    and i: "attr_of (encode_attrs info) IFLA_INFO_KIND = Some (ascii ''veth'' @ [0])"
      "attr_of (encode_attrs info) IFLA_INFO_DATA = Some (encode_attrs data)"
    and a: "attr_of (encode_attrs as) IFLA_LINKINFO = Some (encode_attrs info)"
      "attr_of (encode_attrs as) IFLA_IFNAME = Some (name1 @ [0])"
    using ok ok2 ok3 ok4 by (simp_all add: attr_of_encode peer_def data_def info_def as_def attr_values)
  have "read_new_link (veth_body name1 name2) = Some (CreatePair name1 name2)"
    unfolding read_new_link_def body by (simp add: a i d p s)
  moreover have "RTM_NEWLINK < 2 ^ 16" "16 + length (veth_body name1 name2) < 2 ^ 32"
    using l4 by (simp_all add: RTM_NEWLINK_def body)
  ultimately show ?thesis unfolding veth_message_def
    using read_message [of RTM_NEWLINK veth_flags] create_flag by simp
qed

lemma read_up: "read_request (Message (up_message i)) = Some (LinkUp (unat i))"
proof -
  let ?b = "ifinfomsg (unat i) (unat IFF_UP) 1"
  have "read_link ?b = Some (LinkUp (unat i))"
  proof -
    have "field_at 4 4 ?b = unat i" "field_at 8 4 ?b = 1" "field_at 12 4 ?b = 1"
      using u32_less [of i] by (simp_all add: ifinfomsg_def field_at_def IFF_UP_def)
    moreover have "attr_of (drop 16 ?b) ty = None" for ty by (simp add: attr_of_def parse_attrs.simps)
    ultimately show ?thesis by (simp add: read_link_def)
  qed
  then show ?thesis unfolding up_message_def
    using read_message [of RTM_NEWLINK "NLM_F_REQUEST OR NLM_F_ACK" ?b] create_flag by (simp add: RTM_NEWLINK_def)
qed

lemma read_move:
  assumes "0 \<notin> set name" and "length name < 1000"
  shows "read_request (Message (move_message_of i pid (Some name))) = Some (MoveToNamespace (unat i) (unat pid) (Some name))"
proof -
  let ?as = "[(IFLA_NET_NS_PID, le_bytes 4 (unat pid)), (IFLA_IFNAME, name @ [0])]"
  have body: "move_body i pid (Some name) = ifinfomsg (unat i) 0 0 @ encode_attrs ?as" by (simp add: move_body_def)
  have ok: "list_all attr_ok ?as" using assms(2) by (simp add: attr_ok_def attr_values)
  have a: "attr_of (encode_attrs ?as) IFLA_NET_NS_PID = Some (le_bytes 4 (unat pid))"
    "attr_of (encode_attrs ?as) IFLA_IFNAME = Some (name @ [0])"
    unfolding attr_of_encode [OF ok] by (simp_all add: attr_values)
  have "field_at 4 4 (move_body i pid (Some name)) = unat i"
    using u32_less [of i] by (simp add: body ifinfomsg_def field_at_def)
  then have "read_link (move_body i pid (Some name)) = Some (MoveToNamespace (unat i) (unat pid) (Some name))"
    using a assms(1) u32_less [of pid] by (simp add: read_link_def body c_string_0 Let_def)
  moreover have "16 + length (move_body i pid (Some name)) < 2 ^ 32"
    using length_encode_attrs_le [OF ok] assms(2) by (simp add: body)
  ultimately show ?thesis unfolding move_message_of_def
    using read_message [of RTM_NEWLINK "NLM_F_REQUEST OR NLM_F_ACK" "move_body i pid (Some name)"] create_flag
    by (simp add: RTM_NEWLINK_def)
qed

lemma read_addr:
  assumes "length a = 4" and "length b = 4" and "n < 256"
  shows "read_request (Message (addr_message i n a b)) = Some (AddAddress (unat i) n a b)"
proof -
  let ?as = "[(IFA_LOCAL, a), (IFA_ADDRESS, a), (IFA_BROADCAST, b)]"
  have body: "addr_body (unat i) n a b = ifaddrmsg AF_INET n (unat i) @ encode_attrs ?as" using assms(1,2) by (simp add: addr_body_def)
  have ok: "list_all attr_ok ?as" using assms(1,2) by (simp add: attr_ok_def attr_values)
  have f: "field_at 0 1 (addr_body (unat i) n a b) = AF_INET" "field_at 1 1 (addr_body (unat i) n a b) = n"
    "field_at 4 4 (addr_body (unat i) n a b) = unat i"
    using u32_less [of i] assms(3) by (simp_all add: body ifaddrmsg_def field_at_def AF_INET_def unat_of_nat)
  have "read_address (addr_body (unat i) n a b) = Some (AddAddress (unat i) n a b)"
    unfolding read_address_def f by (simp add: body attr_of_encode [OF ok]) (simp add: attr_values)
  moreover have "16 + length (addr_body (unat i) n a b) < 2 ^ 32"
    using length_encode_attrs_le [OF ok] assms(1,2) by (simp add: body)
  ultimately show ?thesis unfolding addr_message_def
    using read_message [of RTM_NEWADDR create_flags "addr_body (unat i) n a b"] create_flag
    by (simp add: RTM_NEWADDR_def RTM_NEWLINK_def)
qed

lemma read_gateway:
  assumes "length gw = 4"
  shows "read_request (Message (gateway_message i gw)) = Some (AddGateway (unat i) gw)"
proof -
  let ?as = "[(RTA_GATEWAY, gw), (RTA_OIF, le_bytes 4 (unat i))]" and ?b = "gateway_body (unat i) gw"
  have body: "?b = rtmsg AF_INET 0 RT_SCOPE_UNIVERSE @ encode_attrs ?as" using assms by (simp add: gateway_body_def)
  have ok: "list_all attr_ok ?as" using assms by (simp add: attr_ok_def attr_values)
  have f: "field_at 0 1 ?b = AF_INET" "field_at 1 1 ?b = 0"
    by (simp_all add: body rtmsg_def field_at_def AF_INET_def)
  have "read_route ?b = Some (AddGateway (unat i) gw)"
    unfolding read_route_def f using u32_less [of i] by (simp add: body attr_of_encode [OF ok]) (simp add: attr_values)
  moreover have "16 + length ?b < 2 ^ 32" using length_encode_attrs_le [OF ok] assms by (simp add: body)
  ultimately show ?thesis unfolding gateway_message_def
    using read_message [of RTM_NEWROUTE create_flags ?b] create_flag
    by (simp add: RTM_NEWADDR_def RTM_NEWLINK_def RTM_NEWROUTE_def)
qed

lemma read_bridge:
  assumes "0 \<notin> set name" and "length name \<le> 15"
  shows "read_request (AddToBridge (padded_name name @ le_bytes 4 (unat (i :: u32)) @ rest)) = Some (AttachToBridge name (unat i))"
proof -
  have "length (padded_name name) = 16" by (simp add: padded_name_def)
  moreover have "padded_name name = name @ 0 # replicate (15 - length name) 0"
    using assms(2) by (simp add: padded_name_def Suc_diff_le flip: replicate_Suc)
  then have "c_string (padded_name name) = name" using assms(1) c_string_0 by simp
  moreover have "unat i < 2 ^ 32" using u32_less [of i] by simp
  ultimately show ?thesis by (simp add: field_at_def)
qed

section \<open>What the container's network is\<close>

lemma template_name:
  assumes "from_template t name" and "0 \<notin> set t"
  shows "0 \<notin> set name" and "length name = length t"
proof -
  have pad: "0 \<notin> set (take 35 padchar)" by (simp add: padchar_def ascii_def)
  show len: "length name = length t" using assms(1) by (simp add: from_template_def list_all2_lengthD)
  show "0 \<notin> set name"
  proof
    assume "0 \<in> set name"
    then obtain i where i: "i < length t" "name ! i = 0" using len by (metis in_set_conv_nth)
    then have "if t ! i = 88 then 0 \<in> set (take 35 padchar) else 0 = t ! i"
      using list_all2_nthD [OF assms(1) [unfolded from_template_def] i(1)] by (auto split: if_splits)
    then show False using pad assms(2) nth_mem [OF i(1)] by (auto split: if_splits)
  qed
qed

lemma veth_names:
  "from_template veth0buf v0 \<Longrightarrow> 0 \<notin> set v0 \<and> length v0 = 7" "from_template veth1buf v1 \<Longrightarrow> 0 \<notin> set v1 \<and> length v1 = 7"
  using template_name [of veth0buf v0] template_name [of veth1buf v1]
  by (simp_all add: veth0buf_def veth1buf_def ascii_def)



end
