(* ===== verification/NetworkFailures.thy ===== *)
theory NetworkFailures
  imports NetworkRun
begin

text \<open>
  Which failures \<open>toy_docker/step_network\<close> notices.  The results of most calls are thrown away; this
  theory determines exactly on which calls it depends whether the container's command runs.
\<close>

section \<open>What the set-up functions look at\<close>

definition net0 :: net where
  "net0 = w_pnet (docker_start network_main)"

text \<open>
  The result that \<open>init_network\<close> looks at is that of \<open>lxc_veth_create\<close>, the one that
  \<open>start_network\<close> looks at is that of \<open>lxc_ipv4_addr_add\<close>.
\<close>

definition veth_created :: "net_env \<Rightarrow> surroundings \<Rightarrow> net \<Rightarrow> bool" where
  "veth_created env mem s =
     (case (lxc_mkifname (m_dup mem) (m_rand0 mem) (m_names mem) veth0buf,
            lxc_mkifname (m_dup mem) (m_rand1 mem) (m_names mem) veth1buf) of
        (Some (Some veth0, _), Some (Some veth1, _)) \<Rightarrow>
          (case lxc_veth_create env veth0 veth1 s of Some (err, _) \<Rightarrow> 0 \<le> err | None \<Rightarrow> False)
      | _ \<Rightarrow> False)"

definition address_added :: "net_env \<Rightarrow> net \<Rightarrow> bool" where
  "address_added env s =
     (let i = k_nametoindex env s (ascii ''eth0'') in
      0 \<le> sint i \<and>
      (case lxc_ipv4_addr_add env i (snd (inet_pton4 ip)) (snd (inet_pton4 broadcast)) network_mask s of
         Some (err, _) \<Rightarrow> 0 \<le> err | None \<Rightarrow> False))"

lemma init_network_outcome:
  "init_network env mem s = Some (r, s') \<Longrightarrow> r \<noteq> None \<longleftrightarrow> veth_created env mem s"
  unfolding init_network_def veth_created_def
  by (auto simp: bind_eq_Some_conv not_less split: option.splits if_splits)

lemma start_network_outcome:
  "start_network env mem s = Some (returned, s') \<Longrightarrow> returned \<longleftrightarrow> address_added env s"
  unfolding start_network_def address_added_def addresses Let_def
  by (cases "m_rand mem") (auto simp: bind_eq_Some_conv not_less split: option.splits if_splits prod.splits)

section \<open>The way to the command\<close>

text \<open>
  What is true on the way: before \<open>clone\<close> the parent has its calls before it or has given up; behind it
  the container starts with the parent's copy of the network state, and gets behind \<open>start_network\<close> only
  if that succeeds on it.
\<close>

definition before_clone :: "docker_env \<Rightarrow> docker_world \<Rightarrow> bool" where
  "before_clone env w \<longleftrightarrow> w_child w = None \<and>
     (w_parent w = [] \<or> w_parent w = network_main \<and> w_pnet w = net0 \<or>
      w_parent w = drop 1 network_main \<and> w_pnet w = net0 \<and> d_pipe env \<or>
      w_parent w = drop 2 network_main \<and> d_pipe env \<and>
        (\<exists>v. init_network (d_net env) (d_mem env) net0 = Some (Some v, w_pnet w)))"

definition after_clone :: "docker_env \<Rightarrow> net \<Rightarrow> docker_world \<Rightarrow> bool" where
  "after_clone env s w \<longleftrightarrow> CloneCall \<notin> set (w_parent w) \<and> d_pipe env \<and> 0 \<le> d_pid env \<and>
     (\<exists>v. init_network (d_net env) (d_mem env) net0 = Some (Some v, s)) \<and>
     (w_child w = Some [] \<or> (\<exists>j \<le> 4. w_child w = Some (drop j network_child) \<and> w_cnet w = s) \<or>
      (\<exists>s'. start_network (d_cnet env) (d_mem env) s = Some (True, s')) \<and>
        (w_child w = Some [StartCmd] \<or> w_child w = Some [Command] \<and> d_exec env))"

lemma parent_keeps_child:
  assumes "parent_step env cc w = Some w'" and "CloneCall \<notin> set (w_parent w)"
  shows "w_child w' = w_child w \<and> w_cnet w' = w_cnet w \<and> CloneCall \<notin> set (w_parent w')"
proof (cases "w_parent w")
  case (Cons a rest)
  then show ?thesis using assms
    by (cases a) (auto simp: parent_step_def Let_def bind_eq_Some_conv split: option.splits if_splits)
qed (use assms in \<open>simp add: parent_step_def\<close>)

lemma before_clone_step:
  assumes "before_clone env w" and "parent_step env network_child w = Some w'"
  shows "before_clone env w' \<or> (\<exists>s. after_clone env s w')"
proof -
  consider "w_parent w = []" | "w_parent w = PipeCall # drop 1 network_main" "w_pnet w = net0"
    | "w_parent w = InitNetwork # drop 2 network_main" "w_pnet w = net0" "d_pipe env"
    | v where "w_parent w = CloneCall # drop 3 network_main" "d_pipe env"
        "init_network (d_net env) (d_mem env) net0 = Some (Some v, w_pnet w)"
    using assms(1) network_main_drop(1-3) unfolding before_clone_def drop0 by metis
  then show ?thesis
  proof cases
    case 1
    then show ?thesis using assms(2) parent_calls(8) by simp
  next
    case 2
    then show ?thesis using assms unfolding parent_calls(1) [OF 2(1)] by (auto simp: before_clone_def split: if_splits)
  next
    case 3
    then show ?thesis using assms unfolding parent_calls(2) [OF 3(1)]
      by (auto simp: before_clone_def bind_eq_Some_conv split: option.splits)
  next
    case 4
    have c: "w_child w = None" using assms(1) by (simp add: before_clone_def)
    show ?thesis
    proof (cases "d_pid env < 0")
      case True
      then have "before_clone env w'" using assms(2) c unfolding parent_calls(3) [OF 4(1)]
        by (auto simp: before_clone_def)
      then show ?thesis ..
    next
      case False
      have "CloneCall \<notin> set (drop 3 network_main)" by (simp add: network_main_def)
      moreover have "w' = w\<lparr>w_parent := drop 3 network_main, w_log := w_log w @ [(True, CloneCall)],
          w_child := Some (drop 0 network_child), w_cwr := w_pwr w, w_cnet := w_pnet w\<rparr>"
        using assms(2) False unfolding parent_calls(3) [OF 4(1)] by simp
      ultimately have "after_clone env (w_pnet w) w'" using 4(2,3) False
        unfolding after_clone_def by (intro conjI disjI2 disjI1 exI [of _ v] exI [of _ 0]) simp_all
      then show ?thesis by blast
    qed
  qed
qed

lemma after_clone_child:
  assumes "after_clone env s w" and "child_step env w = Some w'"
  shows "after_clone env s w'"
proof -
  note ac = assms(1) [unfolded after_clone_def]
  have p: "w_parent w' = w_parent w" using assms(2)
    by (auto simp: child_step_def bind_eq_Some_conv Let_def split: option.splits list.splits action.splits if_splits)
  consider "w_child w = Some []"
    | j where "j \<le> 4" "w_child w = Some (drop j network_child)" "w_cnet w = s"
    | "w_child w = Some (StartCmd # [])" "\<exists>s'. start_network (d_cnet env) (d_mem env) s = Some (True, s')"
    | "w_child w = Some (Command # [])"
    using ac by blast
  then show ?thesis
  proof cases
    case 1
    then show ?thesis using assms(2) child_calls(9) by simp
  next
    case (2 j)
    have next_place: "after_clone env s w'" if "w_child w' = Some (drop i network_child)" "i \<le> 4" "w_cnet w' = w_cnet w" for i
      using that ac p 2(3) unfolding after_clone_def by auto
    have "j = 0 \<or> j = 1 \<or> j = 2 \<or> j = 3 \<or> j = 4" using 2(1) by arith
    then show ?thesis
    proof (elim disjE)
      assume "j = 0"
      then have c: "w_child w = Some (CloseWrite # drop 1 network_child)" using 2(2) network_child_drop(1) by simp
      show ?thesis using assms(2) unfolding child_calls(1) [OF c] by (intro next_place [of 1]) auto
    next
      assume "j = 1"
      then have c: "w_child w = Some (SetRoot # drop 2 network_child)" using 2(2) network_child_drop(2) by simp
      show ?thesis using assms(2) unfolding child_calls(2) [OF c] by (intro next_place [of 2]) auto
    next
      assume "j = 2"
      then have c: "w_child w = Some (ReadPipe # drop 3 network_child)" using 2(2) network_child_drop(3) by simp
      show ?thesis using assms(2) unfolding child_calls(3) [OF c] by (intro next_place [of 3]) (auto split: if_splits)
    next
      assume "j = 3"
      then have c: "w_child w = Some (SetMount # drop 4 network_child)" using 2(2) network_child_drop(4) by simp
      show ?thesis using assms(2) unfolding child_calls(4) [OF c] by (intro next_place [of 4]) auto
    next
      assume "j = 4"
      then have c: "w_child w = Some (StartNetwork # drop 5 network_child)" using 2(2) network_child_drop(5) by simp
      have "drop 5 network_child = [StartCmd]" by (simp add: network_child_def)
      then show ?thesis using assms(2) 2(3) ac p unfolding child_calls(5) [OF c]
        by (auto simp: after_clone_def bind_eq_Some_conv split: if_splits)
    qed
  next
    case 3
    then show ?thesis using assms(2) ac p unfolding child_calls(6) [OF 3(1)]
      by (auto simp: after_clone_def split: if_splits)
  next
    case 4
    then show ?thesis using assms(2) ac p unfolding child_calls(7) [OF 4] by (auto simp: after_clone_def)
  qed
qed

definition way_inv :: "docker_env \<Rightarrow> docker_world \<Rightarrow> bool" where
  "way_inv env w \<longleftrightarrow> before_clone env w \<or> (\<exists>s. after_clone env s w)"

lemma way_inv_step: "way_inv env w \<Longrightarrow> docker_step env network_child w w' \<Longrightarrow> way_inv env w'"
proof -
  assume w: "way_inv env w" and st: "docker_step env network_child w w'"
  show ?thesis using w unfolding way_inv_def [of env w]
  proof (elim disjE exE)
    assume b: "before_clone env w"
    then have "parent_step env network_child w = Some w'"
      using st child_calls(8) by (simp add: docker_step_def before_clone_def)
    then show ?thesis using before_clone_step [OF b] by (simp add: way_inv_def)
  next
    fix s assume a: "after_clone env s w"
    from st show ?thesis unfolding docker_step_def
    proof
      assume "parent_step env network_child w = Some w'"
      then have "after_clone env s w'" using parent_keeps_child a by (simp add: after_clone_def)
      then show ?thesis by (auto simp: way_inv_def)
    next
      assume "child_step env w = Some w'"
      then show ?thesis using after_clone_child [OF a] by (auto simp: way_inv_def)
    qed
  qed
qed

interpretation way: inv_system "docker_start network_main" "docker_step env network_child" "way_inv env" for env
  by unfold_locales (simp add: way_inv_def before_clone_def docker_start_def net0_def, fact way_inv_step)

section \<open>The calls that matter\<close>

lemma child_run: "child_step env w = Some w1 \<Longrightarrow> (docker_step env code)\<^sup>*\<^sup>* w1 w2 \<Longrightarrow> (docker_step env code)\<^sup>*\<^sup>* w w2"
  by (meson converse_rtranclp_into_rtranclp docker_step_def)

lemma runs_from_mount:
  assumes "w_child w = Some (drop 3 network_child)" and "d_exec env"
    and "start_network (d_cnet env) (d_mem env) (w_cnet w) = Some (True, s')"
  shows "\<exists>w'. (docker_step env network_child)\<^sup>*\<^sup>* w w' \<and> w_child w' = Some [Command]"
proof -
  have code: "drop 3 network_child = SetMount # StartNetwork # StartCmd # []" by (simp add: network_child_def)
  have s1: "child_step env w = Some (w\<lparr>w_child := Some [StartNetwork, StartCmd], w_log := w_log w @ [(False, SetMount)]\<rparr>)"
    (is "_ = Some ?w1") using child_calls(4) [OF assms(1) [unfolded code]] .
  have s2: "child_step env ?w1 = Some (?w1\<lparr>w_child := Some [StartCmd], w_log := w_log ?w1 @ [(False, StartNetwork)], w_cnet := s'\<rparr>)"
    (is "_ = Some ?w2") using child_calls(5) [of ?w1 "[StartCmd]" env] assms(3) by simp
  have s3: "child_step env ?w2 = Some (?w2\<lparr>w_child := Some [Command], w_log := w_log ?w2 @ [(False, StartCmd)]\<rparr>)"
    (is "_ = Some ?w3") using child_calls(6) [of ?w2 "[]" env] assms(2) by simp
  have "(docker_step env network_child)\<^sup>*\<^sup>* w ?w3"
    by (rule child_run [OF s1 child_run [OF s2 child_run [OF s3 rtranclp.rtrancl_refl]]])
  then show ?thesis by (intro exI [of _ ?w3]) simp
qed

lemma network_returns:
  assumes "calls_return env"
  obtains r s where "init_network (d_net env) (d_mem env) s0 = Some (r, s)"
  using assms unfolding calls_return_def by fastforce

text \<open>
  C30: Whether the container's command can run depends on few calls only.  When the calls return at all,
  some run of \<open>step_network\<close> reaches the command if and only if \<open>pipe\<close>, \<open>clone\<close> and \<open>execv\<close> succeed, the
  kernel accepts the pair of interfaces, and it accepts the container's address (which the container
  asks for in a copy of the network state its parent had at \<open>clone\<close>).  So the results of the bridge, of
  every link that is set up, of the move into the namespace, of the gateway, of both changes of the
  hardware address and of the mounts make no difference: the command starts in a container without a
  working network.
\<close>

theorem command_runs_iff:
  assumes "calls_return env"
  shows "(\<exists>w. (docker_step env network_child)\<^sup>*\<^sup>* (docker_start network_main) w \<and> w_child w = Some [Command]) \<longleftrightarrow>
    d_pipe env \<and> 0 \<le> d_pid env \<and> d_exec env \<and> veth_created (d_net env) (d_mem env) net0 \<and>
    (\<forall>r s. init_network (d_net env) (d_mem env) net0 = Some (r, s) \<longrightarrow> address_added (d_cnet env) s)"
    (is "?runs \<longleftrightarrow> ?calls")
proof
  assume ?runs
  then obtain w where w: "(docker_step env network_child)\<^sup>*\<^sup>* (docker_start network_main) w" "w_child w = Some [Command]"
    by blast
  have "way_inv env w" by (rule way.reach_inv [OF w(1)])
  then obtain s where "after_clone env s w" using w(2) by (auto simp: way_inv_def before_clone_def)
  then obtain v s' where a: "d_pipe env" "0 \<le> d_pid env" "d_exec env"
    "init_network (d_net env) (d_mem env) net0 = Some (Some v, s)"
    "start_network (d_cnet env) (d_mem env) s = Some (True, s')"
    using w(2) drop_not_command [symmetric] unfolding after_clone_def by auto
  then show ?calls using init_network_outcome [OF a(4)] start_network_outcome [OF a(5)] by simp
next
  assume c: ?calls
  obtain r s where i: "init_network (d_net env) (d_mem env) net0 = Some (r, s)"
    by (rule network_returns [OF assms])
  then obtain v where v: "r = Some v" using init_network_outcome [OF i] c by auto
  obtain returned s' where st: "start_network (d_cnet env) (d_mem env) s = Some (returned, s')"
    using assms unfolding calls_return_def by fastforce
  have "returned" using start_network_outcome [OF st] c i by blast
  obtain w where w: "(docker_step env network_child)\<^sup>*\<^sup>* (docker_start network_main) w"
    "w_child w = Some (drop 3 network_child)"
    using reaches_read [OF assms, of v s] c i v by (auto simp: net0_def)
  have "way_inv env w" by (rule way.reach_inv [OF w(1)])
  then obtain s1 where a: "after_clone env s1 w" using w(2) by (auto simp: way_inv_def before_clone_def)
  then have "s1 = s" using i by (auto simp: after_clone_def)
  moreover have "drop 3 network_child \<notin> {[], [StartCmd], [Command]}" by (simp add: network_child_def)
  ultimately have "w_cnet w = s" using a w(2) by (auto simp: after_clone_def)
  then have "start_network (d_cnet env) (d_mem env) (w_cnet w) = Some (True, s')" using st \<open>returned\<close> by simp
  then obtain w' where "(docker_step env network_child)\<^sup>*\<^sup>* w w'" "w_child w' = Some [Command]"
    using runs_from_mount [OF w(2)] c by blast
  then show ?runs using w(1) by (meson rtranclp_trans)
qed

text \<open>
  A kernel that creates interfaces and adds addresses, and refuses everything else with \<open>EPERM\<close>: setting links up, the
  move, routes, the bridge and the hardware addresses.
\<close>

definition picky_answer :: "net_event list \<Rightarrow> u8 list" where
  "picky_answer tr =
     (case rev tr of
        EvSend fd msg # _ \<Rightarrow>
          if take 4 (drop 4 msg) \<in> {le_bytes 2 RTM_NEWLINK @ le_bytes 2 veth_flags, le_bytes 2 RTM_NEWADDR @ le_bytes 2 create_flags}
          then nl_header 36 NLMSG_ERROR 0 @ replicate 20 0
          else nl_header 36 NLMSG_ERROR 0 @ le_bytes 4 (2 ^ 32 - 1) @ replicate 16 0
      | _ \<Rightarrow> [])"

definition picky_net_env :: net_env where
  "picky_net_env = sample_net_env\<lparr>k_ioctl := \<lambda>_. Inl 1, k_recvmsg := \<lambda>s. Inr (picky_answer (n_trace s))\<rparr>"

definition picky_docker :: docker_env where
  "picky_docker = sample_docker\<lparr>d_net := picky_net_env, d_cnet := picky_net_env\<rparr>"

lemma picky_takes:
  assumes "take 4 (drop 4 msg) \<in> {le_bytes 2 RTM_NEWLINK @ le_bytes 2 veth_flags, le_bytes 2 RTM_NEWADDR @ le_bytes 2 create_flags}"
  shows "kernel_takes picky_net_env msg"
proof -
  have "k_recvmsg picky_net_env (log_event (EvSend fd msg) s) = Inr (nl_header 36 NLMSG_ERROR 0 @ replicate 20 0)" for fd s
    using assms by (simp add: picky_net_env_def picky_answer_def log_event_def)
  moreover have "fst (netlink_open picky_net_env NETLINK_ROUTE s) = 0" for s
    by (simp add: picky_net_env_def sample_net_env_def netlink_open_def sys_socket_def sizeof_sockaddr_nl_def AF_NETLINK_def)
  ultimately show ?thesis
    by (simp add: kernel_takes_def) (simp add: picky_net_env_def sample_net_env_def)
qed

lemma picky_messages: "kernel_takes picky_net_env (veth_message v0 v1)" "kernel_takes picky_net_env (addr_message i n a b)"
  by (intro picky_takes; simp add: veth_message_def addr_message_def nl_header_def)+

lemma picky_good: "good_net picky_net_env" "ifreq_ok picky_net_env"
  by (simp_all add: good_net_def errno_ok_def eintr_ends_def ifreq_ok_def picky_net_env_def sample_net_env_def picky_answer_def
      EINTR_def)

lemma picky_calls_return: "calls_return picky_docker"
  by (rule calls_return_if)
    (simp_all add: picky_docker_def sample_docker_def picky_good sample_names_free sample_surroundings_sizes)

lemma picky_veth_created: "veth_created picky_net_env sample_surroundings s"
proof -
  obtain names k0 k1 where n: "\<forall>n. m_dup sample_surroundings n" "m_names sample_surroundings = Some names"
    "fst (fill_name (m_rand0 sample_surroundings) (k0 * count_list veth0buf 88) veth0buf) \<notin> set names"
    "fst (fill_name (m_rand1 sample_surroundings) (k1 * count_list veth1buf 88) veth1buf) \<notin> set names"
    using sample_names_free unfolding names_free_def one_X by auto
  obtain v0 v1 where v: "lxc_mkifname (m_dup sample_surroundings) (m_rand0 sample_surroundings) (Some names) veth0buf = Some (Some v0, False)"
    "lxc_mkifname (m_dup sample_surroundings) (m_rand1 sample_surroundings) (Some names) veth1buf = Some (Some v1, False)"
    "from_template veth0buf v0" "from_template veth1buf v1"
    using mkifname_returns [OF n(1) n(3)] mkifname_returns [OF n(1) n(4)] by blast
  have "\<not> bad_name v0" "\<not> bad_name v1"
    using template_good_name v(3,4) by (simp_all add: veth0buf_def veth1buf_def ascii_def)
  then obtain s' where "lxc_veth_create picky_net_env v0 v1 s = Some (0, s')"
    using veth_create_taken [OF picky_good(1) picky_messages(1)] by blast
  then show ?thesis using n(2) v(1,2) by (simp add: veth_created_def)
qed

lemma picky_address_added: "address_added picky_net_env s"
proof -
  obtain s' where "lxc_ipv4_addr_add picky_net_env 7 [192, 168, 0, 102] [192, 168, 100, 255] network_mask s = Some (0, s')"
    using addr_add_taken [OF picky_good(1) picky_messages(2), of "[192, 168, 0, 102]" "[192, 168, 100, 255]" 7 network_mask s] by auto
  moreover have "k_nametoindex picky_net_env s name = 7" for name by (simp add: picky_net_env_def sample_net_env_def)
  ultimately show ?thesis by (simp add: address_added_def addresses)
qed

lemma command_runs_iff_witness:
  "\<exists>w. (docker_step picky_docker network_child)\<^sup>*\<^sup>* (docker_start network_main) w \<and> w_child w = Some [Command]"
  using command_runs_iff [OF picky_calls_return] picky_veth_created picky_address_added
  by (simp add: picky_docker_def sample_docker_def)

end
