(* ===== verification/Rootfs.thy ===== *)
theory Rootfs
  imports Main "HOL-Library.Sublist" "HOL-Library.Monad_Syntax"
begin

text \<open>
  What \<open>set_rootdir\<close>, \<open>set_mount\<close> and \<open>start_cmd\<close> of the four \<open>toy_docker.c\<close> do to the view of the file
  system: a process has a root and a current directory, both named by their path in the host's tree.
  Which directories and programs there are, and whether the process may call \<open>chroot\<close> and \<open>mount\<close>, are
  parameters; symbolic links are left out.
\<close>

section \<open>Paths\<close>

type_synonym path = "string list"

fun components :: "string \<Rightarrow> string list" where
  "components [] = [[]]"
| "components (c # cs) =
     (if c = CHR ''/'' then [] # components cs
      else case components cs of [] \<Rightarrow> [[c]] | p # ps \<Rightarrow> (c # p) # ps)"

definition absolute :: "string \<Rightarrow> bool" where
  "absolute s \<longleftrightarrow> s \<noteq> [] \<and> hd s = CHR ''/''"

record fs_env =
  fs_dir :: "path \<Rightarrow> bool"
  fs_exec :: "path \<Rightarrow> bool"
  fs_priv :: bool

record process =
  pr_root :: path
  pr_cwd :: path
  pr_mounts :: "(path \<times> string) list"

text \<open>One component, and a walk; \<open>..\<close> stays at the process's root and at the host's.\<close>

definition step_into :: "path \<Rightarrow> path \<Rightarrow> string \<Rightarrow> path" where
  "step_into root cur c =
     (if c = '''' \<or> c = ''.'' then cur
      else if c = ''..'' then (if cur = root then cur else butlast cur)
      else cur @ [c])"

fun walk :: "fs_env \<Rightarrow> path \<Rightarrow> path \<Rightarrow> string list \<Rightarrow> path option" where
  "walk env root cur [] = Some cur"
| "walk env root cur (c # cs) =
     (let next = step_into root cur c in if fs_dir env next then walk env root next cs else None)"

definition resolve_dir :: "fs_env \<Rightarrow> string \<Rightarrow> process \<Rightarrow> path option" where
  "resolve_dir env s p =
     (if s = [] then None else walk env (pr_root p) (if absolute s then pr_root p else pr_cwd p) (components s))"

text \<open>A program: its directory is resolved, its name is the last component.\<close>

definition resolve_file :: "fs_env \<Rightarrow> string \<Rightarrow> process \<Rightarrow> path option" where
  "resolve_file env s p =
     (let cs = components s in
      if s = [] \<or> last cs \<in> {'''', ''.'', ''..''} then None
      else do {
        d \<leftarrow> walk env (pr_root p) (if absolute s then pr_root p else pr_cwd p) (butlast cs);
        Some (d @ [last cs])
      })"

section \<open>System calls\<close>

definition chdir :: "fs_env \<Rightarrow> string \<Rightarrow> process \<Rightarrow> int \<times> process" where
  "chdir env s p = (case resolve_dir env s p of None \<Rightarrow> (- 1, p) | Some d \<Rightarrow> (0, p\<lparr>pr_cwd := d\<rparr>))"

definition chroot :: "fs_env \<Rightarrow> string \<Rightarrow> process \<Rightarrow> int \<times> process" where
  "chroot env s p =
     (if \<not> fs_priv env then (- 1, p)
      else case resolve_dir env s p of None \<Rightarrow> (- 1, p) | Some d \<Rightarrow> (0, p\<lparr>pr_root := d\<rparr>))"

definition mount :: "fs_env \<Rightarrow> string \<Rightarrow> string \<Rightarrow> process \<Rightarrow> int \<times> process" where
  "mount env target type p =
     (if \<not> fs_priv env then (- 1, p)
      else case resolve_dir env target p of
        None \<Rightarrow> (- 1, p)
      | Some d \<Rightarrow> (0, p\<lparr>pr_mounts := pr_mounts p @ [(d, type)]\<rparr>))"

text \<open>The program that \<open>execv\<close> starts, if it does not return.\<close>

definition execv :: "fs_env \<Rightarrow> string \<Rightarrow> process \<Rightarrow> path option" where
  "execv env s p = (case resolve_file env s p of None \<Rightarrow> None | Some f \<Rightarrow> if fs_exec env f then Some f else None)"

section \<open>The code\<close>

definition cmd :: string where "cmd = ''/bin/sh''"
definition root_dir :: string where "root_dir = ''/home/ya/dev/docker_basic/busybox''"

text \<open>None of the results is looked at.\<close>

definition set_rootdir :: "fs_env \<Rightarrow> string \<Rightarrow> process \<Rightarrow> process" where
  "set_rootdir env dir p = (let (_, p) = chdir env dir p; (_, p) = chroot env ''.'' p in p)"

definition set_mount :: "fs_env \<Rightarrow> process \<Rightarrow> process" where
  "set_mount env p = (let (_, p) = mount env ''/proc'' ''proc'' p; (_, p) = mount env ''/sys'' ''sysfs'' p in p)"

definition start_cmd :: "fs_env \<Rightarrow> string \<Rightarrow> process \<Rightarrow> path option" where
  "start_cmd env c p = execv env c p"

text \<open>
  \<open>main\<close> of \<open>step_chroot\<close> and \<open>child_setup_func\<close> of \<open>step_namespace\<close> and \<open>step_cgroup\<close>; the child of
  \<open>step_network\<close> also mounts.  The result is the program that runs in the end.
\<close>

definition enter_rootdir :: "fs_env \<Rightarrow> process \<Rightarrow> path option" where
  "enter_rootdir env p = start_cmd env cmd (set_rootdir env root_dir p)"

definition enter_network_rootdir :: "fs_env \<Rightarrow> process \<Rightarrow> process \<times> path option" where
  "enter_network_rootdir env p = (let p = set_mount env (set_rootdir env root_dir p) in (p, start_cmd env cmd p))"

section \<open>Staying below the root\<close>

definition confined :: "process \<Rightarrow> bool" where
  "confined p \<longleftrightarrow> prefix (pr_root p) (pr_cwd p)"

lemma step_into_below: "prefix root cur \<Longrightarrow> prefix root (step_into root cur c)"
proof -
  assume p: "prefix root cur"
  have "prefix root (butlast cur)" if "cur \<noteq> root"
    using p that by (metis append_butlast_last_id prefix_order.dual_order.refl prefix_snoc butlast.simps(1))
  moreover have "prefix root (cur @ [c])" using p by (rule prefix_order.trans) simp
  ultimately show ?thesis using p by (simp add: step_into_def)
qed

lemma walk_below: "walk env root cur cs = Some d \<Longrightarrow> prefix root cur \<Longrightarrow> prefix root d"
proof (induction cs arbitrary: cur)
  case (Cons c cs)
  then show ?case using step_into_below by (auto simp: Let_def split: if_splits)
qed simp

lemma resolve_below:
  assumes "confined p"
  shows "resolve_dir env s p = Some d \<Longrightarrow> prefix (pr_root p) d" "resolve_file env s p = Some f \<Longrightarrow> prefix (pr_root p) f"
proof -
  have start: "prefix (pr_root p) (if absolute s then pr_root p else pr_cwd p)"
    using assms by (simp add: confined_def)
  show "resolve_dir env s p = Some d \<Longrightarrow> prefix (pr_root p) d"
    using walk_below [OF _ start] by (simp add: resolve_dir_def split: if_splits)
  show "resolve_file env s p = Some f \<Longrightarrow> prefix (pr_root p) f"
    using walk_below [OF _ start] by (fastforce simp: resolve_file_def Let_def bind_eq_Some_conv split: if_splits)
qed

text \<open>Any number of changes of directory.\<close>

fun chdirs :: "fs_env \<Rightarrow> string list \<Rightarrow> process \<Rightarrow> process" where
  "chdirs env [] p = p"
| "chdirs env (s # ss) p = chdirs env ss (snd (chdir env s p))"

lemma chdir_frame: "pr_root (snd (chdir env s p)) = pr_root p"
  by (simp add: chdir_def split: option.splits)

lemma chdirs_confined: "confined p \<Longrightarrow> confined (chdirs env ss p) \<and> pr_root (chdirs env ss p) = pr_root p"
proof (induction ss arbitrary: p)
  case (Cons s ss)
  have "confined (snd (chdir env s p))"
    using Cons.prems resolve_below(1) [OF Cons.prems] by (auto simp: chdir_def confined_def split: option.splits)
  then show ?case using Cons.IH chdir_frame by simp
qed simp

lemma set_rootdir_done:
  assumes "resolve_dir env dir p = Some d" "fs_priv env"
  shows "set_rootdir env dir p = p\<lparr>pr_cwd := d, pr_root := d\<rparr> \<or> \<not> fs_dir env d"
  using assms by (simp add: set_rootdir_def chdir_def chroot_def resolve_dir_def absolute_def step_into_def Let_def)

lemma walk_dir: "walk env root cur cs = Some d \<Longrightarrow> cs \<noteq> [] \<Longrightarrow> fs_dir env d"
proof (induction cs arbitrary: cur)
  case (Cons c cs)
  then show ?case by (cases cs) (auto simp: Let_def split: if_splits)
qed simp

lemma components_not_Nil [simp]: "components s \<noteq> []"
  by (induction s rule: components.induct) (auto split: list.splits)

lemma set_rootdir_ok:
  assumes "resolve_dir env dir p = Some d" "fs_priv env"
  shows "set_rootdir env dir p = p\<lparr>pr_cwd := d, pr_root := d\<rparr>"
  using set_rootdir_done [OF assms] walk_dir [of env _ _ "components dir" d] assms(1)
  by (auto simp: resolve_dir_def split: if_splits)

section \<open>Getting out\<close>

lemma chdir_up: "fs_dir env (butlast (pr_cwd p)) \<Longrightarrow> pr_cwd p \<noteq> pr_root p \<Longrightarrow>
    snd (chdir env ''..'' p) = p\<lparr>pr_cwd := butlast (pr_cwd p)\<rparr>"
  by (simp add: chdir_def resolve_dir_def absolute_def step_into_def Let_def)

lemma chdirs_up:
  assumes "\<forall>k \<le> length (pr_cwd p). fs_dir env (take k (pr_cwd p))" "\<forall>k \<le> length (pr_cwd p). take k (pr_cwd p) \<noteq> pr_root p"
  shows "chdirs env (replicate (length (pr_cwd p)) ''..'') p = p\<lparr>pr_cwd := []\<rparr>"
  using assms
proof (induction "length (pr_cwd p)" arbitrary: p)
  case (Suc n)
  let ?c = "pr_cwd p" and ?p' = "p\<lparr>pr_cwd := butlast (pr_cwd p)\<rparr>"
  have b: "butlast ?c = take n ?c" using Suc.hyps(2) [symmetric] by (simp add: butlast_conv_take)
  have "?c \<noteq> pr_root p" using Suc.prems(2) by (metis le_refl take_all)
  then have "snd (chdir env ''..'' p) = ?p'" using Suc.prems(1) Suc.hyps(2) b by (intro chdir_up) auto
  moreover have "chdirs env (replicate n ''..'') ?p' = ?p'\<lparr>pr_cwd := []\<rparr>"
    using Suc.hyps(1) [of ?p'] Suc.hyps(2) Suc.prems b by (simp add: min_def)
  ultimately show ?case using Suc.hyps(2) [symmetric] by simp
qed simp

text \<open>The calls of a process that leaves: another \<open>chroot\<close> without \<open>chdir\<close>, up to the top, and a last \<open>chroot\<close>.\<close>

definition break_out :: "fs_env \<Rightarrow> string \<Rightarrow> process \<Rightarrow> process" where
  "break_out env sub p =
     snd (chroot env ''.'' (chdirs env (replicate (length (pr_cwd p)) ''..'') (snd (chroot env sub p))))"

definition plain_name :: "string \<Rightarrow> bool" where
  "plain_name s \<longleftrightarrow> s \<notin> {'''', ''.'', ''..''} \<and> CHR ''/'' \<notin> set s"

lemma components_plain: "CHR ''/'' \<notin> set s \<Longrightarrow> components s = [s]"
  by (induction s) auto

lemma break_out_ok:
  assumes "fs_priv env" "plain_name sub" "pr_cwd p = pr_root p"
    "\<forall>k \<le> length (pr_root p). fs_dir env (take k (pr_root p))" "fs_dir env (pr_root p @ [sub])"
  shows "break_out env sub p = p\<lparr>pr_root := [], pr_cwd := []\<rparr>"
proof -
  let ?D = "pr_root p"
  let ?p1 = "p\<lparr>pr_root := ?D @ [sub]\<rparr>"
  have "sub \<noteq> []" "hd sub \<in> set sub" using assms(2) by (auto simp: plain_name_def)
  moreover from this have "\<not> absolute sub" using assms(2) by (metis absolute_def plain_name_def)
  ultimately have "chroot env sub p = (0, ?p1)"
    using assms components_plain [of sub] by (simp add: chroot_def resolve_dir_def plain_name_def step_into_def Let_def)
  moreover have "take k ?D \<noteq> ?D @ [sub]" for k
  proof
    assume "take k ?D = ?D @ [sub]"
    then have "length (take k ?D) = length ?D + 1" by simp
    then show False by simp
  qed
  then have "chdirs env (replicate (length ?D) ''..'') ?p1 = ?p1\<lparr>pr_cwd := []\<rparr>"
    using chdirs_up [of ?p1 env] assms(3,4) by simp
  moreover have "fs_dir env []" using assms(4) by (metis le0 take0)
  then have "snd (chroot env ''.'' (?p1\<lparr>pr_cwd := []\<rparr>)) = p\<lparr>pr_root := [], pr_cwd := []\<rparr>"
    using assms(1) by (simp add: chroot_def resolve_dir_def absolute_def step_into_def Let_def)
  ultimately show ?thesis using assms(3) by (simp add: break_out_def)
qed

section \<open>The jail\<close>

text \<open>
  C33: When the directory is there and the process may, \<open>set_rootdir\<close> makes it root and current
  directory, and from then on every path the process can name, after any changes of directory, and the
  program it starts lie below it.  But it is no jail for a process that keeps the right to call
  \<open>chroot\<close>, as the command does: three kinds of calls lead back to the host's root.  And as no result is
  looked at, a missing directory makes wherever the process was its root, and without the right nothing
  is changed but the current directory; either way the command is looked up there.
\<close>

theorem rootdir_jail:
  assumes "confined p" and "fs_dir env (pr_cwd p)"
  shows "(\<forall>d. resolve_dir env root_dir p = Some d \<and> fs_priv env \<longrightarrow>
      (let q = set_rootdir env root_dir p in
        pr_root q = d \<and> pr_cwd q = d \<and> (\<forall>f. enter_rootdir env p = Some f \<longrightarrow> prefix d f) \<and>
        (\<forall>ss s x. resolve_dir env s (chdirs env ss q) = Some x \<or> resolve_file env s (chdirs env ss q) = Some x \<longrightarrow> prefix d x) \<and>
        (\<forall>sub. plain_name sub \<and> fs_dir env (d @ [sub]) \<and> (\<forall>k \<le> length d. fs_dir env (take k d)) \<longrightarrow>
          break_out env sub q = q\<lparr>pr_root := [], pr_cwd := []\<rparr>))) \<and>
    (resolve_dir env root_dir p = None \<and> fs_priv env \<longrightarrow> set_rootdir env root_dir p = p\<lparr>pr_root := pr_cwd p\<rparr>) \<and>
    (\<not> fs_priv env \<longrightarrow> pr_root (set_rootdir env root_dir p) = pr_root p)"
proof (intro conjI allI impI)
  fix d assume d: "resolve_dir env root_dir p = Some d \<and> fs_priv env"
  then have q: "set_rootdir env root_dir p = p\<lparr>pr_cwd := d, pr_root := d\<rparr>" (is "_ = ?q") using set_rootdir_ok by blast
  have conf: "confined ?q" by (simp add: confined_def)
  have "prefix d x" if "resolve_dir env s (chdirs env ss ?q) = Some x \<or> resolve_file env s (chdirs env ss ?q) = Some x" for ss s x
    using chdirs_confined [OF conf, of env ss] resolve_below that by fastforce
  moreover have "prefix d f" if "enter_rootdir env p = Some f" for f
    using that resolve_below(2) [OF conf, of env cmd f]
    by (simp add: enter_rootdir_def start_cmd_def execv_def q split: option.splits if_splits)
  moreover have "break_out env sub ?q = ?q\<lparr>pr_root := [], pr_cwd := []\<rparr>"
    if "plain_name sub \<and> fs_dir env (d @ [sub]) \<and> (\<forall>k \<le> length d. fs_dir env (take k d))" for sub
    using that d by (intro break_out_ok) auto
  ultimately show "let q = set_rootdir env root_dir p in
        pr_root q = d \<and> pr_cwd q = d \<and> (\<forall>f. enter_rootdir env p = Some f \<longrightarrow> prefix d f) \<and>
        (\<forall>ss s x. resolve_dir env s (chdirs env ss q) = Some x \<or> resolve_file env s (chdirs env ss q) = Some x \<longrightarrow> prefix d x) \<and>
        (\<forall>sub. plain_name sub \<and> fs_dir env (d @ [sub]) \<and> (\<forall>k \<le> length d. fs_dir env (take k d)) \<longrightarrow>
          break_out env sub q = q\<lparr>pr_root := [], pr_cwd := []\<rparr>)"
    unfolding Let_def q by auto
next
  assume "resolve_dir env root_dir p = None \<and> fs_priv env"
  then show "set_rootdir env root_dir p = p\<lparr>pr_root := pr_cwd p\<rparr>"
    using assms(2) by (simp add: set_rootdir_def chdir_def chroot_def resolve_dir_def [of env "''.''"] absolute_def step_into_def Let_def)
next
  assume "\<not> fs_priv env"
  then show "pr_root (set_rootdir env root_dir p) = pr_root p"
    using chdir_frame by (simp add: set_rootdir_def chroot_def split: prod.splits) (metis snd_conv)
qed

text \<open>The file systems that \<open>step_network\<close> mounts, and its command, lie below the new root as well.\<close>

lemma network_rootdir_below:
  assumes "resolve_dir env root_dir p = Some d" "fs_priv env" "pr_mounts p = []"
  shows "case enter_network_rootdir env p of (q, f) \<Rightarrow>
    (\<forall>(m, type) \<in> set (pr_mounts q). prefix d m) \<and> (\<forall>x. f = Some x \<longrightarrow> prefix d x)"
proof -
  define q0 where "q0 = p\<lparr>pr_cwd := d, pr_root := d\<rparr>"
  have mnt: "pr_root (snd (mount env t ty r)) = d \<and> confined (snd (mount env t ty r)) \<and>
      (\<forall>(m, type) \<in> set (pr_mounts (snd (mount env t ty r))). prefix d m)"
    if "pr_root r = d" "confined r" "\<forall>(m, type) \<in> set (pr_mounts r). prefix d m" for t ty r
    using that resolve_below(1) [OF that(2), of env t] by (auto simp: mount_def confined_def split: option.splits)
  have "pr_root q0 = d" "confined q0" "\<forall>(m, type) \<in> set (pr_mounts q0). prefix d m"
    using assms(3) by (simp_all add: q0_def confined_def)
  moreover have "set_mount env q0 = snd (mount env ''/sys'' ''sysfs'' (snd (mount env ''/proc'' ''proc'' q0)))"
    by (simp add: set_mount_def case_prod_beta)
  ultimately have "pr_root (set_mount env q0) = d" "confined (set_mount env q0)"
    "\<forall>(m, type) \<in> set (pr_mounts (set_mount env q0)). prefix d m"
    using mnt [of q0 "''/proc''" "''proc''"] mnt [of "snd (mount env ''/proc'' ''proc'' q0)" "''/sys''" "''sysfs''"]
    by simp_all
  then show ?thesis
    using set_rootdir_ok [OF assms(1,2)] resolve_below(2) [of "set_mount env q0" env cmd]
    by (auto simp: enter_network_rootdir_def q0_def start_cmd_def execv_def Let_def split: option.splits if_splits)
qed

text \<open>A host with the image and a shell in it, and the way out by the directory \<open>bin\<close>.\<close>

definition sample_image :: path where
  "sample_image = [''home'', ''ya'', ''dev'', ''docker_basic'', ''busybox'']"

definition sample_fs :: fs_env where
  "sample_fs = \<lparr>fs_dir = (\<lambda>d. d \<in> set (prefixes sample_image) \<or> d = sample_image @ [''bin'']),
     fs_exec = (\<lambda>f. f = sample_image @ [''bin'', ''sh'']), fs_priv = True\<rparr>"

definition sample_process :: process where
  "sample_process = \<lparr>pr_root = [], pr_cwd = [], pr_mounts = []\<rparr>"

lemma sample_resolve: "resolve_dir sample_fs root_dir sample_process = Some sample_image"
  by (simp add: resolve_dir_def root_dir_def absolute_def sample_process_def sample_fs_def sample_image_def step_into_def Let_def)

lemma sample_enter: "enter_rootdir sample_fs sample_process = Some (sample_image @ [''bin'', ''sh''])"
  using set_rootdir_ok [OF sample_resolve]
  by (simp add: enter_rootdir_def start_cmd_def execv_def resolve_file_def cmd_def absolute_def sample_process_def sample_fs_def
      sample_image_def step_into_def Let_def)

lemma rootdir_jail_witness:
  "prefix sample_image (sample_image @ [''bin'', ''sh'']) \<and>
   break_out sample_fs ''bin'' (set_rootdir sample_fs root_dir sample_process) = sample_process"
proof -
  have p: "confined sample_process" "fs_dir sample_fs (pr_cwd sample_process)"
    by (simp_all add: confined_def sample_process_def sample_fs_def)
  have dirs: "plain_name ''bin'' \<and> fs_dir sample_fs (sample_image @ [''bin'']) \<and>
      (\<forall>k \<le> length sample_image. fs_dir sample_fs (take k sample_image))"
    by (simp add: plain_name_def sample_fs_def take_is_prefix)
  have priv: "fs_priv sample_fs" by (simp add: sample_fs_def)
  note jail = rootdir_jail [OF p, THEN conjunct1, rule_format, of sample_image, OF conjI [OF sample_resolve priv], unfolded Let_def]
  have "set_rootdir sample_fs root_dir sample_process = sample_process\<lparr>pr_cwd := sample_image, pr_root := sample_image\<rparr>"
    by (rule set_rootdir_ok [OF sample_resolve priv])
  then show ?thesis using jail sample_enter dirs by (simp add: sample_process_def)
qed

end
