(* ===== verification/ContainerView.thy ===== *)
theory ContainerView
  imports NetworkFailures Rootfs
begin

text \<open>
  What the command of \<open>toy_docker/step_network\<close> sees of the file system.  The theory Containers orders the
  calls of the two processes, the theory Rootfs says what a call does to the process's view; here the calls
  that the container has made on its way to the command are carried out on its view.
\<close>

section \<open>The container's calls\<close>

definition child_log :: "docker_world \<Rightarrow> action list" where
  "child_log w = map snd (filter (\<lambda>x. \<not> fst x) (w_log w))"

fun call_view :: "fs_env \<Rightarrow> action \<Rightarrow> process \<Rightarrow> process" where
  "call_view env SetRoot p = set_rootdir env root_dir p"
| "call_view env SetMount p = set_mount env p"
| "call_view env _ p = p"

definition view :: "fs_env \<Rightarrow> docker_world \<Rightarrow> process \<Rightarrow> process" where
  "view env w p = fold (call_view env) (child_log w) p"

section \<open>The order of the calls\<close>

text \<open>
  The container's log is what of its program lies behind it, as long as it has not ended, and the parent
  creates it once.
\<close>

definition log_inv :: "docker_world \<Rightarrow> bool" where
  "log_inv w \<longleftrightarrow>
     (case w_child w of
        None \<Rightarrow> child_log w = []
      | Some c \<Rightarrow> c = [] \<or> (\<exists>j \<le> 5. c = drop j network_child \<and> child_log w = take j network_child) \<or>
          c = [Command] \<and> child_log w = network_child)"

lemma parent_step_log:
  assumes "parent_step env cc w = Some w'"
  shows "child_log w' = child_log w \<and> (w_child w' = w_child w \<or> w_child w' = Some cc \<and> CloneCall \<in> set (w_parent w))"
proof (cases "w_parent w")
  case (Cons a rest)
  then show ?thesis using assms
    by (cases a) (auto simp: parent_step_def child_log_def Let_def bind_eq_Some_conv split: option.splits if_splits)
qed (use assms in \<open>simp add: parent_step_def\<close>)

lemma child_step_log:
  assumes "child_step env w = Some w'"
  obtains a rest where "w_child w = Some (a # rest)"
    and "w_child w' = Some [] \<or> child_log w' = child_log w @ [a] \<and>
      (w_child w' = Some rest \<or> a = StartCmd \<and> w_child w' = Some [Command])"
proof -
  obtain a rest where c: "w_child w = Some (a # rest)"
    using assms by (auto simp: child_step_def split: option.splits list.splits)
  have "w_child w' = Some [] \<or> child_log w' = child_log w @ [a] \<and>
      (w_child w' = Some rest \<or> a = StartCmd \<and> w_child w' = Some [Command])"
    using assms c by (cases a) (auto simp: child_step_def child_log_def Let_def bind_eq_Some_conv split: if_splits)
  then show thesis using that c by blast
qed

lemma log_inv_parent:
  assumes "way_inv env w" and "log_inv w" and "parent_step env network_child w = Some w'"
  shows "log_inv w'"
proof -
  note p = parent_step_log [OF assms(3)]
  show ?thesis
  proof (cases "w_child w' = w_child w")
    case True
    then show ?thesis using p assms(2) by (cases "w_child w") (simp_all add: log_inv_def)
  next
    case False
    then have c: "w_child w' = Some network_child" "CloneCall \<in> set (w_parent w)" using p by auto
    then have "w_child w = None" using assms(1) by (auto simp: way_inv_def before_clone_def after_clone_def)
    then have "child_log w' = []" using p assms(2) by (simp add: log_inv_def)
    then show ?thesis using c(1) unfolding log_inv_def by (auto intro: exI [of _ 0])
  qed
qed

lemma log_inv_child:
  assumes "log_inv w" and "child_step env w = Some w'"
  shows "log_inv w'"
proof -
  obtain a rest where a: "w_child w = Some (a # rest)"
    "w_child w' = Some [] \<or> child_log w' = child_log w @ [a] \<and>
      (w_child w' = Some rest \<or> a = StartCmd \<and> w_child w' = Some [Command])"
    by (rule child_step_log [OF assms(2)])
  have len: "length network_child = 6" by (simp add: network_child_def)
  consider "w_child w' = Some []"
    | j where "j \<le> 5" "a # rest = drop j network_child" "child_log w' = take j network_child @ [a]"
        "w_child w' = Some rest \<or> a = StartCmd \<and> w_child w' = Some [Command]"
    | "rest = []" "w_child w' = Some rest \<or> a = StartCmd"  "a = Command"
    using a assms(1) by (auto simp: log_inv_def)
  then show ?thesis
  proof cases
    case 1
    then show ?thesis by (simp add: log_inv_def)
  next
    case (2 j)
    have nth: "network_child ! j = a" "rest = drop (Suc j) network_child"
      using 2(2) by (metis nth_via_drop, metis drop_Suc drop_tl list.sel(3))
    then have log: "child_log w' = take (Suc j) network_child"
      using 2(1,3) len by (simp add: take_Suc_conv_app_nth)
    show ?thesis
    proof (cases "w_child w' = Some rest")
      case True
      then show ?thesis using log nth(2) 2(1) len unfolding log_inv_def
        by (cases "j = 5") (auto intro!: exI [of _ "Suc j"])
    next
      case False
      then have "a = StartCmd" "w_child w' = Some [Command]" using 2(4) by auto
      moreover have "j = 5" using nth(1) \<open>a = StartCmd\<close> 2(1)
        by (auto simp: network_child_def less_Suc_eq numeral_eq_Suc le_Suc_eq)
      ultimately show ?thesis using log len by (simp add: log_inv_def)
    qed
  next
    case 3
    then show ?thesis by (simp add: log_inv_def)
  qed
qed

lemma log_invariant:
  assumes "(docker_step env network_child)\<^sup>*\<^sup>* (docker_start network_main) w"
  shows "log_inv w"
  using assms
proof (induction rule: rtranclp_induct)
  case base
  then show ?case by (simp add: log_inv_def docker_start_def child_log_def)
next
  case (step w w')
  have "way_inv env w" by (rule way.reach_inv [OF step(1)])
  then show ?case using step(2) log_inv_parent log_inv_child step(3) unfolding docker_step_def by blast
qed

text \<open>When the command runs, the container's calls have been exactly its program, in order.\<close>

lemma command_log:
  assumes "(docker_step env network_child)\<^sup>*\<^sup>* (docker_start network_main) w" and "w_child w = Some [Command]"
  shows "child_log w = network_child"
  using log_invariant [OF assms(1)] assms(2) drop_not_command [symmetric] by (auto simp: log_inv_def)

section \<open>The view of the command\<close>

lemma command_view:
  assumes "(docker_step env network_child)\<^sup>*\<^sup>* (docker_start network_main) w" and "w_child w = Some [Command]"
  shows "view fs w p = fst (enter_network_rootdir fs p)"
  by (simp add: view_def command_log [OF assms] network_child_def enter_network_rootdir_def Let_def)

lemma set_mount_done:
  assumes "fs_priv fs" and "fs_dir fs d" and "fs_dir fs (d @ [''proc''])" and "fs_dir fs (d @ [''sys''])"
    and "pr_root p = d"
  shows "set_mount fs p = p\<lparr>pr_mounts := pr_mounts p @ [(d @ [''proc''], ''proc''), (d @ [''sys''], ''sysfs'')]\<rparr>"
proof -
  have comp: "components ''/proc'' = ['''', ''proc'']" "components ''/sys'' = ['''', ''sys'']" by simp_all
  have "resolve_dir fs ''/proc'' q = Some (d @ [''proc''])" "resolve_dir fs ''/sys'' q = Some (d @ [''sys''])"
    if "pr_root q = d" for q :: process
    using that assms(2-4) unfolding resolve_dir_def comp by (simp_all add: absolute_def step_into_def Let_def)
  then show ?thesis using assms(1,5) by (simp add: set_mount_def mount_def)
qed

lemma set_mount_frame: "pr_root (set_mount fs q) = pr_root q" "pr_cwd (set_mount fs q) = pr_cwd q"
  by (simp_all add: set_mount_def mount_def split: option.split)



end
