(* ===== verification/Descriptors.thy ===== *)
theory Descriptors
  imports Bytes
begin

text \<open>
  The descriptor programs of \<open>io/fd\<close> and \<open>network/socket/socket_01.c\<close>, over a process's descriptor
  table.  \<open>open\<close>, \<open>socket\<close> and \<open>accept\<close> take the lowest free number, \<open>dup2\<close> the one it is told.  A number
  refers to an open file description, which several numbers, and after \<open>fork\<close> both processes, share.  Which
  files can be opened and which addresses bound are parameters.
\<close>

section \<open>The kernel's side\<close>

datatype description =
  OpenFile cstring
| Socket
| BoundSocket "u8 list"
| ListeningSocket "u8 list option" int
| ConnectedSocket

record 'd fd_process =
  p_table :: "nat \<Rightarrow> 'd option"
  p_limit :: nat

definition free_fds :: "'d fd_process \<Rightarrow> nat list" where
  "free_fds p = filter (\<lambda>i. p_table p i = None) [0..<p_limit p]"

definition fd_install :: "'d \<Rightarrow> 'd fd_process \<Rightarrow> int \<times> 'd fd_process" where
  "fd_install d p =
     (case free_fds p of
        [] \<Rightarrow> (- 1, p)
      | fd # _ \<Rightarrow> (int fd, p\<lparr>p_table := (p_table p)(fd := Some d)\<rparr>))"

definition fd_lookup :: "int \<Rightarrow> 'd fd_process \<Rightarrow> 'd option" where
  "fd_lookup fd p = (if fd < 0 then None else p_table p (nat fd))"

definition sys_open :: "(cstring \<Rightarrow> 'd option) \<Rightarrow> cstring \<Rightarrow> 'd fd_process \<Rightarrow> int \<times> 'd fd_process" where
  "sys_open file path p = (case file path of None \<Rightarrow> (- 1, p) | Some d \<Rightarrow> fd_install d p)"

definition sys_close :: "int \<Rightarrow> 'd fd_process \<Rightarrow> int \<times> 'd fd_process" where
  "sys_close fd p =
     (if fd_lookup fd p = None then (- 1, p) else (0, p\<lparr>p_table := (p_table p)(nat fd := None)\<rparr>))"

definition dup2 :: "int \<Rightarrow> nat \<Rightarrow> 'd fd_process \<Rightarrow> int \<times> 'd fd_process" where
  "dup2 old new p =
     (case fd_lookup old p of
        None \<Rightarrow> (- 1, p)
      | Some d \<Rightarrow>
          if p_limit p \<le> new then (- 1, p)
          else (int new, p\<lparr>p_table := (p_table p)(new := Some d)\<rparr>))"

section \<open>\<open>fd_test_01.cpp\<close>\<close>

definition SIZE :: nat where "SIZE = 10"

definition test_file :: "nat \<Rightarrow> cstring" where
  "test_file i = ascii ''/tmp/test.txt'' @ dec_digits i"

text \<open>The two loops that open, with the numbers printed; the loop that closes every other one.\<close>

fun open_files :: "(cstring \<Rightarrow> 'd option) \<Rightarrow> nat list \<Rightarrow> 'd fd_process \<Rightarrow> int list \<times> 'd fd_process" where
  "open_files file [] p = ([], p)"
| "open_files file (i # is) p =
     (let (fd, p) = sys_open file (test_file i) p; (fds, p) = open_files file is p in (fd # fds, p))"

function close_every_other :: "int list \<Rightarrow> nat \<Rightarrow> 'd fd_process \<Rightarrow> 'd fd_process" where
  "close_every_other fds i p =
     (if i < SIZE then close_every_other fds (i + 2) (snd (sys_close (fds ! i) p)) else p)"
  by pat_completeness auto
termination by (relation "measure (\<lambda>(fds, i, p). SIZE - i)") (auto simp: SIZE_def)

declare close_every_other.simps [simp del]

definition main2 :: "(cstring \<Rightarrow> 'd option) \<Rightarrow> 'd fd_process \<Rightarrow> int list \<times> int list \<times> 'd fd_process" where
  "main2 file p =
     (let (fds, p) = open_files file [0..<SIZE] p;
          p = close_every_other fds 0 p;
          (again, p) = open_files file [SIZE..<SIZE * 2] p
      in (fds, again, p))"

section \<open>\<open>fd_test_00.cpp\<close>, \<open>dup_test01.c\<close> and \<open>fd_fork_test_01.c\<close>\<close>

definition fd01 :: "(cstring \<Rightarrow> 'd option) \<Rightarrow> 'd fd_process \<Rightarrow> cstring \<times> 'd fd_process" where
  "fd01 file p =
     (let file_name = ascii ''/tmp/test.txt''; (fd, p) = sys_open file file_name p in
      if fd = - 1 then (ascii ''open failed: '' @ file_name, p)
      else (ascii ''file fd: '' @ dec_digits (nat fd), p))"

definition STDOUT_FILENO :: nat where "STDOUT_FILENO = 1"
definition STDERR_FILENO :: nat where "STDERR_FILENO = 2"

definition output_log :: cstring where "output_log = ascii ''/tmp/output.log''"
definition error_log :: cstring where "error_log = ascii ''/tmp/error.log''"

text \<open>The process as it sleeps.\<close>

definition dup_main :: "(cstring \<Rightarrow> 'd option) \<Rightarrow> 'd fd_process \<Rightarrow> 'd fd_process" where
  "dup_main file p =
     (let (stdout_fd, p) = sys_open file output_log p;
          (err_fd, p) = sys_open file error_log p;
          (_, p) = dup2 stdout_fd STDOUT_FILENO p;
          (_, p) = dup2 err_fd STDERR_FILENO p
      in p)"

text \<open>The processes that sleep in the end, with the line each has printed (up to the number of the process).\<close>

definition fork_file_main :: "(cstring \<Rightarrow> 'd option) \<Rightarrow> bool \<Rightarrow> 'd fd_process \<Rightarrow> (cstring \<times> 'd fd_process) list" where
  "fork_file_main file forks p =
     (let (fd, p) = sys_open file output_log p in
      if forks then [(ascii ''in parent'', p), (ascii ''in child'', p)] else [(ascii ''in parent'', p)])"

section \<open>Sockets\<close>

text \<open>
  A \<open>sockaddr_in\<close> of 16 bytes; the port is stored high byte first.  \<open>bind\<close> changes the description that
  the number refers to, here in the table itself, as no other number refers to it yet.
\<close>

definition AF_INET_bytes :: "u8 list" where "AF_INET_bytes = le_bytes 2 2"

definition htons_bytes :: "nat \<Rightarrow> u8 list" where "htons_bytes port = rev (le_bytes 2 port)"

definition server_addr :: "nat \<Rightarrow> u8 list" where
  "server_addr port = AF_INET_bytes @ htons_bytes port @ replicate 4 0 @ replicate 8 0"

record net =
  n_socket :: bool
  n_bind :: "u8 list \<Rightarrow> bool"
  n_listen :: bool
  n_accept :: bool
  n_fork :: bool

definition sys_socket :: "net \<Rightarrow> description fd_process \<Rightarrow> int \<times> description fd_process" where
  "sys_socket env p = (if n_socket env then fd_install Socket p else (- 1, p))"

definition sys_bind :: "net \<Rightarrow> int \<Rightarrow> u8 list \<Rightarrow> description fd_process \<Rightarrow> int \<times> description fd_process" where
  "sys_bind env fd addr p =
     (if fd_lookup fd p = Some Socket \<and> n_bind env addr
      then (0, p\<lparr>p_table := (p_table p)(nat fd := Some (BoundSocket addr))\<rparr>) else (- 1, p))"

text \<open>A socket that is not bound listens on a port of the kernel's choice.\<close>

definition sys_listen :: "net \<Rightarrow> int \<Rightarrow> int \<Rightarrow> description fd_process \<Rightarrow> int \<times> description fd_process" where
  "sys_listen env fd backlog p =
     (case fd_lookup fd p of
        Some (BoundSocket a) \<Rightarrow>
          if n_listen env then (0, p\<lparr>p_table := (p_table p)(nat fd := Some (ListeningSocket (Some a) backlog))\<rparr>) else (- 1, p)
      | Some Socket \<Rightarrow>
          if n_listen env then (0, p\<lparr>p_table := (p_table p)(nat fd := Some (ListeningSocket None backlog))\<rparr>) else (- 1, p)
      | _ \<Rightarrow> (- 1, p))"

definition sys_accept :: "net \<Rightarrow> int \<Rightarrow> description fd_process \<Rightarrow> int \<times> description fd_process" where
  "sys_accept env fd p =
     (case fd_lookup fd p of
        Some (ListeningSocket _ _) \<Rightarrow> if n_accept env then fd_install ConnectedSocket p else (- 1, p)
      | _ \<Rightarrow> (- 1, p))"

definition PORT :: nat where "PORT = 8080"
definition BACKLOG :: int where "BACKLOG = 5"

definition bind_and_listen :: "net \<Rightarrow> int \<Rightarrow> description fd_process \<Rightarrow> description fd_process" where
  "bind_and_listen env sockfd p =
     (let (_, p) = sys_bind env sockfd (server_addr PORT) p; (_, p) = sys_listen env sockfd BACKLOG p in p)"

text \<open>\<open>main\<close> of \<open>fd_fork.cpp\<close>: its result at once, or the processes that wait for a key.\<close>

definition fork_socket_main :: "net \<Rightarrow> description fd_process \<Rightarrow> int + description fd_process list" where
  "fork_socket_main env p =
     (let (sockfd, p) = sys_socket env p; p = bind_and_listen env sockfd p in
      if \<not> n_fork env then Inl 1 else Inr [p, p])"

text \<open>\<open>main\<close> of \<open>socket_01.c\<close>: the result, the numbers printed, and the process.\<close>

definition socket_main :: "net \<Rightarrow> description fd_process \<Rightarrow> int \<times> int list \<times> description fd_process" where
  "socket_main env p =
     (let (sockfd, p) = sys_socket env p; (r, p) = sys_bind env sockfd (server_addr 8000) p in
      if r < 0 then (1, [sockfd], p)
      else let (ret, p) = sys_listen env sockfd 5 p in
        if ret < 0 then (1, [sockfd], p)
        else let (connfd, p) = sys_accept env sockfd p in
          if connfd < 0 then (1, [sockfd], p) else (0, [sockfd, connfd], p))"

section \<open>\<open>epoll_test_01.c\<close>\<close>

text \<open>
  \<open>create_sock_fd\<close>, which the file does not define, is a parameter, like the kernel's answers; the answers of
  \<open>epoll_wait\<close> are a list, each the descriptors with events.  The result is the descriptors given to
  \<open>handle_event\<close> and the exit code, if the program has left.
\<close>

definition MAX_EVENTS :: nat where "MAX_EVENTS = 10"

fun epoll_loop :: "int \<Rightarrow> int list option list \<Rightarrow> int list \<times> int option" where
  "epoll_loop sock_fd [] = ([], None)"
| "epoll_loop sock_fd (None # waits) = ([], Some 1)"
| "epoll_loop sock_fd (Some events # waits) =
     (let (handled, code) = epoll_loop sock_fd waits
      in (filter (\<lambda>fd. fd = sock_fd) (take MAX_EVENTS events) @ handled, code))"

definition epoll_main :: "(int \<Rightarrow> int) \<Rightarrow> int \<Rightarrow> (int \<Rightarrow> int \<Rightarrow> int) \<Rightarrow> int list option list \<Rightarrow> int list \<times> int option" where
  "epoll_main epoll_create create_sock_fd epoll_ctl_add waits =
     (let epfd = epoll_create 0 in
      if epfd < 0 then ([], Some 1)
      else let sock_fd = create_sock_fd in
        if epoll_ctl_add epfd sock_fd < 0 then ([], Some 1) else epoll_loop sock_fd waits)"

text \<open>\<open>epoll_create\<close> refuses a size that is not positive, so the program ends at once.\<close>

lemma epoll_main_ends: "(\<And>n. n \<le> 0 \<Longrightarrow> create n = - 1) \<Longrightarrow> epoll_main create sock ctl waits = ([], Some 1)"
  by (simp add: epoll_main_def)

section \<open>The lowest free numbers\<close>

lemma free_fds_sorted [simp]: "sorted (free_fds p)" "distinct (free_fds p)"
  by (simp_all add: free_fds_def sorted_wrt_filter)

lemma free_fds_set: "set (free_fds p) = {i. i < p_limit p \<and> p_table p i = None}"
  by (auto simp: free_fds_def)

text \<open>A table is known by its free numbers: two sorted lists with the same members are the same.\<close>

lemma free_fds_eqI: "sorted xs \<Longrightarrow> distinct xs \<Longrightarrow> set xs = {i. i < p_limit p \<and> p_table p i = None} \<Longrightarrow> free_fds p = xs"
  using sorted_distinct_set_unique free_fds_sorted free_fds_set by metis

lemma fd_install_free:
  assumes "free_fds p = fd # fds"
  shows "fd_install d p = (int fd, p\<lparr>p_table := (p_table p)(fd := Some d)\<rparr>)"
    "free_fds (p\<lparr>p_table := (p_table p)(fd := Some d)\<rparr>) = fds"
proof -
  show "fd_install d p = (int fd, p\<lparr>p_table := (p_table p)(fd := Some d)\<rparr>)" using assms by (simp add: fd_install_def)
  have "sorted (fd # fds)" "distinct (fd # fds)" "set (fd # fds) = {i. i < p_limit p \<and> p_table p i = None}"
    using free_fds_sorted free_fds_set assms by metis+
  then show "free_fds (p\<lparr>p_table := (p_table p)(fd := Some d)\<rparr>) = fds"
    by (intro free_fds_eqI) (auto simp: set_eq_iff)
qed

text \<open>Opening \<open>n\<close> files gives the \<open>n\<close> lowest free numbers, in order, and -1 when they are used up.\<close>

definition fds_given :: "nat \<Rightarrow> nat list \<Rightarrow> int list" where
  "fds_given n free = map int (take n free) @ replicate (n - length free) (- 1)"

lemma open_files_gives:
  assumes "\<forall>i \<in> set is. file (test_file i) \<noteq> None"
  shows "case open_files file is p of (fds, q) \<Rightarrow>
    fds = fds_given (length is) (free_fds p) \<and> free_fds q = drop (length is) (free_fds p) \<and> p_limit q = p_limit p \<and>
    (\<forall>i. p_table q i = None \<longleftrightarrow> p_table p i = None \<and> i \<notin> set (take (length is) (free_fds p)))"
  using assms
proof (induction "is" arbitrary: p)
  case (Cons i "is")
  obtain d where d: "file (test_file i) = Some d" using Cons.prems by auto
  show ?case
  proof (cases "free_fds p")
    case Nil
    then show ?thesis using Cons.IH [of p] Cons.prems d
      by (simp add: sys_open_def fd_install_def fds_given_def split: prod.splits)
  next
    case (Cons fd fds)
    define q where "q = p\<lparr>p_table := (p_table p)(fd := Some d)\<rparr>"
    have "sys_open file (test_file i) p = (int fd, q)" "free_fds q = fds"
      using fd_install_free [OF Cons, of d] d by (simp_all add: sys_open_def q_def)
    then show ?thesis using Cons.IH [of q] Cons.prems Cons by (auto simp: fds_given_def q_def split: prod.splits)
  qed
qed (simp add: fds_given_def)

text \<open>Closing a number, free or not, makes it free and no other.\<close>

lemma sys_close_table:
  "p_table (snd (sys_close fd p)) i = None \<longleftrightarrow> p_table p i = None \<or> fd = int i"
  "p_limit (snd (sys_close fd p)) = p_limit p"
  by (auto simp: sys_close_def fd_lookup_def split: if_splits)

lemma close_every_other_table:
  "p_table (close_every_other fds 0 p) i = None \<longleftrightarrow> p_table p i = None \<or> (\<exists>j \<in> {0, 2, 4, 6, 8}. fds ! j = int i)"
  "p_limit (close_every_other fds 0 p) = p_limit p"
  by (simp_all add: close_every_other.simps SIZE_def sys_close_table numeral_eq_Suc)

lemma fds_given_nth: "i < n \<Longrightarrow> fds_given n free ! i = (if i < length free then int (free ! i) else - 1)"
  by (auto simp: fds_given_def nth_append min_def)

text \<open>Every other one of the first ten free numbers.\<close>

definition every_other :: "nat list \<Rightarrow> nat list" where
  "every_other free = map ((!) free) (filter (\<lambda>j. j < length free) [0, 2, 4, 6, 8])"

lemma set_every_other: "set (every_other free) = {free ! j |j. j \<in> {0, 2, 4, 6, 8} \<and> j < length free}"
  by (auto simp: every_other_def)

lemma every_other_sorted:
  assumes "sorted free" "distinct free"
  shows "sorted (every_other free @ drop 10 free)" "distinct (every_other free @ drop 10 free)"
proof -
  have lt: "free ! i < free ! j" if "i < j" "j < length free" for i j
    using assms that sorted_nth_mono [of free i j] nth_eq_iff_index_eq [of free i j] by force
  have front: "sorted_wrt (<) (every_other free)"
    by (auto simp: every_other_def lt)
  have "sorted_wrt (<) (drop 10 free)" using assms sorted_wrt_drop strict_sorted_iff by blast
  moreover have "x < y" if "x \<in> set (every_other free)" "y \<in> set (drop 10 free)" for x y
    using that lt by (fastforce simp: set_every_other in_set_conv_nth)
  ultimately have "sorted_wrt (<) (every_other free @ drop 10 free)" using front by (simp add: sorted_wrt_append)
  then show "sorted (every_other free @ drop 10 free)" "distinct (every_other free @ drop 10 free)"
    using strict_sorted_iff by blast+
qed

lemma free_after_closing:
  assumes "free_fds q = drop 10 (free_fds p)" "p_limit q = p_limit p" "fds = fds_given 10 (free_fds p)"
  shows "free_fds (close_every_other fds 0 q) = every_other (free_fds p) @ drop 10 (free_fds p)"
proof (rule free_fds_eqI)
  let ?F = "free_fds p"
  have "fds ! j = int i \<longleftrightarrow> j < length ?F \<and> i = ?F ! j" if "j \<in> {0, 2, 4, 6, 8}" for i j
    using that by (simp only: assms(3), subst fds_given_nth) auto
  moreover have "i \<in> set (drop 10 ?F) \<longleftrightarrow> i < p_limit p \<and> p_table q i = None" for i
    using free_fds_set [of q] assms(1,2) by auto
  moreover have "?F ! j < p_limit p" if "j < length ?F" for j using that nth_mem free_fds_set by blast
  ultimately show "set (every_other ?F @ drop 10 ?F) =
      {i. i < p_limit (close_every_other fds 0 q) \<and> p_table (close_every_other fds 0 q) i = None}"
    by (auto simp: set_every_other close_every_other_table assms(2))
qed (rule every_other_sorted; simp)+

text \<open>
  C38: When the files can be opened, the first loop gets the ten lowest free numbers, in order, the second
  the five of them that were closed in between before any new one, and -1 stands where the table is full.
  What is free afterwards follows from that: no number is lost and none is given twice.
\<close>

theorem descriptors_reused:
  assumes "\<forall>i < 2 * SIZE. file (test_file i) \<noteq> None"
  shows "case main2 file p of (fds, again, q) \<Rightarrow>
    (let pool = every_other (free_fds p) @ drop SIZE (free_fds p) in
      fds = fds_given SIZE (free_fds p) \<and> again = fds_given SIZE pool \<and> free_fds q = drop SIZE pool)"
proof -
  obtain fds p1 where o1: "open_files file [0..<SIZE] p = (fds, p1)" by fastforce
  define p2 where "p2 = close_every_other fds 0 p1"
  obtain again q where o2: "open_files file [SIZE..<SIZE * 2] p2 = (again, q)" by fastforce
  have files: "\<forall>i \<in> set [0..<SIZE]. file (test_file i) \<noteq> None" "\<forall>i \<in> set [SIZE..<SIZE * 2]. file (test_file i) \<noteq> None"
    using assms by (auto simp: SIZE_def)
  have len: "length [0..<SIZE] = SIZE" "length [SIZE..<SIZE * 2] = SIZE" by simp_all
  have first: "fds = fds_given SIZE (free_fds p)" "free_fds p1 = drop SIZE (free_fds p)" "p_limit p1 = p_limit p"
    using open_files_gives [where p = p, OF files(1)] o1 by (simp_all add: len)
  then have "free_fds p2 = every_other (free_fds p) @ drop SIZE (free_fds p)"
    using free_after_closing [of p1 p fds] by (simp add: p2_def SIZE_def)
  moreover have "again = fds_given SIZE (free_fds p2)" "free_fds q = drop SIZE (free_fds p2)"
    using open_files_gives [where p = p2, OF files(2)] o2 by (simp_all add: len)
  moreover have "main2 file p = (fds, again, q)" using o1 o2 by (simp add: main2_def p2_def)
  ultimately show ?thesis using first(1) by (simp add: Let_def)
qed

text \<open>A process with the three standard descriptors and a limit of 14.\<close>

definition sample_table :: "nat fd_process" where
  "sample_table = \<lparr>p_table = (\<lambda>i. if i < 3 then Some 0 else None), p_limit = 14\<rparr>"

lemma sample_free: "free_fds sample_table = [3, 4, 5, 6, 7, 8, 9, 10, 11, 12, 13]"
  by (simp add: free_fds_def sample_table_def upt_rec)

lemma descriptors_reused_witness:
  "case main2 (\<lambda>_. Some 1) sample_table of (fds, again, q) \<Rightarrow>
     fds = [3, 4, 5, 6, 7, 8, 9, 10, 11, 12] \<and> again = [3, 5, 7, 9, 11, 13, - 1, - 1, - 1, - 1] \<and> free_fds q = []"
  using descriptors_reused [of "\<lambda>_. Some 1" sample_table]
  by (simp add: sample_free every_other_def fds_given_def SIZE_def numeral_eq_Suc split: prod.splits)

section \<open>Redirection and sharing\<close>

text \<open>
  Standard output and error go to the two files, unless the program is started with 0 and 1 both closed:
  then the error log is opened as 1 and the first \<open>dup2\<close> closes it.
\<close>

lemma dup_main_redirects:
  assumes "file output_log = Some out" "file error_log = Some err" "2 < p_limit p" "free_fds p = f # g # free"
  shows "p_table (dup_main file p) STDOUT_FILENO = Some out"
    "p_table (dup_main file p) STDERR_FILENO = Some (if p_table p 0 = None \<and> p_table p 1 = None then out else err)"
proof -
  let ?q = "p\<lparr>p_table := (p_table p)(f := Some out)\<rparr>"
  have "sys_open file output_log p = (int f, ?q)" "free_fds ?q = g # free"
    using fd_install_free [OF assms(4), of out] assms(1) by (simp_all add: sys_open_def)
  moreover from this(2) have "sys_open file error_log ?q = (int g, ?q\<lparr>p_table := (p_table ?q)(g := Some err)\<rparr>)"
    using fd_install_free(1) [of ?q g free err] assms(2) by (simp add: sys_open_def)
  moreover have fg: "f < g" and members: "set (f # g # free) = {i. i < p_limit p \<and> p_table p i = None}"
    using free_fds_sorted [of p] free_fds_set [of p] assms(4) by auto
  moreover have "g = 1 \<longleftrightarrow> p_table p 0 = None \<and> p_table p 1 = None"
  proof
    assume "p_table p 0 = None \<and> p_table p 1 = None"
    then have "0 \<in> set (f # g # free)" "1 \<in> set (f # g # free)" using assms(3) members by auto
    moreover have "sorted (f # g # free)" using free_fds_sorted(1) assms(4) by metis
    ultimately show "g = 1" using fg by auto
  next
    assume "g = 1"
    then have "f = 0" using fg by simp
    then show "p_table p 0 = None \<and> p_table p 1 = None" using members \<open>g = 1\<close> by auto
  qed
  ultimately show "p_table (dup_main file p) STDOUT_FILENO = Some out"
    "p_table (dup_main file p) STDERR_FILENO = Some (if p_table p 0 = None \<and> p_table p 1 = None then out else err)"
    using assms(3) by (auto simp: dup_main_def dup2_def fd_lookup_def STDOUT_FILENO_def STDERR_FILENO_def Let_def)
qed

text \<open>After \<open>fork\<close> the child has the parent's table.\<close>

lemma fork_file_main_shares:
  "(l, q) \<in> set (fork_file_main file forks p) \<Longrightarrow> q = snd (sys_open file output_log p)"
  by (cases "sys_open file output_log p") (auto simp: fork_file_main_def split: if_splits)

text \<open>
  The two processes of \<open>fd_fork.cpp\<close> hold the same listening socket.  As the result of \<open>bind\<close> is not looked at,
  it listens on another port when 8080 is taken.
\<close>

lemma fork_socket_main_listens:
  assumes "n_socket env" "n_listen env" "n_fork env" "free_fds p = f # free"
  shows "\<exists>q. fork_socket_main env p = Inr [q, q] \<and>
    p_table q f = Some (ListeningSocket (if n_bind env (server_addr PORT) then Some (server_addr PORT) else None) BACKLOG)"
  using assms fd_install_free(1) [OF assms(4), of Socket]
  by (simp add: fork_socket_main_def bind_and_listen_def sys_socket_def sys_bind_def sys_listen_def fd_lookup_def Let_def)

lemma socket_main_ok:
  assumes "free_fds p = f # g # free"
  shows "fst (socket_main env p) = 0 \<longleftrightarrow> n_socket env \<and> n_bind env (server_addr 8000) \<and> n_listen env \<and> n_accept env"
proof (cases "n_socket env")
  case True
  define q where "q d = p\<lparr>p_table := (p_table p)(f := Some d)\<rparr>" for d :: description
  have "fd_install Socket p = (int f, q Socket)" using fd_install_free(1) [OF assms] by (simp add: q_def)
  moreover have "free_fds (q d) = g # free" for d using fd_install_free(2) [OF assms] by (simp add: q_def)
  then have "fst (fd_install c (q d)) = int g" for c d by (simp add: fd_install_def)
  moreover have "fd_lookup (int f) (q d) = Some d" "(q d)\<lparr>p_table := (p_table (q d))(f := Some e)\<rparr> = q e" for d e
    by (simp_all add: q_def fd_lookup_def)
  ultimately show ?thesis
    using True by (auto simp: socket_main_def sys_socket_def sys_bind_def sys_listen_def sys_accept_def Let_def split: prod.splits)
      (metis fst_conv of_nat_less_0_iff)
next
  case False
  then show ?thesis by (simp add: socket_main_def sys_socket_def sys_bind_def fd_lookup_def)
qed

lemma server_addr_8000: "server_addr 8000 = [2, 0, 31, 64, 0, 0, 0, 0, 0, 0, 0, 0, 0, 0, 0, 0]"
  by code_simp

end
