(* ===== verification/Hooks.thy ===== *)
theory Hooks
  imports Bytes "HOL-Library.Signed_Division"
begin

text \<open>
  The replacements of library functions in \<open>basic/ld_preload\<close>.  \<open>dlsym\<close> is a parameter that gives the
  original function or NULL; a static pointer to it is part of the state.  Using NULL is \<open>None\<close>.
\<close>

section \<open>\<open>time\<close> and \<open>rand\<close>\<close>

text \<open>The state is whether \<open>real_time\<close> (\<open>real_rand\<close>) has been found; the object of \<open>t\<close> is changed in place.\<close>

definition time_hook :: "bool \<Rightarrow> int option \<Rightarrow> bool \<Rightarrow> int \<times> int option \<times> bool" where
  "time_hook dlsym t real_time =
     (let real_time = real_time \<or> dlsym in
      if \<not> real_time then (- 1, t, real_time)
      else let fixed_time = 42 in (fixed_time, map_option (\<lambda>_. fixed_time) t, real_time))"

definition rand_hook :: "bool \<Rightarrow> bool \<Rightarrow> int \<times> bool" where
  "rand_hook dlsym real_rand =
     (let real_rand = real_rand \<or> dlsym in if \<not> real_rand then (- 1, real_rand) else (42, real_rand))"

text \<open>\<open>main\<close> of \<open>time_test.c\<close>: what \<open>t\<close> holds at its end, from an indeterminate value.\<close>

definition time_test_main :: "bool \<Rightarrow> int \<Rightarrow> int option" where
  "time_test_main dlsym t = (let (_, t, _) = time_hook dlsym (Some t) False in t)"

section \<open>\<open>malloc\<close>, \<open>open\<close> and \<open>connect\<close>\<close>

text \<open>The result with \<open>errno\<close> if it is set; \<open>r\<close> is what \<open>rand\<close> returns.\<close>

definition malloc_hook :: "(nat \<Rightarrow> nat option) option \<Rightarrow> int \<Rightarrow> nat \<Rightarrow> (nat option \<times> int option) option" where
  "malloc_hook orig_malloc r sz =
     (if r smod 3 = 0 then Some (None, Some 12)
      else do { f \<leftarrow> orig_malloc; Some (f sz, None) })"

text \<open>\<open>open\<close> passes the mode 0 on, whatever the third argument.\<close>

definition open_hook :: "(cstring \<Rightarrow> int \<Rightarrow> int \<Rightarrow> int) option \<Rightarrow> cstring \<Rightarrow> int \<Rightarrow> int \<Rightarrow> int option" where
  "open_hook orig_open filename flags varargs =
     (let mode = 0 in do { f \<leftarrow> orig_open; Some (f filename flags mode) })"

definition connect_hook :: "(int \<Rightarrow> u8 list \<Rightarrow> int) option \<Rightarrow> (int \<Rightarrow> u8 list \<Rightarrow> int) option \<Rightarrow> int \<Rightarrow> u8 list \<Rightarrow>
    (int \<times> (int \<Rightarrow> u8 list \<Rightarrow> int) option) option" where
  "connect_hook dlsym orig_connect sockfd addr =
     (let orig_connect = (case orig_connect of None \<Rightarrow> dlsym | Some f \<Rightarrow> Some f) in do {
        f \<leftarrow> orig_connect;
        Some (f sockfd addr, orig_connect)
      })"

section \<open>What callers see\<close>

text \<open>A sequence of calls: the hooks are constant from the first call that finds the original on.\<close>

fun rand_calls :: "bool list \<Rightarrow> bool \<Rightarrow> int list" where
  "rand_calls [] real = []"
| "rand_calls (d # ds) real = (let (r, real) = rand_hook d real in r # rand_calls ds real)"

lemma rand_calls_found: "rand_calls ds True = replicate (length ds) 42"
  by (induction ds) (simp_all add: rand_hook_def)

lemma rand_calls_constant:
  "rand_calls (replicate k False @ True # ds) False = replicate k (- 1) @ replicate (length ds + 1) 42"
  by (induction k) (simp_all add: rand_hook_def rand_calls_found)

lemma time_test_main_is: "time_test_main True t = Some 42" "time_test_main False t = Some t"
  by (simp_all add: time_test_main_def time_hook_def)

text \<open>With the hook of \<open>rand\<close> loaded too, \<open>malloc\<close> always fails.\<close>

lemma malloc_hook_with_rand_hook: "malloc_hook f (fst (rand_hook True real)) sz = Some (None, Some 12)"
  by (simp add: malloc_hook_def rand_hook_def signed_modulo_int_def)

lemma hooks_transparent:
  "r smod 3 \<noteq> 0 \<Longrightarrow> malloc_hook (Some f) r sz = Some (f sz, None)"
  "connect_hook (Some g) None fd addr = Some (g fd addr, Some g)"
  "op n fl md = op n fl 0 \<Longrightarrow> open_hook (Some op) n fl md = Some (op n fl md)"
  by (simp_all add: malloc_hook_def connect_hook_def open_hook_def)

end
