(* ===== verification/Samples.thy ===== *)
theory Samples
  imports Bytes
begin

text \<open>
  Samples of the course whose point is how the platform lays out data, dispatches calls and accounts for
  memory: the thread control block (\<open>thread/tcbhead_t.c\<close>), the classes of \<open>basic/assembly\<close>, the memory
  tests under \<open>mem\<close>, the clock (\<open>basic/clock/clock_test.c\<close>), the programs that create one thread, the addresses of nested
  calls (\<open>basic/assembly/stack_test.c\<close>) and two namespaces (\<open>toy_docker/namespace_test.cpp\<close>).
\<close>

section \<open>Structure layout\<close>

text \<open>A field is its name, size and alignment; each starts at the next multiple of its alignment.\<close>

type_synonym field = "string \<times> nat \<times> nat"

definition round_up :: "nat \<Rightarrow> nat \<Rightarrow> nat" where
  "round_up al n = (n + (al - 1)) div al * al"

fun offsets :: "nat \<Rightarrow> field list \<Rightarrow> (string \<times> nat \<times> nat) list" where
  "offsets off [] = []"
| "offsets off ((name, sz, al) # fs) = (let off = round_up al off in (name, off, sz) # offsets (off + sz) fs)"

fun layout_end :: "nat \<Rightarrow> field list \<Rightarrow> nat" where
  "layout_end off [] = off"
| "layout_end off ((name, sz, al) # fs) = layout_end (round_up al off + sz) fs"

definition struct_align :: "field list \<Rightarrow> nat" where
  "struct_align fs = fold max (map (snd \<circ> snd) fs) 1"

definition struct_size :: "field list \<Rightarrow> nat" where
  "struct_size fs = round_up (struct_align fs) (layout_end 0 fs)"

definition tcbhead_t :: "field list" where
  "tcbhead_t = [(''tcb'', 8, 8), (''dtv'', 8, 8), (''self'', 8, 8), (''multiple_threads'', 4, 4), (''gscope_flag'', 4, 4),
     (''sysinfo'', 8, 8), (''stack_guard'', 8, 8), (''pointer_guard'', 8, 8), (''vgetcpu_cache'', 2 * 8, 8),
     (''__glibc_reserved1'', 4, 4), (''__glibc_unused1'', 4, 4), (''__private_tm'', 4 * 8, 8), (''__private_ss'', 8, 8),
     (''__glibc_reserved2'', 8, 8), (''__glibc_unused2'', 8 * 4 * (4 * 4), 32), (''__padding'', 8 * 8, 8)]"

lemma round_up: "0 < al \<Longrightarrow> n \<le> round_up al n \<and> al dvd round_up al n \<and> round_up al n < n + al"
proof -
  assume al: "0 < al"
  have "(n + (al - 1)) div al * al + (n + (al - 1)) mod al = n + (al - 1)" by (rule div_mult_mod_eq)
  moreover have "(n + (al - 1)) mod al < al" using al by simp
  ultimately have "n \<le> (n + (al - 1)) div al * al" "(n + (al - 1)) div al * al < n + al" using al by linarith+
  then show ?thesis unfolding round_up_def by (intro conjI dvd_triv_right)
qed

lemma layout_end_le: "\<forall>(nm, sz, al) \<in> set fs. 0 < al \<Longrightarrow> off \<le> layout_end off fs"
proof (induction off fs rule: layout_end.induct)
  case (2 off nm sz al fs)
  have "off \<le> round_up al off" using 2(2) round_up by auto
  then show ?case using 2 by fastforce
qed simp

text \<open>Fields are aligned, in the order of their declarations, apart from each other and inside the structure.\<close>

lemma offsets_inside:
  "\<forall>(nm, sz, al) \<in> set fs. 0 < al \<Longrightarrow> (nm, o1, n) \<in> set (offsets off fs) \<Longrightarrow> off \<le> o1 \<and> o1 + n \<le> layout_end off fs"
proof (induction off fs rule: layout_end.induct)
  case (2 off nm' sz al fs)
  have al: "off \<le> round_up al off" "\<forall>(nm, sz, al) \<in> set fs. 0 < al" using 2(2) round_up by auto
  consider "o1 = round_up al off" "n = sz" | "(nm, o1, n) \<in> set (offsets (round_up al off + sz) fs)"
    using 2(3) by (auto simp: Let_def)
  then show ?case
  proof cases
    case 1
    then show ?thesis using al layout_end_le by simp
  next
    case 2
    then show ?thesis using "2.IH" al by fastforce
  qed
qed simp

lemma offsets_apart:
  assumes "\<forall>(nm, sz, al) \<in> set fs. 0 < al" and "i < j" and "j < length (offsets off fs)"
  shows "case (offsets off fs ! i, offsets off fs ! j) of ((_, o1, n), (_, o2, _)) \<Rightarrow> o1 + n \<le> o2"
  using assms
proof (induction off fs arbitrary: i j rule: layout_end.induct)
  case (2 off nm sz al fs)
  obtain j' where j: "j = Suc j'" using 2(3) by (cases j) auto
  let ?rest = "offsets (round_up al off + sz) fs"
  have rest: "\<forall>(nm, sz, al) \<in> set fs. 0 < al" using 2(2) by auto
  show ?case
  proof (cases i)
    case 0
    have "?rest ! j' \<in> set ?rest" using 2(4) j by (simp add: Let_def)
    moreover obtain nm' o2 n' where r: "?rest ! j' = (nm', o2, n')" by (cases "?rest ! j'")
    ultimately have "round_up al off + sz \<le> o2" using offsets_inside [OF rest] by metis
    then show ?thesis using 0 j r by (simp add: Let_def)
  next
    case (Suc i')
    then show ?thesis using "2.IH" [OF rest, of i' j'] 2(3,4) j by (simp add: Let_def)
  qed
qed simp

text \<open>The stack guard is where compiled code expects it, at \<open>fs:0x28\<close>.\<close>

lemma tcbhead_offsets:
  "map_of (offsets 0 tcbhead_t) ''self'' = Some (0x10, 8)"
  "map_of (offsets 0 tcbhead_t) ''stack_guard'' = Some (0x28, 8)"
  "map_of (offsets 0 tcbhead_t) ''pointer_guard'' = Some (0x30, 8)"
  "map_of (offsets 0 tcbhead_t) ''__glibc_unused2'' = Some (0x80, 512)"
  "struct_align tcbhead_t = 32" "struct_size tcbhead_t = 704"
  by code_simp+

section \<open>Classes\<close>

text \<open>
  \<open>virtual_test.cpp\<close>: the entries of each class's table, each with what the function returns, and the three
  calls through it.
\<close>

datatype virtual_class = VBase | VFoo | VBar

fun vtable :: "virtual_class \<Rightarrow> int list" where
  "vtable VBase = [0, 0, 0]"
| "vtable VFoo = [100, 0, 0]"
| "vtable VBar = [200, 0, 0]"

definition abc :: "virtual_class \<Rightarrow> int" where
  "abc ptr = (let res = vtable ptr ! 0; res = vtable ptr ! 1; res = vtable ptr ! 2 in res)"

text \<open>\<open>class_derive.cpp\<close>: objects of \<open>Base\<close> and, with a part of their own, of \<open>Foo\<close>; \<open>x\<close> and \<open>y\<close> are indeterminate before.\<close>

record base_object = obj_x :: "int option"
record foo_object = base_object + obj_y :: "int option"

definition Base_ctor :: "'a base_object_scheme \<Rightarrow> 'a base_object_scheme" where
  "Base_ctor this = this\<lparr>obj_x := Some 100\<rparr>"

definition Foo_ctor :: "foo_object \<Rightarrow> foo_object" where
  "Foo_ctor this = (Base_ctor this)\<lparr>obj_y := Some 200\<rparr>"

definition Foo_print :: "foo_object \<Rightarrow> cstring option" where
  "Foo_print this = map_option (\<lambda>y. ascii ''hello'' @ dec_digits (nat y)) (obj_y this)"

definition Base_dtor :: "cstring list" where "Base_dtor = [ascii ''~Base() called'']"
definition Foo_dtor :: "cstring list" where "Foo_dtor = ascii ''~Foo() called'' # Base_dtor"

definition derive_main :: "foo_object \<Rightarrow> cstring list option" where
  "derive_main uninit = (let foo = Foo_ctor uninit in map_option (\<lambda>line. line # Foo_dtor) (Foo_print foo))"

text \<open>\<open>construct_test.cpp\<close>: an object of a block, and one on the heap if \<open>new\<close> can allocate it.\<close>

definition construct_main :: "bool \<Rightarrow> cstring list \<times> int option" where
  "construct_main new_ok =
     (if new_ok then ([ascii ''~Foo() called'', ascii ''~Bar() called''], Some 0) else ([ascii ''~Foo() called''], None))"

text \<open>Overridden or not, the last call decides; members are set from the base on and destroyed towards it.\<close>

lemma abc_zero: "abc ptr = 0"
  by (cases ptr) (simp_all add: abc_def)

lemma derive_main_output:
  "derive_main uninit = Some [ascii ''hello200'', ascii ''~Foo() called'', ascii ''~Base() called'']"
  by (simp add: derive_main_def Foo_ctor_def Base_ctor_def Foo_print_def Foo_dtor_def Base_dtor_def ascii_def dec_digits.simps)

section \<open>\<open>func_call.c\<close>\<close>

text \<open>A sum of \<open>int\<close>s from the left; \<open>None\<close> is an overflow.\<close>

definition add_int :: "int \<Rightarrow> int \<Rightarrow> int option" where
  "add_int a b = (if - (2 ^ 31) \<le> a + b \<and> a + b < 2 ^ 31 then Some (a + b) else None)"

fun sum_ints :: "int \<Rightarrow> int list \<Rightarrow> int option" where
  "sum_ints acc [] = Some acc"
| "sum_ints acc (x # xs) = do { s \<leftarrow> add_int acc x; sum_ints s xs }"

definition add12 :: "int \<Rightarrow> int \<Rightarrow> int \<Rightarrow> int \<Rightarrow> int \<Rightarrow> int \<Rightarrow> int \<Rightarrow> int \<Rightarrow> int \<Rightarrow> int \<Rightarrow> int \<Rightarrow> int \<Rightarrow> int option" where
  "add12 x y z a b c d e f g h l = sum_ints x [y, z, a, b, c, d, e, f, g, h, l]"

definition func_call_main :: "int option" where
  "func_call_main = add12 1 2 3 4 5 6 7 8 9 10 11 12"

lemma func_call_main_is: "func_call_main = Some 78"
  by (simp add: func_call_main_def add12_def add_int_def)

lemma sum_ints_Some: "sum_ints acc xs = Some r \<Longrightarrow> r = acc + sum_list xs"
  by (induction xs arbitrary: acc) (fastforce simp: bind_eq_Some_conv add_int_def split: if_splits)+

section \<open>Memory\<close>

text \<open>The offsets that \<open>rss_test.c\<close> writes to; \<open>vss_test.c\<close> has the loop commented out.\<close>

definition mem_size :: nat where "mem_size = 10 * 1024 * 1024 * 1024"

function touch_loop :: "nat \<Rightarrow> nat \<Rightarrow> nat list" where
  "touch_loop sz i = (if i < sz then i # touch_loop sz (i + 4096) else [])"
  by pat_completeness auto
termination by (relation "measure (\<lambda>(sz, i). sz - i)") auto

declare touch_loop.simps [simp del]

text \<open>The result and, unless \<open>malloc\<close> fails, the offsets written.\<close>

definition rss_main :: "bool \<Rightarrow> int \<times> nat list" where
  "rss_main malloc_ok = (if \<not> malloc_ok then (1, []) else (0, touch_loop mem_size 0))"

definition vss_main :: "bool \<Rightarrow> int \<times> nat list" where
  "vss_main malloc_ok = (if \<not> malloc_ok then (1, []) else (0, []))"

lemma touch_loop_from: "touch_loop (n * 4096) (k * 4096) = map (\<lambda>i. i * 4096) [k..<n]"
proof (induction "n - k" arbitrary: k)
  case 0
  then show ?case by (simp add: touch_loop.simps)
next
  case (Suc m)
  then have "k < n" by simp
  moreover have "touch_loop (n * 4096) (k * 4096 + 4096) = map (\<lambda>i. i * 4096) [Suc k..<n]"
    using Suc.hyps(1) [of "Suc k"] Suc.hyps(2) by (simp add: algebra_simps)
  ultimately show ?case by (simp add: touch_loop.simps [of _ "k * 4096"] upt_conv_Cons)
qed

text \<open>Wherever the block starts, each write is on a page of its own: 2621440 pages become resident, or none.\<close>

lemma touch_loop_pages:
  "length (touch_loop (n * 4096) 0) = n \<and> (\<forall>off \<in> set (touch_loop (n * 4096) 0). off < n * 4096) \<and>
    distinct (map (\<lambda>off. (base + off) div 4096) (touch_loop (n * 4096) 0))"
  using touch_loop_from [of n 0] by (auto simp: distinct_map comp_inj_on_iff inj_on_def)

lemma rss_main_pages:
  "fst (rss_main True) = 0 \<and> length (snd (rss_main True)) = 2621440 \<and> (\<forall>off \<in> set (snd (rss_main True)). off < mem_size) \<and>
    distinct (map (\<lambda>off. (base + off) div 4096) (snd (rss_main True)))"
  using touch_loop_pages [of 2621440 base] by (simp add: rss_main_def mem_size_def)

section \<open>The clock and single threads\<close>

text \<open>The line of \<open>test_clock\<close>: the nanoseconds are printed without leading zeros.\<close>

definition test_clock :: "nat \<times> nat \<Rightarrow> cstring" where
  "test_clock ts = ascii ''ts: '' @ dec_digits (fst ts) @ ascii ''.'' @ dec_digits (snd ts)"

text \<open>So one second and five nanoseconds looks like one and a half.\<close>

lemma test_clock_unpadded: "test_clock (1, 5) = ascii ''ts: 1.5''" "test_clock (1, 500000000) = ascii ''ts: 1.500000000''"
  by (simp_all add: test_clock_def dec_digits.simps ascii_def)

text \<open>
  \<open>main\<close> of \<open>thread_test_01.cpp\<close> and \<open>thread_test_02.cpp\<close> with the results of \<open>pthread_create\<close> and
  \<open>pthread_join\<close>: the result, the lines of the thread and the lines of errors.  The thread has run when it
  has been joined; otherwise \<open>started\<close> tells whether it got to its line before the program ended.
\<close>

definition thread1_main :: "int \<Rightarrow> int \<Rightarrow> bool \<Rightarrow> int \<times> cstring list" where
  "thread1_main create join started =
     (if create \<noteq> 0 then (1, []) else let lines = [ascii ''hello in new thread''] in
      if join \<noteq> 0 then (1, if started then lines else []) else (0, lines))"

definition thread2_main :: "int \<Rightarrow> int \<Rightarrow> bool \<Rightarrow> int \<times> cstring list" where
  "thread2_main create join started =
     (let num = 100 in
      if create \<noteq> 0 then (1, []) else let lines = [ascii ''hello in new thread, arg: '' @ dec_digits num] in
      if join \<noteq> 0 then (1, if started then lines else []) else (0, lines))"

text \<open>\<open>arch_prctl_test.c\<close>, with the address that the call stores, or its failure.\<close>

definition arch_prctl_main :: "u64 option \<Rightarrow> int \<times> u64 option" where
  "arch_prctl_main fs = (case fs of Some fs_base \<Rightarrow> (0, Some fs_base) | None \<Rightarrow> (1, None))"

text \<open>\<open>main\<close> of \<open>clock_test.c\<close> and of \<open>virtual_test.cpp\<close>.\<close>

definition clock_test_main :: "nat \<times> nat \<Rightarrow> nat \<times> nat \<Rightarrow> cstring list" where
  "clock_test_main monotonic coarse = [test_clock monotonic, test_clock coarse]"

definition virtual_test_main :: int where
  "virtual_test_main = abc VFoo"

section \<open>The stack\<close>

text \<open>
  \<open>stack_test.c\<close>: \<open>main\<close> calls \<open>x\<close>, which calls \<open>y\<close>, which calls \<open>z\<close>, and each prints the address of its
  variable.  The stack grows down; the size of a frame (with the return address of the call) and the
  offset of the variable in it are the compiler's choice.
\<close>

type_synonym frame = "nat \<times> nat"

definition frame_ok :: "frame \<Rightarrow> bool" where
  "frame_ok f \<longleftrightarrow> snd f + 8 \<le> fst f"

fun local_addrs :: "nat \<Rightarrow> frame list \<Rightarrow> nat list" where
  "local_addrs sp [] = []"
| "local_addrs sp ((n, off) # fs) = (sp - n + off) # local_addrs (sp - n) fs"

definition stack_test_main :: "nat \<Rightarrow> frame \<Rightarrow> frame \<Rightarrow> frame \<Rightarrow> frame \<Rightarrow> (string \<times> nat) list" where
  "stack_test_main sp main x y z = zip [''main'', ''x'', ''y'', ''z''] (local_addrs sp [main, x, y, z])"

text \<open>Every variable lies in the stack, and wholly below those of the callers.\<close>

lemma local_addrs_inside:
  "list_all frame_ok fs \<Longrightarrow> sum_list (map fst fs) \<le> sp \<Longrightarrow>
    \<forall>a \<in> set (local_addrs sp fs). sp - sum_list (map fst fs) \<le> a \<and> a + 8 \<le> sp"
proof (induction sp fs rule: local_addrs.induct)
  case (2 sp n off fs)
  have "\<forall>a \<in> set (local_addrs (sp - n) fs). sp - n - sum_list (map fst fs) \<le> a \<and> a + 8 \<le> sp - n"
    using 2 by simp
  then show ?case using 2(2,3) by (fastforce simp: frame_ok_def)
qed simp

lemma local_addrs_descend:
  "list_all frame_ok fs \<Longrightarrow> sum_list (map fst fs) \<le> sp \<Longrightarrow> sorted_wrt (\<lambda>a b. b + 8 \<le> a) (local_addrs sp fs)"
proof (induction sp fs rule: local_addrs.induct)
  case (2 sp n off fs)
  have below: "b + 8 \<le> sp - n" if "b \<in> set (local_addrs (sp - n) fs)" for b
    using local_addrs_inside [of fs "sp - n"] 2(2,3) that by auto
  have "b + 8 \<le> sp - n + off" if "b \<in> set (local_addrs (sp - n) fs)" for b
    using below [OF that] by (rule trans_le_add1)
  then show ?case using 2 by simp
qed simp

text \<open>\<open>namespace_test.cpp\<close>: two variables of the same name.\<close>

definition A_a :: nat where "A_a = 100"
definition B_a :: nat where "B_a = 200"

definition namespace_test_main :: "cstring list" where
  "namespace_test_main = [ascii ''In A, a = '' @ dec_digits A_a, ascii ''In B, a = '' @ dec_digits B_a]"

lemma namespace_test_lines: "namespace_test_main = [ascii ''In A, a = 100'', ascii ''In B, a = 200'']"
  by (simp add: namespace_test_main_def A_a_def B_a_def ascii_def dec_digits.simps)

end
