(* ===== verification/Spec2Isabelle.thy ===== *)
theory Spec2Isabelle
  imports QueueRuns Scheduler Switching LockImpl Containers AtomicOps LockFreeStack RouteTrie FuseFs Packets FileServer CommandLine
    IntrusiveList TunTap Ucontext ThreadLocal NetlinkTyping RequestMeaning ContainerView Descriptors Hooks Samples
begin

text \<open>
  A verification library for the C and C++ programs of juejin-cs-internal: the programs of a course
  on systems, each of them small and mostly independent of the others.  Names of files are relative to
  \<open>src/\<close>.

  \<^bold>\<open>Conventions.\<close>  A C function that can run into undefined behaviour gives an \<open>option\<close>; \<open>None\<close> is the
  undefined behaviour, so a theorem that a result is \<open>Some\<close> is a theorem of memory safety.  Error codes
  and negative results are values.  The kernel and the C library are parameters: functions of the state
  in a record (\<open>net_env\<close>, \<open>docker_env\<close>, \<open>server_env\<close>, \<open>tun_env\<close>) or lists of results, and what a property
  needs of them is a named hypothesis.  Programs that run at the same time are step relations; a step is one access
  to shared memory or one system call.  The platform is LP64 and little-endian.

  \<^bold>\<open>Sequences of calls.\<close>  Refinement: the locale \<open>call_refinement\<close>, a component whose calls refine an abstract
  specification; it is interpreted on the priority queue (QueueRuns) and the routing table (RouteTrie).

  \<^bold>\<open>The priority queue and the coroutines\<close> (\<open>cpu/pqueue.h\<close>, \<open>cpu/pqueue.c\<close>, \<open>cpu/my_coroutine.c\<close>).
  \<^item> HeapOrder: heap order of numbered keys, and how sifting up and down restores it.
  \<^item> PQueue: \<open>pqueue_t\<close> as a record with its callbacks, one definition per function of \<open>pqueue.c\<close>.  The
    locales \<open>pq_order\<close> and \<open>pq_client\<close> say what the queue needs of its client's callbacks.
  \<^item> SwapContext: \<open>swap_context\<close>, instruction by instruction.
  \<^item> Coroutine: the tasks, the five callbacks (on which the locales are interpreted), \<open>delay\<close>, the coroutines
    and \<open>eventloop\<close>.  One turn of the loop is a function; a run is any number of turns.
  \<^item> Switching: the main program and any number of coroutines on the machine of SwapContext, refining a
    processor and a stack for each of them.
  \<^item> DelayQueue: the properties of the queue as the scheduler uses it.
  \<^item> QueueRuns: the abstract specification of the queue, a set of tasks, and that every sequence of calls refines it.
  \<^item> Scheduler: the scheduler over time: with a steady clock no sleep lasts for ever and no deadline is
    overtaken.
  The queue's lemmas show heap order, contents and stored positions of every operation, with the
  failure of \<open>realloc\<close>; the scheduler's that no run touches a freed task and that a turn resumes a
  coroutine whose time has come, and the one way in which a coroutine is never resumed.

  \<^bold>\<open>Threads\<close> (\<open>thread\<close>).
  \<^item> Transition: the locales \<open>inv_system\<close> and \<open>ending_system\<close>, a program with an invariant and one that can
    always run to its end; they are interpreted on the programs below and on the containers.
  \<^item> LockImpl: \<open>lock-impl/lock_impl.c\<close>, the futex lock and its test: mutual exclusion, no lost wake-up, no
    deadlock, the sum.
  \<^item> AtomicOps: \<open>cas.cpp\<close> and the programs of \<open>atomic\<close> around \<open>cmp_and_swap.asm\<close>: the counter of two threads is exact.
  \<^item> LockFreeStack: \<open>atomic/test.cpp\<close>, refined to a list with atomic operations.
  \<^item> ThreadLocal: \<open>tls_test_01.c\<close> and \<open>tls_test_02.c\<close>: with own variables every sum is exact, with shared ones an
    addition can be lost.

  \<^bold>\<open>Containers\<close> (\<open>toy_docker\<close>).
  \<^item> Bytes: byte buffers, little-endian fields, strings, alignment.
  \<^item> Netlink: \<open>nl.h\<close> and \<open>nl.c\<close>, messages as buffers, the socket and the transaction; the encoding of attributes
    is the specification that the puts refine and a receiver reads back.
  \<^item> NetlinkTyping: well-formed messages, kept by every sequence of building calls.
  \<^item> LxcNetwork, LxcRequests, LxcNames: the functions of \<open>network.c\<close>; which message or \<open>ioctl\<close> each sends,
    on every path with descriptors and heap blocks accounted for; addresses and interface names.
  \<^item> ToyDocker: \<open>write_cgroup\<close>, \<open>init_network\<close> and \<open>start_network\<close> of \<open>step_network\<close> and \<open>step_cgroup\<close>.
  \<^item> Containers: the four \<open>toy_docker.c\<close> as a parent and a child with a pipe, interleaving.
  \<^item> NetworkRun: \<open>step_network\<close> as a whole, from the bytes of the messages to the two processes: what has been
    asked for when the container's command runs.
  \<^item> RequestMeaning: a receiver that decodes the requests from their bytes, and the network they configure.
  \<^item> NetworkFailures: on which calls it depends whether the command runs, and which failures go unnoticed.
  \<^item> Rootfs: \<open>set_rootdir\<close>, \<open>set_mount\<close> and \<open>start_cmd\<close>, on a process's root and current directory: what
    stays below the new root, and what does not.
  \<^item> ContainerView: the calls of the two processes carried out on the container's root: where the command runs.
  \<^item> CommandLine: \<open>busy.c\<close> (and \<open>network/dns/DnsC.c\<close>).

  \<^bold>\<open>Single programs.\<close>
  \<^item> RouteTrie: \<open>network/route/route_test.cpp\<close>, the trie as a map from prefixes to hops, for any sequence of calls.
  \<^item> Packets: \<open>network/tcpdump/minidump.cpp\<close> and the hooks of \<open>network/netfilter\<close>.
  \<^item> TunTap: \<open>network/tuntap/tuntap_test.c\<close>.
  \<^item> FileServer: the two servers of \<open>io/zerocopy\<close>.
  \<^item> FuseFs: the callbacks of \<open>io/fuse/fuse_test_02.cpp\<close> and \<open>fuse_test_03.cpp\<close>, and the tables that these and
    \<open>fuse_test_01.cpp\<close> hand to the library; reading a file in requests of any size.
  \<^item> IntrusiveList: \<open>io/fd/intrusive_lists_test.c\<close>, rings of links in a store.
  \<^item> Descriptors: the other programs of \<open>io/fd\<close> and \<open>network/socket\<close>, on a table of descriptors.
  \<^item> Hooks: the replaced library functions of \<open>basic/ld_preload\<close>.
  \<^item> Samples: structure layout (\<open>thread/tcbhead_t.c\<close>), the classes and calls of \<open>basic/assembly\<close>, \<open>mem\<close>,
    \<open>basic/clock/clock_test.c\<close>, the programs with one thread, stack addresses, \<open>toy_docker/namespace_test.cpp\<close>.
  \<^item> Ucontext: \<open>cpu/ucontext_test*.c\<close> on a machine of contexts, with what they print.

  \<^bold>\<open>Bounds and loops.\<close>  No fuel is used.  Loops over arrays recurse with a measure on the index.  The printing of the
  queue, its test of heap order, the retry loop of \<open>netlink_rcv\<close>, the search of \<open>lxc_mkifname\<close> and the loop over a
  ring of links may not end in general; they are partial functions, and the theorems about them say
  when they return.  Endless loops are runs of any length.

  \<^bold>\<open>Not modelled.\<close>  The FUSE headers under \<open>include\<close> (declarations of a library); the programs in Rust, Go, Java
  and SystemTap; the loops of \<open>cpu/ipc\<close>, which compute nothing; samples that only return or print a constant or an address
  of one machine, or sleep (\<open>basic/assembly\<close> except the files above, \<open>basic/clock/time_get.c\<close>,
  \<open>basic/ld_preload/ld_test1.c\<close>, \<open>thread/two_thread.c\<close>).  Timing, weak memory
  orders (the accesses of the modelled programs are taken to be sequentially consistent), symbolic links and
  the text around printed values are left out.
\<close>

end
